(* ===== verification/Prelude.thy ===== *)
theory Prelude
  imports Main "HOL-Library.Word" "HOL-Library.Signed_Division"
begin

text \<open>
  Shared vocabulary of the xv6 development: the machine integer types of the C
  sources, the outcome type of a kernel operation (a value, a panic, or a thread that
  cannot go on), the scan loops the kernel uses on its fixed tables, and the generic
  lemmas about them.
\<close>

unbundle bit_operations_syntax

section \<open>Machine integers (types.h)\<close>

text \<open>
  \<open>uchar\<close>, \<open>ushort\<close> and \<open>uint\<close> of types.h. A C \<open>int\<close> whose wrap-around
  matters is a 32-bit word read with \<^term>\<open>sint\<close> and compared with \<open><s\<close>.
\<close>

type_synonym u8 = "8 word"
type_synonym u16 = "16 word"
type_synonym u32 = "32 word"
type_synonym cint = "32 word"

section \<open>Outcomes\<close>

text \<open>
  \<open>Ok\<close>: the operation returns. \<open>Panic\<close>: it calls \<open>panic\<close> with that message (or the
  processor faults in kernel mode, for which trap.c panics with ''trap''). \<open>Blocked\<close>:
  the thread does not return from here on its own: it spins on a lock another CPU
  holds, or it goes to sleep.
\<close>

datatype 'a res = Ok 'a | Panic string | Blocked

primrec rbind :: "'a res \<Rightarrow> ('a \<Rightarrow> 'b res) \<Rightarrow> 'b res" where
  "rbind (Ok x) f = f x"
| "rbind (Panic m) f = Panic m"
| "rbind Blocked f = Blocked"

named_theorems lock_simps \<open>how the lock primitives act on the states of the model\<close>
named_theorems table_simps \<open>reading and updating the kernel's fixed tables\<close>

lemma rbind_Ok_iff: "rbind m f = Ok y \<longleftrightarrow> (\<exists>x. m = Ok x \<and> f x = Ok y)"
  by (cases m) auto

lemma rbind_OkE:
  assumes "rbind m f = Ok y"
  obtains x where "m = Ok x" "f x = Ok y"
  using assms by (auto simp: rbind_Ok_iff)

lemma rbind_assoc: "rbind (rbind m f) g = rbind m (\<lambda>x. rbind (f x) g)"
  by (cases m) auto

lemma rbind_cong [fundef_cong]:
  "m = m' \<Longrightarrow> (\<And>x. m' = Ok x \<Longrightarrow> f x = f' x) \<Longrightarrow> rbind m f = rbind m' f'"
  by (cases m') auto

lemma rbind_if [simp]: "rbind (if b then m else n) f = (if b then rbind m f else rbind n f)"
  by simp

text \<open>
  Division of C \<open>int\<close>s truncates towards zero; a zero divisor raises the processor's
  divide error, which in kernel mode ends in \<open>panic("trap")\<close> (trap.c).
\<close>

definition cdiv :: "cint \<Rightarrow> cint \<Rightarrow> cint res" where
  "cdiv a b = (if b = 0 then Panic ''trap'' else Ok (word_of_int (sint a sdiv sint b)))"

section \<open>Scan loops\<close>

text \<open>
  \<open>for(p = tab; p < &tab[N]; p++) if(P) goto found;\<close> is the first index of a table
  that satisfies the test.
\<close>

fun first_ix :: "('a \<Rightarrow> bool) \<Rightarrow> 'a list \<Rightarrow> nat option" where
  "first_ix P [] = None"
| "first_ix P (x # xs) = (if P x then Some 0 else map_option Suc (first_ix P xs))"

lemma first_ix_Some_iff:
  "first_ix P xs = Some i \<longleftrightarrow> i < length xs \<and> P (xs ! i) \<and> (\<forall>j<i. \<not> P (xs ! j))"
proof (induction xs arbitrary: i)
  case Nil
  then show ?case by simp
next
  case (Cons x xs)
  show ?case
    by (cases i) (auto simp: Cons.IH All_less_Suc2)
qed

lemma first_ix_None_iff: "first_ix P xs = None \<longleftrightarrow> (\<forall>x\<in>set xs. \<not> P x)"
  by (induction xs) auto

lemma first_ix_SomeD:
  "first_ix P xs = Some i \<Longrightarrow> i < length xs"
  "first_ix P xs = Some i \<Longrightarrow> P (xs ! i)"
  by (simp_all add: first_ix_Some_iff)

lemma first_ix_cong_nth:
  "first_ix P xs = Some i \<Longrightarrow> first_ix P xs = Some j \<Longrightarrow> i = j"
  by simp

text \<open>Updating one entry of a table, as the C code does through a pointer to it.\<close>

definition upd_ix :: "nat \<Rightarrow> ('a \<Rightarrow> 'a) \<Rightarrow> 'a list \<Rightarrow> 'a list" where
  "upd_ix i f xs = xs[i := f (xs ! i)]"

lemma length_upd_ix [simp]: "length (upd_ix i f xs) = length xs"
  by (simp add: upd_ix_def)

lemma nth_upd_ix_eq [simp, table_simps]: "i < length xs \<Longrightarrow> upd_ix i f xs ! i = f (xs ! i)"
  by (simp add: upd_ix_def)

lemma nth_upd_ix_neq [simp, table_simps]: "i \<noteq> j \<Longrightarrow> upd_ix i f xs ! j = xs ! j"
  by (simp add: upd_ix_def)

lemma nth_upd_ix: "j < length xs \<Longrightarrow> upd_ix i f xs ! j = (if i = j then f (xs ! j) else xs ! j)"
  by (simp add: upd_ix_def)

lemma upd_ix_beyond: "\<not> i < length xs \<Longrightarrow> upd_ix i f xs = xs"
  by (simp add: upd_ix_def not_less list_update_beyond)

lemma upd_ix_upd_ix [simp]: "upd_ix i f (upd_ix i g xs) = upd_ix i (f \<circ> g) xs"
  by (cases "i < length xs") (simp_all add: upd_ix_beyond, simp add: upd_ix_def)

lemma map_upd_ix: "(\<And>x. g (f x) = g x) \<Longrightarrow> map g (upd_ix i f xs) = map g xs"
  by (cases "i < length xs") (auto simp: upd_ix_def list_eq_iff_nth_eq nth_list_update)

lemma list_all_upd_ix:
  "list_all P xs \<Longrightarrow> (\<And>x. P x \<Longrightarrow> P (f x)) \<Longrightarrow> list_all P (upd_ix i f xs)"
  by (cases "i < length xs") (auto simp: upd_ix_def list_all_length nth_list_update)

lemma set_upd_ix: "set (upd_ix i f xs) \<subseteq> insert (f (xs ! i)) (set xs)"
  by (simp add: upd_ix_def set_update_subset_insert)

section \<open>Arithmetic\<close>

lemma div_eq_block:
  assumes n: "0 < n"
  shows "(a::nat) div n = k \<longleftrightarrow> n * k \<le> a \<and> a < n * k + n"
proof
  assume "a div n = k"
  then have "n * k + a mod n = a" by (metis mult_div_mod_eq)
  moreover have "a mod n < n" using n by simp
  ultimately show "n * k \<le> a \<and> a < n * k + n" by linarith
next
  assume "n * k \<le> a \<and> a < n * k + n"
  then show "a div n = k" by (intro div_nat_eqI) simp_all
qed

lemma mod_0_mult: "(a::nat) mod n = 0 \<Longrightarrow> n * (a div n) = a"
  by (metis dvd_mult_div_cancel mod_0_imp_dvd)

section \<open>Words\<close>

lemma unat_lt_2p: "unat (w :: 'a::len word) < 2 ^ LENGTH('a)"
  by (rule unsigned_less)

lemma unat_u8: "unat (c :: u8) < 256"
  using unat_lt_2p [of c] by simp

lemma unat_u32: "unat (x :: u32) < 4294967296"
  using unat_lt_2p [of x] by simp

lemma unat_ucast_u8_u32 [simp]: "unat (ucast (c :: u8) :: u32) = unat c"
proof -
  have "take_bit 32 (unat c) = unat c"
    by (rule take_bit_nat_eq_self) (use unat_u8 [of c] in simp)
  then show ?thesis by (simp add: unsigned_ucast_eq)
qed

lemma ucast_ucast_u8 [simp]: "ucast (ucast (c :: u8) :: u32) = c"
  by (simp add: ucast_up_ucast_id is_up)

lemma unat_minus_1_u32 [simp]: "unat (- 1 :: u32) = 4294967295"
  by (simp add: unsigned_minus_1_eq_mask mask_eq_exp_minus_1)

lemma unat_add_u32: "unat a + unat b < 4294967296 \<Longrightarrow> unat (a + b :: u32) = unat a + unat b"
  by (simp add: unat_word_ariths)

lemma unat_sub_u32: "unat b \<le> unat a \<Longrightarrow> unat (a - b :: u32) = unat a - unat b"
  by (simp add: unat_sub word_le_nat_alt)

lemma unat_of_nat_u32 [simp]: "n < 4294967296 \<Longrightarrow> unat (of_nat n :: u32) = n"
  by (simp add: unat_of_nat take_bit_nat_eq_self)

text \<open>Signed 32-bit sums that do not overflow.\<close>

lemma sint_cint: "- 2147483648 \<le> sint (x :: cint)" "sint (x :: cint) < 2147483648"
  using sint_ge [of x] sint_lt [of x] by simp_all

lemma sint_add_cint:
  assumes "- 2147483648 \<le> sint a + sint b" "sint a + sint b < 2147483648"
  shows "sint (a + b :: cint) = sint a + sint b"
proof -
  have "sint (a + b) = signed_take_bit 31 (sint a + sint b)"
    by (simp add: sint_word_ariths)
  also have "\<dots> = sint a + sint b"
    by (rule signed_take_bit_int_eq_self) (use assms in simp_all)
  finally show ?thesis .
qed

end
