(* ===== verification/Spinlock.thy ===== *)
theory Spinlock
  imports Prelude
begin

text \<open>
  spinlock.c: the per-CPU interrupt state (\<open>ncli\<close>, \<open>intena\<close> of struct cpu and the
  processor's IF flag), spin locks, and the operations on them. The lock table maps the
  name of each lock of the kernel to its struct. \<open>this_cpu\<close> is the CPU that executes.
  The debugging field \<open>pcs\<close> is not part of a lock here: it records return addresses of
  the compiled C stack; \<open>getcallerpcs\<close> itself is modelled over a memory.
\<close>

section \<open>State\<close>

datatype lockid =
    L_kmem | L_cons | L_ptable | L_tickslock | L_idelock | L_bcache | L_log | L_icache
  | L_ftable | L_pipe u32 | L_bufsleep nat | L_inodesleep nat

record cpu =
  ncli :: int
  intena :: bool
  eflags_IF :: bool

record spinlock =
  locked :: u32
  lk_name :: string
  lk_cpu :: "nat option"

record lkst =
  cpus :: "nat \<Rightarrow> cpu"
  this_cpu :: nat
  locks :: "lockid \<Rightarrow> spinlock"

abbreviation mycpu :: "lkst \<Rightarrow> cpu" where
  "mycpu k \<equiv> cpus k (this_cpu k)"

definition upd_cpu :: "(cpu \<Rightarrow> cpu) \<Rightarrow> lkst \<Rightarrow> lkst" where
  "upd_cpu f k = k\<lparr>cpus := (cpus k)(this_cpu k := f (mycpu k))\<rparr>"

definition upd_lock :: "lockid \<Rightarrow> (spinlock \<Rightarrow> spinlock) \<Rightarrow> lkst \<Rightarrow> lkst" where
  "upd_lock l f k = k\<lparr>locks := (locks k)(l := f (locks k l))\<rparr>"

section \<open>Operations\<close>

definition cli :: "lkst \<Rightarrow> lkst" where
  "cli = upd_cpu (\<lambda>c. c\<lparr>eflags_IF := False\<rparr>)"

definition sti :: "lkst \<Rightarrow> lkst" where
  "sti = upd_cpu (\<lambda>c. c\<lparr>eflags_IF := True\<rparr>)"

text \<open>\<open>xchg\<close> stores the new value and returns the old one.\<close>

definition xchg :: "u32 \<Rightarrow> u32 \<Rightarrow> u32 \<times> u32" where
  "xchg old newval = (old, newval)"

definition initlock :: "lockid \<Rightarrow> string \<Rightarrow> lkst \<Rightarrow> lkst" where
  "initlock l nm = upd_lock l (\<lambda>lk. lk\<lparr>lk_name := nm, locked := 0, lk_cpu := None\<rparr>)"

definition holding :: "lockid \<Rightarrow> lkst \<Rightarrow> bool" where
  "holding l k \<longleftrightarrow> locked (locks k l) \<noteq> 0 \<and> lk_cpu (locks k l) = Some (this_cpu k)"

definition pushcli :: "lkst \<Rightarrow> lkst" where
  "pushcli k =
     (let eflags = eflags_IF (mycpu k);
          k1 = cli k;
          k2 = (if ncli (mycpu k1) = 0 then upd_cpu (\<lambda>c. c\<lparr>intena := eflags\<rparr>) k1 else k1)
      in upd_cpu (\<lambda>c. c\<lparr>ncli := ncli c + 1\<rparr>) k2)"

definition popcli :: "lkst \<Rightarrow> lkst res" where
  "popcli k =
     (if eflags_IF (mycpu k) then Panic ''popcli - interruptible''
      else let k1 = upd_cpu (\<lambda>c. c\<lparr>ncli := ncli c - 1\<rparr>) k
           in if ncli (mycpu k1) < 0 then Panic ''popcli''
              else Ok (if ncli (mycpu k1) = 0 \<and> intena (mycpu k1) then sti k1 else k1))"

text \<open>
  The loop \<open>while(xchg(&lk->locked, 1) != 0)\<close> ends at once on a free lock and, the
  lock being held by another CPU, spins until that CPU stores 0: \<open>Blocked\<close>.
\<close>

definition acquire :: "lockid \<Rightarrow> lkst \<Rightarrow> lkst res" where
  "acquire l k =
     (let k1 = pushcli k
      in if holding l k1 then Panic ''acquire''
         else let (old, new) = xchg (locked (locks k1 l)) 1
              in if old \<noteq> 0 then Blocked
                 else Ok (upd_lock l (\<lambda>lk. lk\<lparr>lk_cpu := Some (this_cpu k1)\<rparr>)
                           (upd_lock l (\<lambda>lk. lk\<lparr>locked := new\<rparr>) k1)))"

definition release :: "lockid \<Rightarrow> lkst \<Rightarrow> lkst res" where
  "release l k =
     (if \<not> holding l k then Panic ''release''
      else let k1 = upd_lock l (\<lambda>lk. lk\<lparr>lk_cpu := None\<rparr>) k;
               k2 = upd_lock l (\<lambda>lk. lk\<lparr>locked := 0\<rparr>) k1
           in popcli k2)"

text \<open>
  \<open>getcallerpcs(v, pcs)\<close> follows the chain of saved \<open>%ebp\<close> values from \<open>v - 8\<close>;
  \<open>rd\<close> reads a 32-bit word of the kernel stack.
\<close>

fun getpcs :: "(u32 \<Rightarrow> u32) \<Rightarrow> nat \<Rightarrow> u32 \<Rightarrow> u32 list" where
  "getpcs rd 0 ebp = []"
| "getpcs rd (Suc n) ebp =
     (if ebp = 0 \<or> ebp < 0x80000000 \<or> ebp = 0xffffffff then replicate (Suc n) 0
      else rd (ebp + 4) # getpcs rd n (rd ebp))"

definition getcallerpcs :: "(u32 \<Rightarrow> u32) \<Rightarrow> u32 \<Rightarrow> u32 list" where
  "getcallerpcs rd v = getpcs rd 10 (v - 8)"

section \<open>How the lock operations act\<close>

text \<open>
  \<open>cli_ok\<close>: interrupts are off whenever the nesting depth is not zero. \<open>settled\<close> is
  what remains of a balanced \<open>pushcli\<close>/\<open>popcli\<close> pair: at depth zero the field
  \<open>intena\<close> has been refreshed from the processor flag, nothing else has changed.
\<close>

definition lock_free :: "lockid \<Rightarrow> lkst \<Rightarrow> bool" where
  "lock_free l k \<longleftrightarrow> locked (locks k l) = 0 \<and> lk_cpu (locks k l) = None"

definition cli_ok :: "lkst \<Rightarrow> bool" where
  "cli_ok k \<longleftrightarrow> 0 \<le> ncli (mycpu k) \<and> (ncli (mycpu k) \<noteq> 0 \<longrightarrow> \<not> eflags_IF (mycpu k))"

definition settled :: "lkst \<Rightarrow> lkst" where
  "settled k = upd_cpu (\<lambda>c. if ncli c = 0 then c\<lparr>intena := eflags_IF c\<rparr> else c) k"

definition acquired :: "lockid \<Rightarrow> lkst \<Rightarrow> lkst" where
  "acquired l k = upd_lock l (\<lambda>lk. lk\<lparr>locked := 1, lk_cpu := Some (this_cpu k)\<rparr>) (pushcli k)"

lemma upd_cpu_simps [simp]:
  "locks (upd_cpu f k) = locks k" "this_cpu (upd_cpu f k) = this_cpu k"
  "cpus (upd_cpu f k) c = (if c = this_cpu k then f (mycpu k) else cpus k c)"
  by (simp_all add: upd_cpu_def)

lemma upd_lock_simps [simp]:
  "cpus (upd_lock l f k) = cpus k" "this_cpu (upd_lock l f k) = this_cpu k"
  "locks (upd_lock l f k) l' = (if l = l' then f (locks k l) else locks k l')"
  by (simp_all add: upd_lock_def)

lemma upd_lock_upd_lock: "upd_lock l f (upd_lock l g k) = upd_lock l (f \<circ> g) k"
  by (simp add: upd_lock_def)

lemma cli_simps [simp]:
  "locks (cli k) = locks k" "this_cpu (cli k) = this_cpu k"
  "cpus (cli k) c = (if c = this_cpu k then (mycpu k)\<lparr>eflags_IF := False\<rparr> else cpus k c)"
  by (simp_all add: cli_def)

lemma sti_simps [simp]:
  "locks (sti k) = locks k" "this_cpu (sti k) = this_cpu k"
  "cpus (sti k) c = (if c = this_cpu k then (mycpu k)\<lparr>eflags_IF := True\<rparr> else cpus k c)"
  by (simp_all add: sti_def)

lemma pushcli_simps [simp]:
  "locks (pushcli k) = locks k" "this_cpu (pushcli k) = this_cpu k"
  "cpus (pushcli k) c =
     (if c = this_cpu k
      then (mycpu k)\<lparr>ncli := ncli (mycpu k) + 1, eflags_IF := False,
             intena := (if ncli (mycpu k) = 0 then eflags_IF (mycpu k) else intena (mycpu k))\<rparr>
      else cpus k c)"
  by (simp_all add: pushcli_def Let_def)

lemma settled_simps [simp]:
  "locks (settled k) = locks k" "this_cpu (settled k) = this_cpu k"
  "lock_free l (settled k) = lock_free l k" "holding l (settled k) = holding l k"
  by (simp_all add: settled_def lock_free_def holding_def)

lemma acquired_simps [simp]:
  "this_cpu (acquired l k) = this_cpu k"
  "lock_free l' (acquired l k) = (l \<noteq> l' \<and> lock_free l' k)"
  "holding l (acquired l k)"
  "l \<noteq> l' \<Longrightarrow> holding l' (acquired l k) = holding l' k"
  by (auto simp: acquired_def lock_free_def holding_def)

lemma lkst_eqI:
  "cpus k = cpus k' \<Longrightarrow> this_cpu k = this_cpu k' \<Longrightarrow> locks k = locks k' \<Longrightarrow> k = (k' :: lkst)"
  by simp

lemma mycpu_acquired [simp]:
  "ncli (cpus (acquired l k) (this_cpu k)) = ncli (mycpu k) + 1"
  "eflags_IF (cpus (acquired l k) (this_cpu k)) = False"
  by (simp_all add: acquired_def)

lemma mycpu_settled [simp]:
  "ncli (cpus (settled k) (this_cpu k)) = ncli (mycpu k)"
  "eflags_IF (cpus (settled k) (this_cpu k)) = eflags_IF (mycpu k)"
  by (simp_all add: settled_def)

lemma cli_ok_simps [simp]:
  "cli_ok k \<Longrightarrow> cli_ok (acquired l k)" "cli_ok (settled k) = cli_ok k"
  by (auto simp: cli_ok_def)

lemma settled_settled [simp]: "settled (settled k) = settled k"
  by (rule lkst_eqI) (simp_all add: settled_def fun_eq_iff)

lemma settled_acquired [simp]: "cli_ok k \<Longrightarrow> settled (acquired l k) = acquired l k"
  by (rule lkst_eqI) (simp_all add: settled_def acquired_def cli_ok_def fun_eq_iff)

lemma acquired_settled [simp]: "acquired l (settled k) = acquired l k"
  by (rule lkst_eqI) (simp_all add: settled_def acquired_def fun_eq_iff)

lemma acquired_commute: "0 \<le> ncli (mycpu k) \<Longrightarrow> l \<noteq> l' \<Longrightarrow> acquired l (acquired l' k) = acquired l' (acquired l k)"
  by (rule lkst_eqI) (auto simp: acquired_def fun_eq_iff)

lemma acquire_free [lock_simps]: "lock_free l k \<Longrightarrow> acquire l k = Ok (acquired l k)"
  by (simp add: acquire_def acquired_def lock_free_def holding_def xchg_def Let_def upd_lock_upd_lock
      comp_def)

lemma release_acquired [lock_simps]:
  assumes "cli_ok k" "lock_free l k"
  shows "release l (acquired l k) = Ok (settled k)"
proof -
  let ?k = "upd_lock l (\<lambda>lk. lk\<lparr>locked := 0\<rparr>) (upd_lock l (\<lambda>lk. lk\<lparr>lk_cpu := None\<rparr>) (acquired l k))"
  have "popcli ?k = Ok (settled k)"
    using assms
    by (auto simp: popcli_def Let_def cli_ok_def settled_def acquired_def lock_free_def fun_eq_iff
        intro!: lkst_eqI)
  then show ?thesis by (simp add: release_def Let_def)
qed

lemma acquire_held: "holding l k \<Longrightarrow> acquire l k = Panic ''acquire''"
  by (simp add: acquire_def holding_def Let_def)

lemma release_not_held: "\<not> holding l k \<Longrightarrow> release l k = Panic ''release''"
  by (simp add: release_def)

lemma pushcli_popcli: "cli_ok k \<Longrightarrow> popcli (pushcli k) = Ok (settled k)"
  by (auto simp: popcli_def Let_def cli_ok_def settled_def fun_eq_iff intro!: lkst_eqI)

lemma length_getcallerpcs: "length (getcallerpcs rd v) = 10"
proof -
  have "length (getpcs rd n e) = n" for n e
    by (induction rd n e rule: getpcs.induct) auto
  then show ?thesis by (simp add: getcallerpcs_def)
qed

section \<open>Several CPUs\<close>

text \<open>
  A step is one lock primitive executed by some CPU: the order in which the CPUs take
  their steps is arbitrary, each primitive is atomic (\<open>xchg\<close> is). A \<open>popcli\<close> that is
  not part of \<open>release\<close> undoes an earlier \<open>pushcli\<close> of the same CPU, and \<open>sti\<close> is
  executed only at depth zero (scheduler() in proc.c).
\<close>

definition on_cpu :: "nat \<Rightarrow> lkst \<Rightarrow> lkst" where
  "on_cpu c k = k\<lparr>this_cpu := c\<rparr>"

definition held_by :: "nat \<Rightarrow> lkst \<Rightarrow> lockid set" where
  "held_by c k = {l. locked (locks k l) \<noteq> 0 \<and> lk_cpu (locks k l) = Some c}"

inductive lkstep :: "lkst \<Rightarrow> lkst \<Rightarrow> bool" where
  step_acquire: "acquire l (on_cpu c k) = Ok k' \<Longrightarrow> lkstep k k'"
| step_release: "release l (on_cpu c k) = Ok k' \<Longrightarrow> lkstep k k'"
| step_pushcli: "lkstep k (pushcli (on_cpu c k))"
| step_popcli: "int (card (held_by c k)) < ncli (cpus k c) \<Longrightarrow> popcli (on_cpu c k) = Ok k' \<Longrightarrow> lkstep k k'"
| step_cli: "lkstep k (cli (on_cpu c k))"
| step_sti: "ncli (cpus k c) = 0 \<Longrightarrow> lkstep k (sti (on_cpu c k))"

definition lk_boot :: "lkst \<Rightarrow> bool" where
  "lk_boot k \<longleftrightarrow> (\<forall>c. ncli (cpus k c) = 0) \<and> (\<forall>l. lock_free l k)"

inductive lk_reachable :: "lkst \<Rightarrow> bool" where
  lk_start: "lk_boot k \<Longrightarrow> lk_reachable k"
| lk_next: "lk_reachable k \<Longrightarrow> lkstep k k' \<Longrightarrow> lk_reachable k'"

text \<open>
  The invariant: the nesting depth of a CPU covers every lock it holds, interrupts are
  off at a positive depth, and a lock is marked locked exactly when it has an owner.
\<close>

definition lk_inv :: "lkst \<Rightarrow> bool" where
  "lk_inv k \<longleftrightarrow>
     (\<forall>c. finite (held_by c k) \<and> int (card (held_by c k)) \<le> ncli (cpus k c) \<and>
          (ncli (cpus k c) \<noteq> 0 \<longrightarrow> \<not> eflags_IF (cpus k c))) \<and>
     (\<forall>l. locked (locks k l) \<noteq> 0 \<longleftrightarrow> lk_cpu (locks k l) \<noteq> None)"

lemma lk_invD:
  assumes "lk_inv k"
  shows "finite (held_by c k)" "int (card (held_by c k)) \<le> ncli (cpus k c)"
    "ncli (cpus k c) \<noteq> 0 \<Longrightarrow> \<not> eflags_IF (cpus k c)" "0 \<le> ncli (cpus k c)"
    "locked (locks k l) \<noteq> 0 \<longleftrightarrow> lk_cpu (locks k l) \<noteq> None"
proof -
  show c: "int (card (held_by c k)) \<le> ncli (cpus k c)"
    using assms unfolding lk_inv_def by blast
  then show "0 \<le> ncli (cpus k c)" by linarith
qed (use assms in \<open>auto simp: lk_inv_def\<close>)

lemma lk_invI:
  assumes "\<And>c. finite (held_by c k)" "\<And>c. int (card (held_by c k)) \<le> ncli (cpus k c)"
    "\<And>c. ncli (cpus k c) \<noteq> 0 \<Longrightarrow> \<not> eflags_IF (cpus k c)"
    "\<And>l. locked (locks k l) \<noteq> 0 \<longleftrightarrow> lk_cpu (locks k l) \<noteq> None"
  shows "lk_inv k"
  using assms by (auto simp: lk_inv_def)

lemma on_cpu_simps [simp]:
  "cpus (on_cpu c k) = cpus k" "locks (on_cpu c k) = locks k" "this_cpu (on_cpu c k) = c"
  "held_by d (on_cpu c k) = held_by d k"
  by (simp_all add: on_cpu_def held_by_def)

lemma acquire_OkD:
  assumes "acquire l k = Ok k'"
  shows "locked (locks k l) = 0"
    and "k' = upd_lock l (\<lambda>lk. lk\<lparr>locked := 1, lk_cpu := Some (this_cpu k)\<rparr>) (pushcli k)"
  using assms
  by (auto simp: acquire_def xchg_def Let_def upd_lock_upd_lock comp_def split: if_splits)

lemma release_OkD:
  assumes "release l k = Ok k'"
  shows "holding l k"
    and "popcli (upd_lock l (\<lambda>lk. lk\<lparr>lk_cpu := None, locked := 0\<rparr>) k) = Ok k'"
  using assms
  by (auto simp: release_def Let_def upd_lock_upd_lock comp_def split: if_splits)

lemma popcli_OkD:
  assumes "popcli k = Ok k'"
  shows "locks k' = locks k"
    and "ncli (cpus k' c) = (if c = this_cpu k then ncli (mycpu k) - 1 else ncli (cpus k c))"
    and "0 < ncli (mycpu k)"
    and "c \<noteq> this_cpu k \<Longrightarrow> cpus k' c = cpus k c"
    and "ncli (cpus k' (this_cpu k)) \<noteq> 0 \<Longrightarrow> \<not> eflags_IF (cpus k' (this_cpu k))"
  using assms by (auto simp: popcli_def Let_def split: if_splits)

lemma held_by_cong: "locks k = locks k' \<Longrightarrow> held_by c k = held_by c k'"
  by (simp add: held_by_def)

lemma held_by_upd_lock:
  "held_by c (upd_lock l f k) =
     (if locked (f (locks k l)) \<noteq> 0 \<and> lk_cpu (f (locks k l)) = Some c
      then insert l (held_by c k) else held_by c k - {l})"
  by (auto simp: held_by_def)

lemma lk_inv_acquire:
  assumes inv: "lk_inv k" and acq: "acquire l (on_cpu c k) = Ok k'"
  shows "lk_inv k'"
proof -
  note k' = acquire_OkD [OF acq]
  have "l \<notin> held_by d k" for d
    using k'(1) by (simp add: held_by_def)
  then have held: "held_by d k' = (if d = c then insert l (held_by d k) else held_by d k)" for d
    using k'(2) by (simp add: held_by_upd_lock held_by_cong [of "pushcli (on_cpu c k)" k])
  show ?thesis
  proof (rule lk_invI)
    fix d
    show "finite (held_by d k')" using lk_invD(1) [OF inv] by (simp add: held)
    have "ncli (cpus k' d) = (if d = c then ncli (cpus k c) + 1 else ncli (cpus k d))"
      using k'(2) by simp
    then show "int (card (held_by d k')) \<le> ncli (cpus k' d)"
      using lk_invD(1,2) [OF inv, of d] \<open>l \<notin> held_by d k\<close> by (cases "d = c") (simp_all add: held)
    show "ncli (cpus k' d) \<noteq> 0 \<Longrightarrow> \<not> eflags_IF (cpus k' d)"
      using lk_invD(3) [OF inv, of d] k'(2) by (auto split: if_splits)
    show "locked (locks k' m) \<noteq> 0 \<longleftrightarrow> lk_cpu (locks k' m) \<noteq> None" for m
      using lk_invD(5) [OF inv, of m] k'(2) by simp
  qed
qed

lemma lk_inv_release:
  assumes inv: "lk_inv k" and rel: "release l (on_cpu c k) = Ok k'"
  shows "lk_inv k'"
proof -
  let ?k = "upd_lock l (\<lambda>lk. lk\<lparr>lk_cpu := None, locked := 0\<rparr>) (on_cpu c k)"
  note h = release_OkD [OF rel] note p = popcli_OkD [OF h(2)]
  have l: "l \<in> held_by c k" "\<And>d. d \<noteq> c \<Longrightarrow> l \<notin> held_by d k"
    using h(1) by (auto simp: holding_def held_by_def)
  have held: "held_by d k' = held_by d k - {l}" for d
    using held_by_cong [OF p(1), of d] by (simp add: held_by_upd_lock)
  have "finite (held_by d k') \<and> int (card (held_by d k')) \<le> ncli (cpus k' d) \<and>
      (ncli (cpus k' d) \<noteq> 0 \<longrightarrow> \<not> eflags_IF (cpus k' d))" for d
  proof (cases "d = c")
    case True
    have "0 < card (held_by c k)"
      using lk_invD(1) [OF inv] l(1) by (auto simp: card_gt_0_iff)
    with True lk_invD(1,2) [OF inv, of c] l(1) p(2) [of c] p(5) show ?thesis
      by (auto simp: held)
  next
    case False
    with lk_invD(1-3) [OF inv, of d] l(2) [of d] p(2) [of d] p(4) [of d] show ?thesis
      by (auto simp: held)
  qed
  with inv p(1) show ?thesis
    by (auto simp: lk_inv_def)
qed

lemma lk_inv_popcli:
  assumes inv: "lk_inv k" and g: "int (card (held_by c k)) < ncli (cpus k c)"
    and pop: "popcli (on_cpu c k) = Ok k'"
  shows "lk_inv k'"
proof -
  note p = popcli_OkD [OF pop]
  have "int (card (held_by d k')) \<le> ncli (cpus k' d) \<and>
      (ncli (cpus k' d) \<noteq> 0 \<longrightarrow> \<not> eflags_IF (cpus k' d))" for d
    using lk_invD(2,3) [OF inv, of d] g p(2) [of d] p(4) [of d] p(5) held_by_cong [OF p(1), of d]
    by (cases "d = c") auto
  with inv p(1) show ?thesis
    by (auto simp: lk_inv_def held_by_def)
qed

lemma lk_inv_mono:
  assumes inv: "lk_inv k" and l: "locks k' = locks k"
    and n: "\<And>c. ncli (cpus k c) \<le> ncli (cpus k' c)"
    and i: "\<And>c. ncli (cpus k' c) \<noteq> 0 \<Longrightarrow> \<not> eflags_IF (cpus k' c)"
  shows "lk_inv k'"
proof (rule lk_invI)
  fix c
  have h: "held_by c k' = held_by c k" using l by (rule held_by_cong)
  show "finite (held_by c k')" using lk_invD(1) [OF inv] by (simp add: h)
  show "int (card (held_by c k')) \<le> ncli (cpus k' c)"
    using lk_invD(2) [OF inv, of c] n [of c] by (simp add: h)
qed (use lk_invD(5) [OF inv] l i in simp_all)

lemma lk_inv_step: "lkstep k k' \<Longrightarrow> lk_inv k \<Longrightarrow> lk_inv k'"
proof (induction rule: lkstep.induct)
  case (step_pushcli k c)
  show ?case
    by (rule lk_inv_mono [OF step_pushcli]) (use lk_invD(3) [OF step_pushcli] in auto)
next
  case (step_cli k c)
  show ?case
    by (rule lk_inv_mono [OF step_cli]) (use lk_invD(3) [OF step_cli] in auto)
next
  case (step_sti k c)
  show ?case
    by (rule lk_inv_mono [OF step_sti(2)])
      (use step_sti(1) lk_invD(3) [OF step_sti(2)] in \<open>auto split: if_splits\<close>)
qed (auto intro: lk_inv_acquire lk_inv_release lk_inv_popcli)

lemma lk_inv_reachable: "lk_reachable k \<Longrightarrow> lk_inv k"
proof (induction rule: lk_reachable.induct)
  case (lk_start k)
  then show ?case
    by (auto simp: lk_boot_def lk_inv_def held_by_def lock_free_def)
next
  case (lk_next k k')
  then show ?case by (blast intro: lk_inv_step)
qed

text \<open>
  C11. Mutual exclusion of spin locks on any number of CPUs: in every reachable state, the
  owner of a lock runs with interrupts off (so no interrupt handler can deadlock on it),
  a second acquire by the owner panics, every other CPU spins, and only the owner can
  release.
\<close>

theorem spinlock_mutual_exclusion:
  assumes "lk_reachable k" and "lk_cpu (locks k l) = Some c"
  shows "\<not> eflags_IF (cpus k c) \<and> acquire l (on_cpu c k) = Panic ''acquire'' \<and>
    (\<forall>c'. c' \<noteq> c \<longrightarrow>
       acquire l (on_cpu c' k) = Blocked \<and> release l (on_cpu c' k) = Panic ''release'')"
proof -
  have inv: "lk_inv k" using assms(1) by (rule lk_inv_reachable)
  have lck: "locked (locks k l) \<noteq> 0" using lk_invD(5) [OF inv] assms(2) by simp
  have "l \<in> held_by c k" using lck assms(2) by (simp add: held_by_def)
  then have "0 < card (held_by c k)" using lk_invD(1) [OF inv] by (auto simp: card_gt_0_iff)
  then have "\<not> eflags_IF (cpus k c)"
    using lk_invD(2,3) [OF inv, of c] by linarith
  moreover have "acquire l (on_cpu c k) = Panic ''acquire''"
    using lck assms(2) by (simp add: acquire_held holding_def)
  moreover have "acquire l (on_cpu c' k) = Blocked \<and> release l (on_cpu c' k) = Panic ''release''"
    if "c' \<noteq> c" for c'
    using that lck assms(2)
    by (simp add: acquire_def release_not_held holding_def xchg_def Let_def)
  ultimately show ?thesis by blast
qed

text \<open>All locks free, interrupts on, running on CPU 0: the state concrete runs start in.\<close>

definition lk0 :: lkst where
  "lk0 = \<lparr>cpus = (\<lambda>c. \<lparr>ncli = 0, intena = True, eflags_IF = True\<rparr>), this_cpu = 0,
     locks = (\<lambda>l. \<lparr>locked = 0, lk_name = [], lk_cpu = None\<rparr>)\<rparr>"

lemma lk0_simps [simp]:
  "lock_free l lk0" "cli_ok lk0" "this_cpu lk0 = 0" "ncli (cpus lk0 c) = 0" "eflags_IF (cpus lk0 c)"
  "intena (cpus lk0 c)"
  by (simp_all add: lk0_def lock_free_def cli_ok_def)

lemma settled_lk0 [simp]: "settled lk0 = lk0"
  by (rule lkst_eqI) (auto simp: settled_def lk0_def)

theorem spinlock_mutual_exclusion_witness:
  "lk_reachable (acquired L_kmem lk0) \<and> lk_cpu (locks (acquired L_kmem lk0) L_kmem) = Some 0 \<and>
   acquire L_kmem (on_cpu 1 (acquired L_kmem lk0)) = Blocked"
proof -
  have "acquire L_kmem (on_cpu 0 lk0) = Ok (acquired L_kmem lk0)"
    unfolding on_cpu_def lk0_def by (simp add: acquire_def acquired_def holding_def xchg_def Let_def
        upd_lock_upd_lock comp_def)
  then have "lkstep lk0 (acquired L_kmem lk0)" by (rule step_acquire)
  moreover have "lk_reachable lk0" by (rule lk_start) (simp add: lk_boot_def)
  ultimately have r: "lk_reachable (acquired L_kmem lk0)" by (blast intro: lk_next)
  have o: "lk_cpu (locks (acquired L_kmem lk0) L_kmem) = Some 0" by (simp add: acquired_def)
  show ?thesis using spinlock_mutual_exclusion [OF r o] r o by simp
qed

end
