(* ===== verification/Console.thy ===== *)
theory Console
  imports Spinlock
begin

text \<open>
  The bottom layer of the kernel state: the lock and interrupt state of Spinlock, the
  memory the kernel addresses, and the console output devices; with the output half of
  console.c (\<open>printint\<close>, \<open>cprintf\<close>, \<open>cgaputc\<close>, \<open>consputc\<close>) and \<open>uartputc\<close> of
  uart.c. A C string is the list of its bytes, the terminating NUL left implicit.
\<close>

section \<open>State\<close>

text \<open>
  \<open>mem\<close> is the kernel's view of memory, byte by byte (string.c, kalloc.c, vm.c).
  \<open>cons_locking\<close> is \<open>cons.locking\<close>; \<open>crt\<close> and \<open>crt_pos\<close> are the cells and the
  cursor register of the CGA device, \<open>uart_tx\<close> the bytes sent to the serial port,
  present or not according to \<open>uart\<close>.
\<close>

record kern =
  lk :: lkst
  mem :: "u32 \<Rightarrow> u8"
  cons_locking :: bool
  panicked :: bool
  uart :: bool
  uart_tx :: "u8 list"
  crt :: "nat \<Rightarrow> u16"
  crt_pos :: nat

text \<open>The lock operations on the kernel state.\<close>

definition kacquire :: "lockid \<Rightarrow> 'a kern_scheme \<Rightarrow> 'a kern_scheme res" where
  "kacquire l s = rbind (acquire l (lk s)) (\<lambda>k. Ok (s\<lparr>lk := k\<rparr>))"

definition krelease :: "lockid \<Rightarrow> 'a kern_scheme \<Rightarrow> 'a kern_scheme res" where
  "krelease l s = rbind (release l (lk s)) (\<lambda>k. Ok (s\<lparr>lk := k\<rparr>))"

lemma kacquire_free [lock_simps]:
  "lock_free l (lk s) \<Longrightarrow> kacquire l s = Ok (s\<lparr>lk := acquired l (lk s)\<rparr>)"
  by (simp add: kacquire_def lock_simps)

lemma krelease_acquired [lock_simps]:
  "lk s = acquired l k \<Longrightarrow> cli_ok k \<Longrightarrow> lock_free l k \<Longrightarrow> krelease l s = Ok (s\<lparr>lk := settled k\<rparr>)"
  by (simp add: krelease_def lock_simps)

lemma lk_update_id: "lk s = k \<Longrightarrow> s\<lparr>lk := k\<rparr> = (s :: 'a kern_scheme)"
  by (cases s) simp

section \<open>Bytes of strings\<close>

definition bytes :: "string \<Rightarrow> u8 list" where
  "bytes = map of_char"

abbreviation chr :: "char \<Rightarrow> u8" where
  "chr \<equiv> of_char"

section \<open>Output devices\<close>

text \<open>uart.c: \<open>uartputc\<close> waits for the transmitter a bounded time and sends the byte.\<close>

definition uartputc :: "u8 \<Rightarrow> 'a kern_scheme \<Rightarrow> 'a kern_scheme" where
  "uartputc c s = (if \<not> uart s then s else s\<lparr>uart_tx := uart_tx s @ [c]\<rparr>)"

definition BACKSPACE :: u32 where
  "BACKSPACE = 0x100"

definition cgaputc :: "u32 \<Rightarrow> 'a kern_scheme \<Rightarrow> 'a kern_scheme res" where
  "cgaputc c s =
     (let pos = crt_pos s;
          (pos, cells) =
            (if c = 10 then (pos + (80 - pos mod 80), crt s)
             else if c = BACKSPACE then (if pos > 0 then pos - 1 else pos, crt s)
             else (pos + 1, (crt s)(pos := ucast (c AND 0xff) OR 0x0700)))
      in if pos > 25 * 80 then Panic ''pos under/overflow''
         else let (pos, cells) =
                    (if pos div 80 \<ge> 24
                     then (let up = (\<lambda>i. if i < 23 * 80 then cells (i + 80) else cells i);
                               pos = pos - 80
                           in (pos, \<lambda>i. if pos \<le> i \<and> i < 24 * 80 then 0 else up i))
                     else (pos, cells))
              in Ok (s\<lparr>crt_pos := pos, crt := cells(pos := 0x0720)\<rparr>))"

text \<open>After a panic on any CPU, a CPU that prints freezes.\<close>

definition consputc :: "u32 \<Rightarrow> 'a kern_scheme \<Rightarrow> 'a kern_scheme res" where
  "consputc c s =
     (if panicked s then Blocked
      else let s = (if c = BACKSPACE then uartputc 8 (uartputc 32 (uartputc 8 s))
                    else uartputc (ucast c) s)
           in cgaputc c s)"

fun consputs :: "u8 list \<Rightarrow> 'a kern_scheme \<Rightarrow> 'a kern_scheme res" where
  "consputs [] s = Ok s"
| "consputs (c # cs) s = rbind (consputc (ucast c) s) (consputs cs)"

section \<open>Formatting\<close>

text \<open>
  \<open>printint(xx, base, sign)\<close> as the sequence of characters it prints. The loop
  \<open>do buf[i++] = digits[x % base]; while((x /= base) != 0)\<close> collects digits from the
  least significant one; they are printed in reverse.
\<close>

definition digits :: "u8 list" where
  "digits = bytes ''0123456789abcdef''"

function printdigits :: "nat \<Rightarrow> nat \<Rightarrow> u8 list" where
  "printdigits x base =
     digits ! (x mod base) # (if base \<le> 1 \<or> x div base = 0 then [] else printdigits (x div base) base)"
  by pat_completeness auto
termination
  by (relation "measure fst") (auto intro!: div_less_dividend gr0I)

declare printdigits.simps [simp del]

definition printint :: "cint \<Rightarrow> nat \<Rightarrow> bool \<Rightarrow> u8 list" where
  "printint xx base sign =
     (let neg = sign \<and> xx <s 0;
          x = (if neg then - xx else xx);
          buf = printdigits (unat x) base;
          buf = (if neg then buf @ [chr CHR ''-''] else buf)
      in rev buf)"

text \<open>
  The variable arguments of \<open>cprintf\<close> are the words above the format on the stack;
  each is given with the C string at that address, which \<open>%s\<close> prints.
\<close>

type_synonym carg = "u32 \<times> u8 list"

fun cformat :: "u8 list \<Rightarrow> (nat \<Rightarrow> carg) \<Rightarrow> nat \<Rightarrow> u8 list" where
  "cformat [] args n = []"
| "cformat [c] args n = (if c = 0 \<or> c = chr CHR ''%'' then [] else [c])"
| "cformat (c # d # fmt) args n =
     (if c = 0 then []
      else if c \<noteq> chr CHR ''%'' then c # cformat (d # fmt) args n
      else if d = 0 then []
      else if d = chr CHR ''d'' then printint (fst (args n)) 10 True @ cformat fmt args (Suc n)
      else if d = chr CHR ''x'' \<or> d = chr CHR ''p''
        then printint (fst (args n)) 16 False @ cformat fmt args (Suc n)
      else if d = chr CHR ''s''
        then (if fst (args n) = 0 then bytes ''(null)'' else snd (args n)) @ cformat fmt args (Suc n)
      else if d = chr CHR ''%'' then chr CHR ''%'' # cformat fmt args n
      else chr CHR ''%'' # d # cformat fmt args n)"

definition va :: "carg list \<Rightarrow> nat \<Rightarrow> carg" where
  "va xs n = (if n < length xs then xs ! n else (0, []))"

definition cprintf :: "string \<Rightarrow> (nat \<Rightarrow> carg) \<Rightarrow> 'a kern_scheme \<Rightarrow> 'a kern_scheme res" where
  "cprintf fmt args s =
     (let locking = cons_locking s
      in rbind (if locking then kacquire L_cons s else Ok s)
           (\<lambda>s. rbind (consputs (cformat (bytes fmt) args 0) s)
           (\<lambda>s. if locking then krelease L_cons s else Ok s)))"

section \<open>Properties\<close>

text \<open>The console is usable: no CPU has panicked and the cursor is on the screen.\<close>

definition console_ok :: "'a kern_scheme \<Rightarrow> bool" where
  "console_ok s \<longleftrightarrow> \<not> panicked s \<and> crt_pos s < 24 * 80"

text \<open>The state outside the output devices and the locks is the same.\<close>

definition con_same :: "'a kern_scheme \<Rightarrow> 'a kern_scheme \<Rightarrow> bool" where
  "con_same s t \<longleftrightarrow>
     t = s\<lparr>lk := lk t, uart_tx := uart_tx t, crt_pos := crt_pos t, crt := crt t\<rparr>"

lemma con_same_refl [simp]: "con_same s s"
  by (simp add: con_same_def)

lemma con_same_trans [trans]: "con_same s t \<Longrightarrow> con_same t u \<Longrightarrow> con_same s u"
  by (cases s; cases t; cases u) (simp add: con_same_def)

lemma con_same_lk [simp]: "con_same s (t\<lparr>lk := k\<rparr>) = con_same s t" "con_same (s\<lparr>lk := k\<rparr>) t = con_same s t"
  by (cases s; cases t; simp add: con_same_def)+

lemma newline_pos: "(p::nat) < 24 * 80 \<Longrightarrow> p + (80 - p mod 80) \<le> 24 * 80"
proof -
  assume p: "p < 24 * 80"
  have "p div 80 < 24" using p by (simp add: div_less_iff_less_mult)
  moreover have "p = 80 * (p div 80) + p mod 80" by simp
  moreover have "p mod 80 < 80" by simp
  ultimately show ?thesis by linarith
qed

lemma cgaputc_Ok:
  assumes "crt_pos s < 24 * 80"
  shows "\<exists>t. cgaputc c s = Ok t \<and> con_same s t \<and> crt_pos t < 24 * 80 \<and> lk t = lk s \<and> uart_tx t = uart_tx s"
proof -
  obtain pos cells where pc:
    "(if c = 10 then (crt_pos s + (80 - crt_pos s mod 80), crt s)
      else if c = BACKSPACE then (if crt_pos s > 0 then crt_pos s - 1 else crt_pos s, crt s)
      else (crt_pos s + 1, (crt s)(crt_pos s := ucast (c AND 0xff) OR 0x0700))) = (pos, cells)"
    (is "?m = _") by (cases ?m) 
  have le: "pos \<le> 24 * 80"
    using pc assms newline_pos [OF assms] by (auto split: if_splits)
  show ?thesis
  proof (cases "24 \<le> pos div 80")
    case True
    with le have "pos = 24 * 80" by (simp add: less_eq_div_iff_mult_less_eq)
    then show ?thesis
      by (simp add: cgaputc_def Let_def pc con_same_def)
  next
    case False
    then have "pos < 24 * 80" by (simp add: less_eq_div_iff_mult_less_eq)
    with le False show ?thesis
      by (simp add: cgaputc_def Let_def pc con_same_def)
  qed
qed

lemma uartputc_same [simp]:
  "con_same s (uartputc c s)" "lk (uartputc c s) = lk s" "crt_pos (uartputc c s) = crt_pos s"
  "uart_tx (uartputc c s) = uart_tx s @ (if uart s then [c] else [])" "uart (uartputc c s) = uart s"
  by (simp_all add: uartputc_def con_same_def)

lemma con_sameD: "con_same s t \<Longrightarrow> uart t = uart s \<and> panicked t = panicked s \<and> cons_locking t = cons_locking s \<and> mem t = mem s"
  by (cases s; cases t) (simp add: con_same_def)

lemma consputc_Ok:
  assumes "console_ok s"
  shows "\<exists>t. consputc c s = Ok t \<and> con_same s t \<and> console_ok t \<and> lk t = lk s \<and>
    (c \<noteq> BACKSPACE \<longrightarrow> uart_tx t = uart_tx s @ (if uart s then [ucast c] else []))"
proof -
  let ?s = "if c = BACKSPACE then uartputc 8 (uartputc 32 (uartputc 8 s)) else uartputc (ucast c) s"
  have "con_same s (uartputc 8 (uartputc 32 (uartputc 8 s)))"
    by (rule con_same_trans [OF con_same_trans]; rule uartputc_same)
  then have s: "con_same s ?s" by simp
  have "crt_pos ?s < 24 * 80" using assms by (simp add: console_ok_def)
  from cgaputc_Ok [OF this] obtain t where
    t: "cgaputc c ?s = Ok t" "con_same ?s t" "crt_pos t < 24 * 80" "lk t = lk ?s" "uart_tx t = uart_tx ?s"
    by blast
  have "con_same s t" using s t(2) by (rule con_same_trans)
  with t assms show ?thesis
    by (auto simp: consputc_def console_ok_def dest: con_sameD)
qed

lemma ucast_not_BACKSPACE: "ucast (c :: u8) \<noteq> BACKSPACE"
proof
  assume "ucast c = BACKSPACE"
  then have "unat (ucast c :: u32) = 256" by (simp add: BACKSPACE_def)
  with unat_u8 [of c] show False by simp
qed

lemma consputs_Ok:
  assumes "console_ok s"
  shows "\<exists>t. consputs cs s = Ok t \<and> con_same s t \<and> console_ok t \<and> lk t = lk s \<and>
    uart_tx t = uart_tx s @ (if uart s then cs else [])"
  using assms
proof (induction cs arbitrary: s)
  case Nil
  then show ?case by simp
next
  case (Cons c cs)
  from consputc_Ok [OF Cons.prems, of "ucast c"] obtain t where
    t: "consputc (ucast c) s = Ok t" "con_same s t" "console_ok t" "lk t = lk s"
      "uart_tx t = uart_tx s @ (if uart s then [c] else [])"
    by (auto simp: ucast_not_BACKSPACE)
  from Cons.IH [OF t(3)] obtain u where
    u: "consputs cs t = Ok u" "con_same t u" "console_ok u" "lk u = lk t"
      "uart_tx u = uart_tx t @ (if uart t then cs else [])"
    by blast
  from con_same_trans [OF t(2) u(2)] u(3-5) t con_sameD [OF t(2)] show ?case
    by (auto simp: u(1))
qed

text \<open>
  \<open>cprintf\<close> returns, leaves every lock as it found it, and what reaches the serial
  port is exactly the formatted text.
\<close>

lemma cprintf_Ok:
  assumes "console_ok s" "cli_ok (lk s)" "cons_locking s \<longrightarrow> lock_free L_cons (lk s)"
  shows "\<exists>t. cprintf fmt args s = Ok t \<and> con_same s t \<and> console_ok t \<and>
    lk t = (if cons_locking s then settled (lk s) else lk s) \<and>
    uart_tx t = uart_tx s @ (if uart s then cformat (bytes fmt) args 0 else [])"
proof (cases "cons_locking s")
  case True
  let ?s = "s\<lparr>lk := acquired L_cons (lk s)\<rparr>"
  have "console_ok ?s" using assms(1) by (simp add: console_ok_def)
  from consputs_Ok [OF this, of "cformat (bytes fmt) args 0"] obtain t where
    t: "consputs (cformat (bytes fmt) args 0) ?s = Ok t" "con_same s t" "console_ok t"
      "lk t = acquired L_cons (lk s)"
      "uart_tx t = uart_tx s @ (if uart s then cformat (bytes fmt) args 0 else [])"
    by auto
  with True assms(2,3) show ?thesis
    by (auto simp: cprintf_def Let_def lock_simps console_ok_def)
next
  case False
  with consputs_Ok [OF assms(1), of "cformat (bytes fmt) args 0"] show ?thesis
    by (auto simp: cprintf_def)
qed

lemma length_printdigits:
  "x < base ^ n \<Longrightarrow> 0 < n \<Longrightarrow> length (printdigits x base) \<le> n"
proof (induction x base arbitrary: n rule: printdigits.induct)
  case (1 x base)
  show ?case
  proof (cases "base \<le> 1 \<or> x div base = 0")
    case True
    with "1.prems" show ?thesis by (subst printdigits.simps) simp
  next
    case False
    obtain m where n: "n = Suc m" using "1.prems"(2) by (cases n) auto
    have lt: "x div base < base ^ m"
      using "1.prems"(1) False by (simp add: n div_less_iff_less_mult mult.commute)
    moreover from lt False have "0 < m" by (cases m) auto
    ultimately show ?thesis
      using "1.IH" [OF False] False by (subst printdigits.simps) (simp add: n)
  qed
qed

lemma length_printint:
  assumes base: "base \<in> {10, 16}"
  shows "length (printint xx base sign) \<le> 11"
proof -
  have "length (printdigits (unat x) base) \<le> 10" for x :: u32
  proof (rule length_printdigits)
    have "unat x < 4294967296" by (rule unat_u32)
    also have "4294967296 \<le> base ^ 10" using base by auto
    finally show "unat x < base ^ 10" .
  qed simp
  from this [of xx] this [of "- xx"] show ?thesis
    by (simp add: printint_def Let_def)
qed

end
