(* ===== verification/Strings.thy ===== *)
theory Strings
  imports Console
begin

text \<open>
  Byte-addressed memory with little-endian words, and string.c: \<open>memset\<close> and
  \<open>memmove\<close> on memory, \<open>memcmp\<close> and the C string functions on lists of bytes. A list
  stands for the bytes from a pointer on; reading past its end gives the NUL that ends a
  C string.
\<close>

section \<open>Memory\<close>

type_synonym memory = "u32 \<Rightarrow> u8"

definition load32 :: "memory \<Rightarrow> u32 \<Rightarrow> u32" where
  "load32 m a = ucast (m a) OR push_bit 8 (ucast (m (a + 1))) OR
     push_bit 16 (ucast (m (a + 2))) OR push_bit 24 (ucast (m (a + 3)))"

definition store32 :: "memory \<Rightarrow> u32 \<Rightarrow> u32 \<Rightarrow> memory" where
  "store32 m a v = m(a := ucast v, a + 1 := ucast (drop_bit 8 v),
     a + 2 := ucast (drop_bit 16 v), a + 3 := ucast (drop_bit 24 v))"

definition store16 :: "memory \<Rightarrow> u32 \<Rightarrow> u16 \<Rightarrow> memory" where
  "store16 m a v = m(a := ucast v, a + 1 := ucast (drop_bit 8 v))"

definition load16 :: "memory \<Rightarrow> u32 \<Rightarrow> u16" where
  "load16 m a = ucast (m a) OR push_bit 8 (ucast (m (a + 1)))"

definition aligned4 :: "u32 \<Rightarrow> bool" where
  "aligned4 a \<longleftrightarrow> unat a mod 4 = 0"

text \<open>\<open>a\<close> is one of the \<open>n\<close> addresses from \<open>base\<close> on (addresses wrap around).\<close>

definition in_range :: "u32 \<Rightarrow> nat \<Rightarrow> u32 \<Rightarrow> bool" where
  "in_range base n a \<longleftrightarrow> unat (a - base) < n"

section \<open>string.c: blocks of memory\<close>

fun stosb :: "memory \<Rightarrow> u32 \<Rightarrow> u8 \<Rightarrow> nat \<Rightarrow> memory" where
  "stosb m a c 0 = m"
| "stosb m a c (Suc n) = stosb (m(a := c)) (a + 1) c n"

fun stosl :: "memory \<Rightarrow> u32 \<Rightarrow> u32 \<Rightarrow> nat \<Rightarrow> memory" where
  "stosl m a w 0 = m"
| "stosl m a w (Suc n) = stosl (store32 m a w) (a + 4) w n"

definition memset :: "memory \<Rightarrow> u32 \<Rightarrow> u32 \<Rightarrow> nat \<Rightarrow> memory" where
  "memset m dst c n =
     (if unat dst mod 4 = 0 \<and> n mod 4 = 0
      then let c = c AND 0xFF
           in stosl m dst (push_bit 24 c OR push_bit 16 c OR push_bit 8 c OR c) (n div 4)
      else stosb m dst (ucast c) n)"

fun copy_fwd :: "memory \<Rightarrow> u32 \<Rightarrow> u32 \<Rightarrow> nat \<Rightarrow> memory" where
  "copy_fwd m s d 0 = m"
| "copy_fwd m s d (Suc n) = copy_fwd (m(d := m s)) (s + 1) (d + 1) n"

fun copy_bwd :: "memory \<Rightarrow> u32 \<Rightarrow> u32 \<Rightarrow> nat \<Rightarrow> memory" where
  "copy_bwd m s d 0 = m"
| "copy_bwd m s d (Suc n) = copy_bwd (m(d - 1 := m (s - 1))) (s - 1) (d - 1) n"

definition memmove :: "memory \<Rightarrow> u32 \<Rightarrow> u32 \<Rightarrow> u32 \<Rightarrow> memory" where
  "memmove m dst src n =
     (if src < dst \<and> src + n > dst then copy_bwd m (src + n) (dst + n) (unat n)
      else copy_fwd m src dst (unat n))"

section \<open>string.c: strings\<close>

definition hd0 :: "u8 list \<Rightarrow> u8" where
  "hd0 xs = (case xs of [] \<Rightarrow> 0 | x # _ \<Rightarrow> x)"

text \<open>The difference of two \<open>uchar\<close>s, computed in \<open>int\<close>.\<close>

definition bdiff :: "u8 \<Rightarrow> u8 \<Rightarrow> int" where
  "bdiff a b = int (unat a) - int (unat b)"

fun memcmp :: "u8 list \<Rightarrow> u8 list \<Rightarrow> nat \<Rightarrow> int" where
  "memcmp s1 s2 0 = 0"
| "memcmp s1 s2 (Suc n) =
     (if hd0 s1 \<noteq> hd0 s2 then bdiff (hd0 s1) (hd0 s2)
      else memcmp (tl s1) (tl s2) n)"

fun strncmp :: "u8 list \<Rightarrow> u8 list \<Rightarrow> nat \<Rightarrow> int" where
  "strncmp p q 0 = 0"
| "strncmp p q (Suc n) =
     (if hd0 p \<noteq> 0 \<and> hd0 p = hd0 q then strncmp (tl p) (tl q) n
      else bdiff (hd0 p) (hd0 q))"

text \<open>The \<open>n\<close> bytes \<open>strncpy\<close> stores at its destination.\<close>

fun strncpy :: "u8 list \<Rightarrow> nat \<Rightarrow> u8 list" where
  "strncpy t 0 = []"
| "strncpy t (Suc n) = hd0 t # (if hd0 t = 0 then replicate n 0 else strncpy (tl t) n)"

text \<open>
  \<open>safestrcpy\<close> updates the array \<open>s\<close>. When the loop stops at the NUL of \<open>t\<close> it has
  already advanced \<open>s\<close>, so the final \<open>*s = 0\<close> clears one more byte.
\<close>

fun safestrcpy :: "u8 list \<Rightarrow> u8 list \<Rightarrow> nat \<Rightarrow> u8 list" where
  "safestrcpy s t 0 = s"
| "safestrcpy s t (Suc 0) = s[0 := 0]"
| "safestrcpy s t (Suc (Suc n)) =
     (if hd0 t \<noteq> 0 then (case s of [] \<Rightarrow> [] | _ # s' \<Rightarrow> hd0 t # safestrcpy s' (tl t) (Suc n))
      else s[0 := 0, 1 := 0])"

fun strlen :: "u8 list \<Rightarrow> nat" where
  "strlen [] = 0"
| "strlen (c # s) = (if c = 0 then 0 else Suc (strlen s))"

section \<open>Words in memory\<close>

lemma load32_store32_same [simp]: "load32 (store32 m a v) a = v"
proof -
  have d: "a + 1 \<noteq> a" "a + 2 \<noteq> a" "a + 3 \<noteq> a" "a + 2 \<noteq> a + 1" "a + 3 \<noteq> a + 1" "a + 3 \<noteq> a + 2"
    by simp_all
  show ?thesis
  proof (rule bit_word_eqI)
    fix n
    assume "n < LENGTH(32)"
    then consider "n < 8" | "8 \<le> n" "n < 16" | "16 \<le> n" "n < 24" | "24 \<le> n" "n < 32"
      by fastforce
    then show "bit (load32 (store32 m a v) a) n = bit v n"
      by cases (auto simp: load32_def store32_def d d [symmetric] bit_simps)
  qed
qed

lemma aligned4_plus: "aligned4 a \<Longrightarrow> i < 4 \<Longrightarrow> unat (a + of_nat i) = unat a + i"
proof -
  assume a: "aligned4 a" and i: "i < 4"
  have "unat a < 4294967296" by (rule unat_u32)
  with a have "unat a + 4 \<le> 4294967296" unfolding aligned4_def by presburger
  with i show ?thesis by (subst unat_add_u32) simp_all
qed

lemma aligned4_disjoint:
  assumes "aligned4 a" "aligned4 b" "a \<noteq> b" "i < 4" "j < 4"
  shows "a + of_nat i \<noteq> b + of_nat j"
proof
  assume "a + of_nat i = b + of_nat j"
  then have "unat a + i = unat b + j"
    using aligned4_plus [OF assms(1,4)] aligned4_plus [OF assms(2,5)] by simp
  with assms(1,2,4,5) have "unat a = unat b" unfolding aligned4_def by presburger
  with assms(3) show False by (simp add: word_unat_eq_iff)
qed

lemma load32_store32_diff:
  assumes "aligned4 a" "aligned4 b" "a \<noteq> b"
  shows "load32 (store32 m a v) b = load32 m b"
proof -
  note d = aligned4_disjoint [OF assms]
  have "b \<noteq> a" "b \<noteq> a + 1" "b \<noteq> a + 2" "b \<noteq> a + 3"
    "b + 1 \<noteq> a" "b + 1 \<noteq> a + 1" "b + 1 \<noteq> a + 2" "b + 1 \<noteq> a + 3"
    "b + 2 \<noteq> a" "b + 2 \<noteq> a + 1" "b + 2 \<noteq> a + 2" "b + 2 \<noteq> a + 3"
    "b + 3 \<noteq> a" "b + 3 \<noteq> a + 1" "b + 3 \<noteq> a + 2" "b + 3 \<noteq> a + 3"
    using d [of 0 0] d [of 1 0] d [of 2 0] d [of 3 0] d [of 0 1] d [of 1 1] d [of 2 1] d [of 3 1]
      d [of 0 2] d [of 1 2] d [of 2 2] d [of 3 2] d [of 0 3] d [of 1 3] d [of 2 3] d [of 3 3]
    by auto
  then show ?thesis by (simp add: load32_def store32_def)
qed

lemma load32_cong:
  assumes "\<And>i. i < 4 \<Longrightarrow> m (b + of_nat i) = m' (b + of_nat i)"
  shows "load32 m b = load32 m' b"
  using assms [of 0] assms [of 1] assms [of 2] assms [of 3] by (simp add: load32_def)

section \<open>memset and memmove\<close>

lemma in_range_0 [simp]: "\<not> in_range a 0 b"
  by (simp add: in_range_def)

lemma in_range_Suc:
  assumes "n < 4294967296"
  shows "in_range a (Suc n) b \<longleftrightarrow> b = a \<or> in_range (a + 1) n b"
proof (cases "b = a")
  case True
  then show ?thesis by (simp add: in_range_def)
next
  case False
  then have "b - a \<noteq> 0" by simp
  then have "unat (b - a) = Suc (unat (b - a - 1))"
    by (simp add: unat_minus_one unat_gt_0)
  moreover have "b - a - 1 = b - (a + 1)" by simp
  ultimately show ?thesis using False by (simp add: in_range_def)
qed

lemma in_range_self: "0 < n \<Longrightarrow> in_range a n a"
  by (simp add: in_range_def)

lemma not_in_range_next:
  assumes "n < 4294967296"
  shows "\<not> in_range (a + 1) n a"
proof -
  have "unat (a - (a + 1)) = 4294967295" by simp
  with assms show ?thesis by (simp add: in_range_def)
qed

lemma stosb_eq: "n \<le> 4294967296 \<Longrightarrow> stosb m a c n = (\<lambda>b. if in_range a n b then c else m b)"
proof (induction n arbitrary: m a)
  case 0
  then show ?case by simp
next
  case (Suc n)
  then show ?case by (auto simp: in_range_Suc fun_eq_iff)
qed

lemma stosl_eq_stosb:
  "stosl m a (push_bit 24 (c AND 255) OR push_bit 16 (c AND 255) OR push_bit 8 (c AND 255) OR c AND 255) n
   = stosb m a (ucast c) (4 * n)" (is "stosl m a ?w n = _")
proof (induction n arbitrary: m a)
  case 0
  then show ?case by simp
next
  case (Suc n)
  have t: "c AND 255 = take_bit 8 c" by (simp add: take_bit_eq_mask mask_eq_exp_minus_1)
  have b0: "ucast ?w = (ucast c :: u8)"
    unfolding t by (rule bit_word_eqI) (auto simp: bit_simps)
  have b1: "ucast (drop_bit 8 ?w) = (ucast c :: u8)"
    unfolding t by (rule bit_word_eqI) (auto simp: bit_simps)
  have b2: "ucast (drop_bit 16 ?w) = (ucast c :: u8)"
    unfolding t by (rule bit_word_eqI) (auto simp: bit_simps)
  have b3: "ucast (drop_bit 24 ?w) = (ucast c :: u8)"
    unfolding t by (rule bit_word_eqI) (auto simp: bit_simps)
  have "store32 m a ?w = m(a := ucast c, a + 1 := ucast c, a + 2 := ucast c, a + 3 := ucast c)"
    by (simp only: store32_def b0 b1 b2 b3)
  moreover have "stosb m a (ucast c) (4 * Suc n) =
      stosb (m(a := ucast c, a + 1 := ucast c, a + 2 := ucast c, a + 3 := ucast c)) (a + 4) (ucast c) (4 * n)"
  proof -
    have n: "4 * Suc n = Suc (Suc (Suc (Suc (4 * n))))" by simp
    have e: "a + 1 + 1 = a + 2" "a + 2 + 1 = a + 3" "a + 3 + 1 = a + 4" by simp_all
    show ?thesis unfolding n by (simp only: stosb.simps e)
  qed
  ultimately show ?case by (simp only: stosl.simps Suc.IH)
qed

text \<open>\<open>memset\<close> by words (the aligned case) and by bytes have the same effect.\<close>

lemma memset_eq:
  assumes "n \<le> 4294967296"
  shows "memset m dst c n = (\<lambda>a. if in_range dst n a then ucast c else m a)"
proof -
  have "4 * (n div 4) = n" if "n mod 4 = 0" using that by presburger
  then show ?thesis
    unfolding memset_def Let_def stosl_eq_stosb using assms by (simp add: stosb_eq)
qed

lemma copy_fwd_eq:
  assumes "n < 4294967296" "unat (d - s) = 0 \<or> n \<le> unat (d - s)"
  shows "copy_fwd m s d n = (\<lambda>a. if in_range d n a then m (s + (a - d)) else m a)"
  using assms
proof (induction n arbitrary: m s d)
  case 0
  then show ?case by simp
next
  case (Suc n)
  have d: "(d + 1) - (s + 1) = d - s" by simp
  have IH: "copy_fwd (m(d := m s)) (s + 1) (d + 1) n =
      (\<lambda>a. if in_range (d + 1) n a then (m(d := m s)) (s + 1 + (a - (d + 1))) else (m(d := m s)) a)"
    by (rule Suc.IH) (use Suc.prems in \<open>simp_all only: d\<close>, auto)
  have nd: "s + (a - d) \<noteq> d \<or> s = d" if "in_range (d + 1) n a" for a
  proof (rule ccontr)
    assume "\<not> (s + (a - d) \<noteq> d \<or> s = d)"
    then have e: "a - d = d - s" "s \<noteq> d" by (auto simp: algebra_simps)
    have "in_range d (Suc n) a" using that Suc.prems(1) by (simp add: in_range_Suc)
    then have "unat (d - s) < Suc n" by (simp add: in_range_def e(1) [symmetric])
    with Suc.prems(2) e(2) show False by (auto simp: unat_eq_zero)
  qed
  have keep: "(m(d := m s)) (s + 1 + (a - (d + 1))) = m (s + (a - d))" if "in_range (d + 1) n a" for a
  proof -
    have "s + 1 + (a - (d + 1)) = s + (a - d)" by simp
    with nd [OF that] show ?thesis by (metis fun_upd_apply fun_upd_triv)
  qed
  show ?case
  proof (rule ext)
    fix a
    show "copy_fwd m s d (Suc n) a = (if in_range d (Suc n) a then m (s + (a - d)) else m a)"
      using not_in_range_next [of n d] Suc.prems(1) keep [of a]
      by (cases "in_range (d + 1) n a") (simp_all add: IH in_range_Suc del: fun_upd_apply, auto)
  qed
qed

lemma copy_bwd_eq:
  assumes "n < 4294967296" "unat (s - d) = 0 \<or> n \<le> unat (s - d)"
  shows "copy_bwd m s d n = (\<lambda>a. if in_range (d - of_nat n) n a then m (s + (a - d)) else m a)"
  using assms
proof (induction n arbitrary: m s d)
  case 0
  then show ?case by simp
next
  case (Suc n)
  have d: "(s - 1) - (d - 1) = s - d" by simp
  let ?b = "d - of_nat (Suc n)"
  have b: "(d - 1) - of_nat n = ?b" by simp
  have IH: "copy_bwd (m(d - 1 := m (s - 1))) (s - 1) (d - 1) n =
      (\<lambda>a. if in_range ?b n a then (m(d - 1 := m (s - 1))) (s - 1 + (a - (d - 1)))
           else (m(d - 1 := m (s - 1))) a)"
    unfolding b [symmetric] by (rule Suc.IH) (use Suc.prems in \<open>simp_all only: d\<close>, auto)
  have last: "unat ((d - 1) - ?b) = n" using Suc.prems(1) by (simp add: algebra_simps)
  have split: "in_range ?b (Suc n) a \<longleftrightarrow> a = d - 1 \<or> in_range ?b n a" for a
  proof -
    have "unat (a - ?b) = n \<longleftrightarrow> a = d - 1"
    proof
      assume "unat (a - ?b) = n"
      then have "a - ?b = (d - 1) - ?b" using last by (simp only: word_unat_eq_iff)
      then show "a = d - 1" by (metis diff_add_cancel)
    qed (use last in blast)
    then show ?thesis by (auto simp: in_range_def less_Suc_eq)
  qed
  have nd: "s + (a - d) \<noteq> d - 1 \<or> s = d" if "in_range ?b n a" for a
  proof (rule ccontr)
    assume "\<not> (s + (a - d) \<noteq> d - 1 \<or> s = d)"
    then have e: "a - d + 1 = d - s" "s \<noteq> d" by (auto simp: algebra_simps)
    have "s - d = (d - 1) - a" using e(1) by (simp add: algebra_simps)
    also have "\<dots> = ((d - 1) - ?b) - (a - ?b)" by simp
    finally have eq: "s - d = ((d - 1) - ?b) - (a - ?b)" .
    have "unat (a - ?b) \<le> unat ((d - 1) - ?b)" using that last by (simp add: in_range_def)
    then have "unat (s - d) = n - unat (a - ?b)"
      using unat_sub_u32 [of "a - ?b" "(d - 1) - ?b"] last unfolding eq by simp
    with Suc.prems(2) e(2) show False by (auto simp: unat_eq_zero)
  qed
  have keep: "(m(d - 1 := m (s - 1))) (s - 1 + (a - (d - 1))) = m (s + (a - d))" if "in_range ?b n a" for a
  proof -
    have "s - 1 + (a - (d - 1)) = s + (a - d)" by simp
    with nd [OF that] show ?thesis by (metis fun_upd_apply fun_upd_triv)
  qed
  have new: "\<not> in_range ?b n (d - 1)" using last by (simp add: in_range_def)
  show ?case
  proof (rule ext)
    fix a
    show "copy_bwd m s d (Suc n) a = (if in_range ?b (Suc n) a then m (s + (a - d)) else m a)"
      using keep [of a] new
      by (cases "in_range ?b n a") (simp_all only: copy_bwd.simps IH split, auto)
  qed
qed

lemma unat_sub_wrap:
  assumes "unat a < unat b"
  shows "unat (a - b :: u32) = 4294967296 + unat a - unat b"
proof -
  have "int (unat (a - b)) = (int (unat a) - int (unat b)) mod 4294967296"
    by (simp add: uint_word_ariths)
  also have "\<dots> = (int (unat a) - int (unat b) + 4294967296) mod 4294967296" by simp
  also have "\<dots> = int (unat a) - int (unat b) + 4294967296"
    by (rule mod_pos_pos_trivial) (use assms unat_u32 [of b] in linarith)+
  finally show ?thesis using assms unat_u32 [of b] by linarith
qed

text \<open>
  C21. \<open>memmove\<close> copies correctly for every overlap of the two ranges: afterwards byte
  \<open>i\<close> of the destination is the old byte \<open>i\<close> of the source and nothing else changed.
\<close>

theorem memmove_correct:
  assumes src: "unat src + unat n < 2 ^ 32" and dst: "unat dst + unat n < 2 ^ 32"
  shows "memmove m dst src n =
    (\<lambda>a. if in_range dst (unat n) a then m (src + (a - dst)) else m a)"
proof (cases "src < dst \<and> src + n > dst")
  case True
  then have "unat (src - dst) = 4294967296 + unat src - unat dst"
    by (simp add: unat_sub_wrap word_less_nat_alt)
  with dst have "unat n \<le> unat ((src + n) - (dst + n))" by simp
  then have "copy_bwd m (src + n) (dst + n) (unat n) =
      (\<lambda>a. if in_range (dst + n - of_nat (unat n)) (unat n) a then m (src + n + (a - (dst + n))) else m a)"
    by (intro copy_bwd_eq) (auto simp: unat_u32)
  moreover have "src + n + (a - (dst + n)) = src + (a - dst)" for a by simp
  ultimately show ?thesis using True by (simp only: memmove_def if_True) simp
next
  case False
  have "unat (dst - src) = 0 \<or> unat n \<le> unat (dst - src)"
  proof (cases "src < dst")
    case True
    with False have "unat (src + n) \<le> unat dst" by (simp add: word_le_nat_alt not_less)
    with src True show ?thesis
      by (simp add: unat_add_u32 unat_sub_u32 word_less_nat_alt)
  next
    case le: False
    show ?thesis
    proof (cases "src = dst")
      case False
      with le have "unat dst < unat src" by (simp add: word_less_nat_alt word_unat_eq_iff)
      with src show ?thesis by (simp add: unat_sub_wrap)
    qed simp
  qed
  then have "copy_fwd m src dst (unat n) =
      (\<lambda>a. if in_range dst (unat n) a then m (src + (a - dst)) else m a)"
    by (intro copy_fwd_eq) (simp_all add: unat_u32)
  with False show ?thesis by (auto simp: memmove_def)
qed

theorem memmove_correct_witness:
  "memmove (\<lambda>a. ucast a) 101 100 3 103 = (102 :: u8) \<and> memmove (\<lambda>a. ucast a) 101 100 3 104 = (104 :: u8)"
  using memmove_correct [of 100 3 101 "\<lambda>a. ucast a"] by (simp add: in_range_def)

section \<open>C strings\<close>

definition cstr :: "u8 list \<Rightarrow> u8 list" where
  "cstr = takeWhile (\<lambda>c. c \<noteq> 0)"

lemma cstr_simps [simp]:
  "cstr [] = []" "cstr (c # s) = (if c = 0 then [] else c # cstr s)"
  by (simp_all add: cstr_def)

lemma cstr_zeros [simp]: "cstr (replicate n 0) = []"
  by (cases n) simp_all

lemma hd0_simps [simp]: "hd0 [] = 0" "hd0 (c # s) = c"
  by (simp_all add: hd0_def)

lemma bdiff_0_iff [simp]: "bdiff a b = 0 \<longleftrightarrow> a = b"
  by (auto simp: bdiff_def word_uint_eq_iff)

lemma strlen_eq: "strlen s = length (cstr s)"
  by (induction s) auto

lemma length_strncpy [simp]: "length (strncpy t n) = n"
  by (induction t n rule: strncpy.induct) auto

lemma cstr_strncpy: "cstr (strncpy t n) = take n (cstr t)"
proof (induction t n rule: strncpy.induct)
  case (2 t n)
  then show ?case by (cases t) auto
qed simp

lemma strncmp_0_iff: "strncmp p q n = 0 \<longleftrightarrow> take n (cstr p) = take n (cstr q)"
proof (induction p q n rule: strncmp.induct)
  case (2 p q n)
  then show ?case
    by (cases p; cases q) auto
qed simp

lemma length_safestrcpy [simp]: "length (safestrcpy s t n) = length s"
  by (induction s t n rule: safestrcpy.induct) (auto split: list.split)

lemma cstr_safestrcpy:
  "0 < n \<Longrightarrow> n \<le> length s \<Longrightarrow> cstr (safestrcpy s t n) = take (n - 1) (cstr t)"
proof (induction s t n rule: safestrcpy.induct)
  case (2 s t)
  then show ?case by (cases s) auto
next
  case (3 s t n)
  then show ?case by (cases s; cases t) (auto simp: Suc_le_eq)
qed simp

lemma memcmp_0_iff:
  "n \<le> length s1 \<Longrightarrow> n \<le> length s2 \<Longrightarrow> memcmp s1 s2 n = 0 \<longleftrightarrow> take n s1 = take n s2"
proof (induction s1 s2 n rule: memcmp.induct)
  case (2 s1 s2 n)
  then show ?case by (cases s1; cases s2) auto
qed simp

end
