(* ===== verification/Kalloc.thy ===== *)
theory Kalloc
  imports Strings
begin

text \<open>
  kalloc.c: the physical page allocator, a linked list of free pages threaded through
  the pages themselves. The list is read and written in the byte memory of the kernel
  state. The page arithmetic of mmu.h and memlayout.h is here too.
\<close>

section \<open>Page arithmetic (mmu.h, memlayout.h)\<close>

definition PGSIZE :: u32 where "PGSIZE = 4096"

definition KERNBASE :: u32 where "KERNBASE = 0x80000000"

definition PHYSTOP :: u32 where "PHYSTOP = 0xE000000"

definition V2P :: "u32 \<Rightarrow> u32" where "V2P a = a - KERNBASE"

definition P2V :: "u32 \<Rightarrow> u32" where "P2V a = a + KERNBASE"

definition PGROUNDUP :: "u32 \<Rightarrow> u32" where
  "PGROUNDUP sz = (sz + PGSIZE - 1) AND NOT (PGSIZE - 1)"

definition PGROUNDDOWN :: "u32 \<Rightarrow> u32" where
  "PGROUNDDOWN a = a AND NOT (PGSIZE - 1)"

lemma page_mask: "a AND (PGSIZE - 1) = take_bit 12 a"
  by (simp add: PGSIZE_def take_bit_eq_mask mask_eq_exp_minus_1)

lemma unat_PGROUNDDOWN: "unat (PGROUNDDOWN a) = 4096 * (unat a div 4096)"
proof -
  have "a - take_bit 12 a = a AND NOT (take_bit 12 a)"
    by (rule disjunctive_diff_eq_and_not) (rule bit_word_eqI, simp add: bit_simps)
  also have "\<dots> = PGROUNDDOWN a"
    unfolding PGROUNDDOWN_def page_mask [symmetric] by (rule bit_word_eqI) (auto simp: bit_simps)
  finally have "PGROUNDDOWN a = a - take_bit 12 a" by (rule sym)
  moreover have "unat (take_bit 12 a) = unat a mod 4096"
    by (simp add: take_bit_eq_mod unat_mod)
  ultimately show ?thesis
    by (simp add: unat_sub_u32 minus_mod_eq_mult_div)
qed

lemma unat_PGROUNDUP:
  "unat a \<le> 4294963200 \<Longrightarrow> unat (PGROUNDUP a) = 4096 * ((unat a + 4095) div 4096)"
proof -
  assume "unat a \<le> 4294963200"
  then have "unat (a + PGSIZE - 1) = unat a + 4095"
    using unat_add_u32 [of 4095 a] by (simp add: PGSIZE_def)
  with unat_PGROUNDDOWN [of "a + PGSIZE - 1"] show ?thesis
    by (simp add: PGROUNDUP_def PGROUNDDOWN_def)
qed

section \<open>The allocator\<close>

text \<open>
  \<open>freelist\<close> is the address of the first free page (0 for none), \<open>kend\<close> the linker
  symbol \<open>end\<close>, the first address after the kernel image.
\<close>

record kmem = kern +
  freelist :: u32
  use_lock :: bool
  kend :: u32

definition lock_if :: "bool \<Rightarrow> lockid \<Rightarrow> 'a kern_scheme \<Rightarrow> 'a kern_scheme res" where
  "lock_if b l s = (if b then kacquire l s else Ok s)"

definition unlock_if :: "bool \<Rightarrow> lockid \<Rightarrow> 'a kern_scheme \<Rightarrow> 'a kern_scheme res" where
  "unlock_if b l s = (if b then krelease l s else Ok s)"

definition kfree :: "u32 \<Rightarrow> 'a kmem_scheme \<Rightarrow> 'a kmem_scheme res" where
  "kfree v s =
     (if v mod PGSIZE \<noteq> 0 \<or> v < kend s \<or> V2P v \<ge> PHYSTOP then Panic ''kfree''
      else let s = s\<lparr>mem := memset (mem s) v 1 4096\<rparr>
           in rbind (lock_if (use_lock s) L_kmem s)
                (\<lambda>s. let s = s\<lparr>mem := store32 (mem s) v (freelist s), freelist := v\<rparr>
                     in unlock_if (use_lock s) L_kmem s))"

definition kalloc :: "'a kmem_scheme \<Rightarrow> (u32 \<times> 'a kmem_scheme) res" where
  "kalloc s =
     rbind (lock_if (use_lock s) L_kmem s)
       (\<lambda>s. let r = freelist s;
                s = (if r \<noteq> 0 then s\<lparr>freelist := load32 (mem s) r\<rparr> else s)
            in rbind (unlock_if (use_lock s) L_kmem s) (\<lambda>s. Ok (r, s)))"

lemma kfree_OkD:
  assumes "kfree v s = Ok s'"
  shows "v mod PGSIZE = 0" "kend s \<le> v" "V2P v < PHYSTOP"
  using assms by (auto simp: kfree_def split: if_splits)

lemma unat_below_phystop: "V2P v < PHYSTOP \<Longrightarrow> unat v < 2 ^ 31 + unat PHYSTOP"
proof -
  assume v: "V2P v < PHYSTOP"
  show ?thesis
  proof (rule ccontr)
    assume n: "\<not> ?thesis"
    then have "unat (v - 0x80000000) = unat v - 2 ^ 31" by (simp add: unat_sub_u32)
    with v n show False by (simp add: V2P_def KERNBASE_def PHYSTOP_def word_less_nat_alt)
  qed
qed

text \<open>
  The loop of \<open>freerange\<close>: it stops at \<open>vend\<close>, and \<open>kfree\<close> panics on an address
  above physical memory long before \<open>p += PGSIZE\<close> could wrap around.
\<close>

function freerange_from :: "u32 \<Rightarrow> u32 \<Rightarrow> 'a kmem_scheme \<Rightarrow> 'a kmem_scheme res" where
  "freerange_from p vend s =
     (if p + PGSIZE \<le> vend then rbind (kfree p s) (\<lambda>s. freerange_from (p + PGSIZE) vend s) else Ok s)"
  by pat_completeness auto
termination
proof (relation "measure (\<lambda>(p, vend, s). unat vend - unat p)")
  fix p vend :: u32 and s s' :: "'a kmem_scheme"
  assume le: "p + PGSIZE \<le> vend" and f: "kfree p s = Ok s'"
  have "unat p < 2 ^ 31 + unat PHYSTOP" using kfree_OkD(3) [OF f] by (rule unat_below_phystop)
  then have "unat (p + PGSIZE) = unat p + 4096"
    by (subst unat_add_u32) (simp_all add: PGSIZE_def PHYSTOP_def)
  with le show "((p + PGSIZE, vend, s'), p, vend, s) \<in> measure (\<lambda>(p, vend, s). unat vend - unat p)"
    by (simp add: word_le_nat_alt)
qed simp

declare freerange_from.simps [simp del]

definition freerange :: "u32 \<Rightarrow> u32 \<Rightarrow> 'a kmem_scheme \<Rightarrow> 'a kmem_scheme res" where
  "freerange vstart vend s = freerange_from (PGROUNDUP vstart) vend s"

definition kinit1 :: "u32 \<Rightarrow> u32 \<Rightarrow> 'a kmem_scheme \<Rightarrow> 'a kmem_scheme res" where
  "kinit1 vstart vend s =
     freerange vstart vend (s\<lparr>lk := initlock L_kmem ''kmem'' (lk s), use_lock := False\<rparr>)"

definition kinit2 :: "u32 \<Rightarrow> u32 \<Rightarrow> 'a kmem_scheme \<Rightarrow> 'a kmem_scheme res" where
  "kinit2 vstart vend s = rbind (freerange vstart vend s) (\<lambda>s. Ok (s\<lparr>use_lock := True\<rparr>))"

section \<open>The interface: a set of free pages\<close>

text \<open>
  What the clients of an allocator rely on: an allocation takes a page out of the set
  of free pages or reports that there is none, a release puts it back, and both keep the
  allocator's invariant.
\<close>

locale page_alloc =
  fixes alloc :: "'s \<Rightarrow> (u32 \<times> 's) res"
    and free :: "u32 \<Rightarrow> 's \<Rightarrow> 's res"
    and pages :: "'s \<Rightarrow> u32 set"
    and inv :: "'s \<Rightarrow> bool"
    and valid :: "'s \<Rightarrow> u32 \<Rightarrow> bool"
  assumes alloc_spec: "inv s \<Longrightarrow> \<exists>r s'. alloc s = Ok (r, s') \<and> inv s' \<and>
      (if pages s = {} then r = 0 \<and> pages s' = {} else r \<in> pages s \<and> pages s' = pages s - {r})"
    and free_spec: "inv s \<Longrightarrow> valid s p \<Longrightarrow> p \<notin> pages s \<Longrightarrow>
      \<exists>s'. free p s = Ok s' \<and> inv s' \<and> pages s' = insert p (pages s)"
    and pages_valid: "inv s \<Longrightarrow> p \<in> pages s \<Longrightarrow> p \<noteq> 0 \<and> valid s p"
    and valid_alloc: "alloc s = Ok (r, s') \<Longrightarrow> valid s' p = valid s p"
begin

lemma alloc_not_null:
  "inv s \<Longrightarrow> alloc s = Ok (r, s') \<Longrightarrow> r \<noteq> 0 \<longleftrightarrow> pages s \<noteq> {}"
  using alloc_spec [of s] pages_valid [of s] by (auto split: if_splits)

lemma alloc_page:
  assumes "inv s" "alloc s = Ok (r, s')" "r \<noteq> 0"
  shows "r \<in> pages s" "pages s' = pages s - {r}" "inv s'" "valid s' r"
proof -
  obtain r0 s0 where a: "alloc s = Ok (r0, s0)" "inv s0"
    "if pages s = {} then r0 = 0 \<and> pages s0 = {} else r0 \<in> pages s \<and> pages s0 = pages s - {r0}"
    using alloc_spec [OF assms(1)] by blast
  with assms show "r \<in> pages s" "pages s' = pages s - {r}" "inv s'"
    by (auto split: if_splits)
  with pages_valid [OF assms(1)] valid_alloc [OF assms(2)] show "valid s' r" by blast
qed

text \<open>Two live allocations never share a page.\<close>

lemma alloc_twice_distinct:
  assumes "inv s" "alloc s = Ok (r, s')" "r \<noteq> 0" "alloc s' = Ok (q, s'')" "q \<noteq> 0"
  shows "r \<noteq> q"
  using alloc_page [OF assms(1-3)] alloc_page(1) [OF _ assms(4,5)] by auto

text \<open>Allocating a page and freeing it again gives back the same free pages.\<close>

lemma alloc_free:
  assumes "inv s" "alloc s = Ok (r, s')" "r \<noteq> 0"
  shows "\<exists>s''. free r s' = Ok s'' \<and> inv s'' \<and> pages s'' = pages s"
proof -
  note p = alloc_page [OF assms]
  from free_spec [OF p(3,4)] p(1,2) show ?thesis by (auto simp: insert_absorb)
qed

end

section \<open>The free list in memory\<close>

text \<open>\<open>flist m p xs\<close>: the chain of \<open>next\<close> pointers from \<open>p\<close> runs through \<open>xs\<close>.\<close>

fun flist :: "memory \<Rightarrow> u32 \<Rightarrow> u32 list \<Rightarrow> bool" where
  "flist m p [] \<longleftrightarrow> p = 0"
| "flist m p (x # xs) \<longleftrightarrow> p = x \<and> x \<noteq> 0 \<and> flist m (load32 m x) xs"

definition page_aligned :: "u32 \<Rightarrow> bool" where
  "page_aligned a \<longleftrightarrow> a mod PGSIZE = 0"

definition page_ok :: "'a kmem_scheme \<Rightarrow> u32 \<Rightarrow> bool" where
  "page_ok s x \<longleftrightarrow> page_aligned x \<and> kend s \<le> x \<and> V2P x < PHYSTOP"

definition free_pages :: "'a kmem_scheme \<Rightarrow> u32 set" where
  "free_pages s = {p. \<exists>xs. flist (mem s) (freelist s) xs \<and> p \<in> set xs}"

definition kmem_inv :: "'a kmem_scheme \<Rightarrow> bool" where
  "kmem_inv s \<longleftrightarrow> 0 < kend s \<and> cli_ok (lk s) \<and> (use_lock s \<longrightarrow> lock_free L_kmem (lk s)) \<and>
     (\<exists>xs. flist (mem s) (freelist s) xs \<and> distinct xs \<and> (\<forall>x\<in>set xs. page_ok s x))"

lemma flist_unique: "flist m p xs \<Longrightarrow> flist m p ys \<Longrightarrow> xs = ys"
proof (induction xs arbitrary: p ys)
  case Nil
  then show ?case by (cases ys) auto
next
  case (Cons x xs)
  then show ?case by (cases ys) auto
qed

lemma flist_cong: "(\<And>x. x \<in> set xs \<Longrightarrow> load32 m x = load32 m' x) \<Longrightarrow> flist m p xs = flist m' p xs"
  by (induction xs arbitrary: p) auto

lemma free_pages_eq: "flist (mem s) (freelist s) xs \<Longrightarrow> free_pages s = set xs"
  by (auto simp: free_pages_def dest: flist_unique)

lemma page_unat: "page_aligned x \<longleftrightarrow> unat x mod 4096 = 0"
proof -
  have "unat (x mod PGSIZE) = unat x mod 4096" by (simp add: PGSIZE_def unat_mod)
  then show ?thesis unfolding page_aligned_def by (metis unat_0_iff)
qed

lemma page_range:
  assumes "page_aligned v"
  shows "in_range v 4096 a \<longleftrightarrow> unat a div 4096 = unat v div 4096"
proof -
  have v: "4096 * (unat v div 4096) = unat v" using assms by (simp add: page_unat mod_0_mult)
  show ?thesis
  proof (cases "unat v \<le> unat a")
    case True
    then have "unat (a - v) = unat a - unat v" by (rule unat_sub_u32)
    with True v show ?thesis by (auto simp: in_range_def div_eq_block)
  next
    case False
    then have "unat (a - v) = 4294967296 + unat a - unat v" by (simp add: unat_sub_wrap)
    moreover have "unat v \<le> 4294963200"
    proof -
      have "unat v div 4096 < 1048576" using unat_u32 [of v] by (simp add: div_less_iff_less_mult)
      with v show ?thesis by linarith
    qed
    ultimately show ?thesis using False v by (auto simp: in_range_def div_eq_block)
  qed
qed

lemma page_aligned4: "page_aligned v \<Longrightarrow> aligned4 v"
proof -
  assume "page_aligned v"
  then have "4096 * (unat v div 4096) = unat v" by (simp add: page_unat mod_0_mult)
  then have "unat v = 4 * (1024 * (unat v div 4096))" by simp
  then show ?thesis unfolding aligned4_def by (metis mod_mult_self1_is_0)
qed

text \<open>Addresses inside a page.\<close>

lemma page_plus:
  assumes "page_aligned v" "n < 4096"
  shows "unat (v + of_nat n) = unat v + n" "in_range v 4096 (v + of_nat n)"
proof -
  have v: "4096 * (unat v div 4096) = unat v" using assms(1) by (simp add: page_unat mod_0_mult)
  have "unat v div 4096 < 1048576" using unat_u32 [of v] by (simp add: div_less_iff_less_mult)
  with v have "unat v + n < 4294967296" using assms(2) by linarith
  then show "unat (v + of_nat n) = unat v + n" using assms(2) by (subst unat_add_u32) simp_all
  show "in_range v 4096 (v + of_nat n)" using assms(2) by (simp add: in_range_def)
qed

lemma page_plus_aligned4:
  assumes "page_aligned v" "n < 4096" "n mod 4 = 0"
  shows "aligned4 (v + of_nat n)"
  using page_aligned4 [OF assms(1)] page_plus(1) [OF assms(1,2)] assms(3)
  unfolding aligned4_def by (metis add_0_right mod_add_right_eq)

lemma page_disjoint:
  assumes "page_aligned v" "page_aligned x" "x \<noteq> v" "i < 4"
  shows "\<not> in_range v 4096 (x + of_nat i)"
proof
  assume "in_range v 4096 (x + of_nat i)"
  then have "unat (x + of_nat i) div 4096 = unat v div 4096" using assms(1) by (simp add: page_range)
  moreover have "unat (x + of_nat i) = unat x + i"
    using page_aligned4 [OF assms(2)] assms(4) by (rule aligned4_plus)
  moreover have "4096 * (unat x div 4096) = unat x" "4096 * (unat v div 4096) = unat v"
    using assms(1,2) by (simp_all add: page_unat mod_0_mult)
  moreover have "(unat x + i) div 4096 = unat x div 4096"
    using calculation(3) assms(4) div_eq_block [of 4096 "unat x + i" "unat x div 4096"] by linarith
  ultimately have "unat x = unat v" by metis
  with assms(3) show False by (simp add: word_unat_eq_iff)
qed

text \<open>Filling a page and storing a link in it leaves the links of other pages alone.\<close>

lemma load32_other_page:
  assumes "page_aligned v" "page_aligned x" "x \<noteq> v"
  shows "load32 (store32 (memset m v c 4096) v w) x = load32 m x"
proof -
  have "load32 (store32 (memset m v c 4096) v w) x = load32 (memset m v c 4096) x"
    using assms by (intro load32_store32_diff page_aligned4) auto
  also have "\<dots> = load32 m x"
    by (rule load32_cong) (simp add: memset_eq page_disjoint [OF assms])
  finally show ?thesis .
qed

lemma lock_if_simps [lock_simps]:
  "(b \<Longrightarrow> lock_free l (lk s)) \<Longrightarrow> lock_if b l s = Ok (s\<lparr>lk := (if b then acquired l (lk s) else lk s)\<rparr>)"
  by (simp add: lock_if_def lock_simps)

lemma unlock_if_simps [lock_simps]:
  "lk s = (if b then acquired l k else k) \<Longrightarrow> cli_ok k \<Longrightarrow> (b \<Longrightarrow> lock_free l k) \<Longrightarrow>
   unlock_if b l s = Ok (s\<lparr>lk := (if b then settled k else k)\<rparr>)"
  by (simp add: unlock_if_def lock_simps)

text \<open>What the two operations compute when the lock is free.\<close>

lemma kfree_eq:
  assumes "page_ok s v" "cli_ok (lk s)" "use_lock s \<Longrightarrow> lock_free L_kmem (lk s)"
  shows "kfree v s = Ok (s\<lparr>mem := store32 (memset (mem s) v 1 4096) v (freelist s), freelist := v,
    lk := (if use_lock s then settled (lk s) else lk s)\<rparr>)"
  using assms
  by (cases "use_lock s") (auto simp: kfree_def page_ok_def page_aligned_def Let_def lock_if_def unlock_if_def lock_simps)

lemma kalloc_eq:
  assumes "cli_ok (lk s)" "use_lock s \<Longrightarrow> lock_free L_kmem (lk s)"
  shows "kalloc s = Ok (freelist s,
    s\<lparr>freelist := (if freelist s \<noteq> 0 then load32 (mem s) (freelist s) else 0),
      lk := (if use_lock s then settled (lk s) else lk s)\<rparr>)"
  using assms
  by (cases "use_lock s") (auto simp: kalloc_def Let_def lock_if_def unlock_if_def lock_simps)

lemma kmem_inv_kalloc:
  assumes inv: "kmem_inv s"
  shows "\<exists>r s'. kalloc s = Ok (r, s') \<and> kmem_inv s' \<and>
    (if free_pages s = {} then r = 0 \<and> free_pages s' = {}
     else r \<in> free_pages s \<and> free_pages s' = free_pages s - {r})"
proof -
  obtain xs where xs: "flist (mem s) (freelist s) xs" "distinct xs" "\<forall>x\<in>set xs. page_ok s x"
    using inv by (auto simp: kmem_inv_def)
  note eq = kalloc_eq [of s]
  show ?thesis
  proof (cases xs)
    case Nil
    let ?s = "s\<lparr>freelist := 0, lk := (if use_lock s then settled (lk s) else lk s)\<rparr>"
    have fl: "freelist s = 0" "flist (mem ?s) (freelist ?s) []" using xs(1) Nil by auto
    have "kalloc s = Ok (0, ?s)" using eq inv fl(1) by (simp add: kmem_inv_def)
    moreover have "kmem_inv ?s"
      using inv fl(2) unfolding kmem_inv_def by (intro conjI exI [of _ "[]"]) auto
    moreover have "free_pages s = {}" "free_pages ?s = {}"
      using free_pages_eq [OF xs(1)] free_pages_eq [OF fl(2)] Nil by simp_all
    ultimately show ?thesis by auto
  next
    case (Cons x ys)
    let ?s = "s\<lparr>freelist := load32 (mem s) x, lk := (if use_lock s then settled (lk s) else lk s)\<rparr>"
    have fl: "freelist s = x" "x \<noteq> 0" "flist (mem ?s) (freelist ?s) ys" using xs(1) Cons by auto
    have "kalloc s = Ok (x, ?s)" using eq inv fl(1,2) by (simp add: kmem_inv_def)
    moreover have "kmem_inv ?s"
      using inv xs(2,3) fl(3) Cons by (auto simp: kmem_inv_def page_ok_def)
    moreover have "free_pages s = set xs" "free_pages ?s = set ys"
      using free_pages_eq xs(1) fl(3) by blast+
    ultimately show ?thesis using xs(2) Cons by auto
  qed
qed

lemma kmem_inv_kfree:
  assumes inv: "kmem_inv s" and v: "page_ok s v" "v \<notin> free_pages s"
  shows "\<exists>s'. kfree v s = Ok s' \<and> kmem_inv s' \<and> free_pages s' = insert v (free_pages s)"
proof -
  obtain xs where xs: "flist (mem s) (freelist s) xs" "distinct xs" "\<forall>x\<in>set xs. page_ok s x"
    using inv by (auto simp: kmem_inv_def)
  let ?s = "s\<lparr>mem := store32 (memset (mem s) v 1 4096) v (freelist s), freelist := v,
    lk := (if use_lock s then settled (lk s) else lk s)\<rparr>"
  have nx: "v \<notin> set xs" using v(2) xs(1) by (simp add: free_pages_eq)
  have v0: "v \<noteq> 0" using inv v(1) by (auto simp: kmem_inv_def page_ok_def)
  have "flist (mem ?s) (freelist s) xs"
    using xs(1)
  proof (subst flist_cong)
    fix x
    assume x: "x \<in> set xs"
    have "load32 (store32 (memset (mem s) v 1 4096) v (freelist s)) x = load32 (mem s) x"
      by (rule load32_other_page) (use x xs(3) v(1) nx in \<open>auto simp: page_ok_def\<close>)
    then show "load32 (mem ?s) x = load32 (mem s) x" by simp
  qed
  then have fl: "flist (mem ?s) (freelist ?s) (v # xs)" using v0 by simp
  have "kfree v s = Ok ?s"
    using inv v(1) by (simp add: kfree_eq kmem_inv_def)
  moreover have "kmem_inv ?s"
    using inv fl xs(2,3) nx v(1) unfolding kmem_inv_def
    by (intro conjI exI [of _ "v # xs"]) (auto simp: page_ok_def)
  moreover have "free_pages ?s = insert v (free_pages s)"
    using free_pages_eq [OF fl] free_pages_eq [OF xs(1)] by simp
  ultimately show ?thesis by blast
qed

text \<open>Writes to a page that is not free do not disturb the allocator.\<close>

lemma kmem_inv_write_page:
  assumes inv: "kmem_inv s" and k: "page_aligned k" "k \<notin> free_pages s"
    and m: "\<And>a. \<not> in_range k 4096 a \<Longrightarrow> m a = mem s a"
  shows "kmem_inv (s\<lparr>mem := m\<rparr>)" and "free_pages (s\<lparr>mem := m\<rparr>) = free_pages s"
proof -
  obtain xs where xs: "flist (mem s) (freelist s) xs" "distinct xs" "\<forall>x\<in>set xs. page_ok s x"
    using inv by (auto simp: kmem_inv_def)
  have "flist m (freelist s) xs = flist (mem s) (freelist s) xs"
  proof (rule flist_cong, rule load32_cong, rule m)
    fix x i
    assume "x \<in> set xs" "i < (4::nat)"
    moreover from this have "x \<noteq> k" using k(2) free_pages_eq [OF xs(1)] by auto
    ultimately show "\<not> in_range k 4096 (x + of_nat i)"
      using xs(3) by (intro page_disjoint [OF k(1)]) (auto simp: page_ok_def)
  qed
  then have fl: "flist (mem (s\<lparr>mem := m\<rparr>)) (freelist (s\<lparr>mem := m\<rparr>)) xs" using xs(1) by simp
  show "kmem_inv (s\<lparr>mem := m\<rparr>)"
    unfolding kmem_inv_def using inv xs fl
    by (intro conjI exI [of _ xs]) (auto simp: kmem_inv_def page_ok_def)
  show "free_pages (s\<lparr>mem := m\<rparr>) = free_pages s"
    using free_pages_eq [OF fl] free_pages_eq [OF xs(1)] by simp
qed

lemma kfree_kend: "kfree v s = Ok s' \<Longrightarrow> kend s' = kend s"
  by (auto simp: kfree_def lock_if_def unlock_if_def kacquire_def krelease_def rbind_Ok_iff Let_def
      split: if_splits)

lemma kalloc_kend: "kalloc s = Ok (r, s') \<Longrightarrow> kend s' = kend s"
  by (auto simp: kalloc_def lock_if_def unlock_if_def kacquire_def krelease_def rbind_Ok_iff Let_def
      split: if_splits)

interpretation kpages: page_alloc kalloc kfree free_pages kmem_inv page_ok
proof unfold_locales
  fix s :: "'a kmem_scheme" and r p :: u32 and s' :: "'a kmem_scheme"
  show "kmem_inv s \<Longrightarrow> p \<in> free_pages s \<Longrightarrow> p \<noteq> 0 \<and> page_ok s p"
    by (fastforce simp: kmem_inv_def page_ok_def free_pages_eq)
  show "kalloc s = Ok (r, s') \<Longrightarrow> page_ok s' p = page_ok s p"
    by (simp add: page_ok_def kalloc_kend)
qed (rule kmem_inv_kalloc kmem_inv_kfree; assumption)+

section \<open>Freeing a range\<close>

definition page_range_set :: "u32 \<Rightarrow> u32 \<Rightarrow> u32 set" where
  "page_range_set p vend = {q. page_aligned q \<and> p \<le> q \<and> unat q + 4096 \<le> unat vend}"

lemma page_range_set_step:
  assumes "page_aligned p" "unat p + 4096 \<le> unat vend"
  shows "page_range_set p vend = insert p (page_range_set (p + PGSIZE) vend)"
    and "p \<notin> page_range_set (p + PGSIZE) vend" and "page_aligned (p + PGSIZE)"
proof -
  have u: "unat (p + PGSIZE) = unat p + 4096"
    using assms(2) unat_u32 [of vend] by (subst unat_add_u32) (simp_all add: PGSIZE_def)
  have next_page: "unat p + 4096 \<le> unat q" if "page_aligned q" "unat p \<le> unat q" "q \<noteq> p" for q
  proof -
    have "4096 * (unat q div 4096) = unat q" "4096 * (unat p div 4096) = unat p"
      using that(1) assms(1) by (simp_all add: page_unat mod_0_mult)
    moreover have "unat p \<noteq> unat q" using that(3) by (simp add: word_unat_eq_iff)
    ultimately have "unat p div 4096 < unat q div 4096" using that(2) by linarith
    with \<open>4096 * (unat q div 4096) = unat q\<close> \<open>4096 * (unat p div 4096) = unat p\<close> show ?thesis
      by linarith
  qed
  then show "page_range_set p vend = insert p (page_range_set (p + PGSIZE) vend)"
    using assms u by (auto simp: page_range_set_def word_le_nat_alt)
  show "p \<notin> page_range_set (p + PGSIZE) vend" using u by (simp add: page_range_set_def word_le_nat_alt)
  show "page_aligned (p + PGSIZE)" using assms(1) u by (simp add: page_unat)
qed

lemma page_in_range_ok:
  assumes "q \<in> page_range_set p vend" "kend s \<le> p" "KERNBASE \<le> p" "vend \<le> P2V PHYSTOP"
  shows "page_ok s q"
proof -
  have q: "unat KERNBASE \<le> unat q" using assms(1,3) by (auto simp: page_range_set_def word_le_nat_alt)
  have "unat (V2P q) = unat q - unat KERNBASE"
    unfolding V2P_def by (rule unat_sub_u32) (rule q)
  moreover have "unat q < unat (P2V PHYSTOP)"
    using assms(1,4) by (auto simp: page_range_set_def word_le_nat_alt)
  ultimately have "V2P q < PHYSTOP"
    by (simp add: word_less_nat_alt P2V_def PHYSTOP_def KERNBASE_def)
  then show ?thesis using assms(1,2) by (auto simp: page_ok_def page_range_set_def)
qed

lemma freerange_from_ok:
  assumes "kmem_inv s" "page_aligned p" "kend s \<le> p" "KERNBASE \<le> p" "vend \<le> P2V PHYSTOP"
    "page_range_set p vend \<inter> free_pages s = {}" "unat p \<le> 4294963199"
  shows "\<exists>s'. freerange_from p vend s = Ok s' \<and> kmem_inv s' \<and>
    free_pages s' = free_pages s \<union> page_range_set p vend"
  using assms
proof (induction p vend s rule: freerange_from.induct)
  case (1 p vend s)
  have u: "unat (p + PGSIZE) = unat p + 4096"
    using "1.prems"(7) by (subst unat_add_u32) (simp_all add: PGSIZE_def)
  show ?case
  proof (cases "p + PGSIZE \<le> vend")
    case True
    then have le: "unat p + 4096 \<le> unat vend" using u by (simp add: word_le_nat_alt)
    note step = page_range_set_step [OF "1.prems"(2) le]
    have p: "page_ok s p" by (rule page_in_range_ok [OF _ "1.prems"(3,4,5)]) (simp add: step(1))
    have "p \<notin> free_pages s" using "1.prems"(6) step(1) by auto
    with kmem_inv_kfree [OF "1.prems"(1) p] obtain s1 where
      s1: "kfree p s = Ok s1" "kmem_inv s1" "free_pages s1 = insert p (free_pages s)" by blast
    have up: "unat (P2V PHYSTOP) = 2382364672" by (simp add: P2V_def PHYSTOP_def KERNBASE_def)
    have "\<exists>s'. freerange_from (p + PGSIZE) vend s1 = Ok s' \<and> kmem_inv s' \<and>
        free_pages s' = free_pages s1 \<union> page_range_set (p + PGSIZE) vend"
    proof (rule "1.IH" [OF True s1(1) s1(2) step(3) _ _ "1.prems"(5)])
      show "kend s1 \<le> p + PGSIZE" "KERNBASE \<le> p + PGSIZE"
        using "1.prems"(3,4) kfree_kend [OF s1(1)] u by (simp_all add: word_le_nat_alt)
      show "page_range_set (p + PGSIZE) vend \<inter> free_pages s1 = {}"
        using "1.prems"(6) step(1,2) s1(3) by auto
      show "unat (p + PGSIZE) \<le> 4294963199"
        using le u "1.prems"(5) up by (simp add: word_le_nat_alt)
    qed
    with True s1 step(1) show ?thesis by (simp add: freerange_from.simps [of p vend s])
  next
    case False
    then have "page_range_set p vend = {}"
      using u by (auto simp: page_range_set_def word_le_nat_alt)
    with False "1.prems"(1) show ?thesis by (simp add: freerange_from.simps [of p vend s])
  qed
qed

text \<open>
  C13. \<open>kinit1\<close> on the untouched memory after the kernel builds a free list that holds
  exactly the whole pages of the range, each once, and establishes the allocator
  invariant.
\<close>

theorem kinit1_free_pages:
  assumes "freelist s = 0" "0 < kend s" "cli_ok (lk s)" "kend s \<le> PGROUNDUP vstart"
    "KERNBASE \<le> PGROUNDUP vstart" "vend \<le> P2V PHYSTOP" "unat vstart \<le> 4294959104"
  shows "\<exists>s'. kinit1 vstart vend s = Ok s' \<and> kmem_inv s' \<and>
    free_pages s' = {q. page_aligned q \<and> PGROUNDUP vstart \<le> q \<and> unat q + 4096 \<le> unat vend}"
proof -
  let ?s = "s\<lparr>lk := initlock L_kmem ''kmem'' (lk s), use_lock := False\<rparr>"
  have fl: "flist (mem ?s) (freelist ?s) []" using assms(1) by simp
  have "cli_ok (initlock L_kmem ''kmem'' (lk s))"
    using assms(3) by (simp add: cli_ok_def initlock_def)
  then have "kmem_inv ?s"
    unfolding kmem_inv_def using assms(2) fl by (intro conjI exI [of _ "[]"]) auto
  moreover have "free_pages ?s = {}" using free_pages_eq [OF fl] by simp
  moreover have r: "unat (PGROUNDUP vstart) = 4096 * ((unat vstart + 4095) div 4096)"
    by (rule unat_PGROUNDUP) (use assms(7) in simp)
  then have "page_aligned (PGROUNDUP vstart)" by (simp add: page_unat)
  moreover have "unat (PGROUNDUP vstart) \<le> unat vstart + 4095" unfolding r by (rule times_div_less_eq_dividend)
  then have "unat (PGROUNDUP vstart) \<le> 4294963199" using assms(7) by simp
  ultimately show ?thesis
    using freerange_from_ok [of ?s "PGROUNDUP vstart" vend] assms
    by (simp add: kinit1_def freerange_def page_range_set_def)
qed

text \<open>A machine with all locks free and zeroed memory, for concrete runs.\<close>

definition kern0 :: kern where
  "kern0 = \<lparr>lk = lk0, mem = (\<lambda>_. 0), cons_locking = True, panicked = False, uart = True,
     uart_tx = [], crt = (\<lambda>_. 0), crt_pos = 0\<rparr>"

definition kmem0 :: kmem where
  "kmem0 = kern.extend kern0 (kmem.fields 0 False 0x80110000)"

lemma kmem0_simps [simp]:
  "lk kmem0 = lk0" "freelist kmem0 = 0" "kend kmem0 = 0x80110000"
  by (simp_all add: kmem0_def kern0_def kern.defs kmem.defs)

lemma kmem0_PGROUNDUP: "PGROUNDUP 0x80110000 = 0x80110000"
  by (simp add: PGROUNDUP_def PGSIZE_def)

theorem kinit1_free_pages_witness:
  "\<exists>s'. kinit1 0x80110000 0x80400000 kmem0 = Ok s' \<and> kmem_inv s' \<and> 0x80110000 \<in> free_pages s'"
proof -
  have "\<exists>s'. kinit1 0x80110000 0x80400000 kmem0 = Ok s' \<and> kmem_inv s' \<and>
    free_pages s' = {q. page_aligned q \<and> PGROUNDUP 0x80110000 \<le> q \<and> unat q + 4096 \<le> unat (0x80400000 :: u32)}"
    by (rule kinit1_free_pages) (simp_all add: kmem0_PGROUNDUP KERNBASE_def P2V_def PHYSTOP_def)
  moreover have "page_aligned 0x80110000" by (simp add: page_aligned_def PGSIZE_def)
  ultimately show ?thesis by (auto simp: kmem0_PGROUNDUP)
qed

end
