(* ===== verification/Proc.thy ===== *)
theory Proc
  imports Kalloc
begin

text \<open>
  proc.h and the core of proc.c: the process table, \<open>allocproc\<close>, \<open>sched\<close>, \<open>yield\<close>,
  \<open>sleep\<close>, \<open>wakeup\<close>, \<open>kill\<close>, \<open>set_tickets\<close> and \<open>procdump\<close>, and the address-space
  switch of vm.c that the schedulers use. Pointers into the table are indices.
  \<open>swtch\<close> transfers control to another kernel thread; what the rest of the machine does
  until control comes back is a parameter of the operations that switch
  (\<open>resume\<close>).
\<close>

section \<open>Data (proc.h, param.h)\<close>

definition NPROC :: nat where "NPROC = 64"

definition NOFILE :: nat where "NOFILE = 16"

definition KSTACKSIZE :: u32 where "KSTACKSIZE = 4096"

datatype procstate = UNUSED | EMBRYO | SLEEPING | RUNNABLE | RUNNING | ZOMBIE

text \<open>Sleep channels are addresses of kernel objects; distinct objects are distinct.\<close>

datatype chan =
    C_proc nat | C_ticks | C_log | C_buf nat | C_sleeplock lockid | C_nread u32 | C_nwrite u32
  | C_input_r

record proc =
  p_sz :: u32
  p_pgdir :: u32
  p_kstack :: u32
  p_state :: procstate
  p_pid :: cint
  p_parent :: "nat option"
  p_tf :: u32
  p_context :: u32
  p_chan :: "chan option"
  p_killed :: bool
  p_ofile :: "nat option list"
  p_cwd :: "nat option"
  p_name :: "u8 list"
  p_tickets :: cint
  p_count :: cint
  p_pass :: cint

text \<open>
  \<open>cur\<close> is the per-CPU variable \<open>proc\<close>; \<open>cr3\<close> and \<open>ts_esp0\<close> the page table register
  and the kernel stack pointer of the task state; \<open>forkret_addr\<close> and \<open>trapret_addr\<close>
  the addresses of the two code labels.
\<close>

record kproc = kmem +
  procs :: "proc list"
  cur :: "nat option"
  initproc :: "nat option"
  nextpid :: cint
  total_tickets :: cint
  kpgdir :: u32
  cr3 :: u32
  ts_esp0 :: u32
  forkret_addr :: u32
  trapret_addr :: u32

definition upd_proc :: "nat \<Rightarrow> (proc \<Rightarrow> proc) \<Rightarrow> 'a kproc_scheme \<Rightarrow> 'a kproc_scheme" where
  "upd_proc i f s = s\<lparr>procs := upd_ix i f (procs s)\<rparr>"

text \<open>A dereference of the null pointer \<open>proc\<close> faults in kernel mode.\<close>

definition with_cur :: "'a kproc_scheme \<Rightarrow> (nat \<Rightarrow> 'b res) \<Rightarrow> 'b res" where
  "with_cur s f = (case cur s of None \<Rightarrow> Panic ''trap'' | Some i \<Rightarrow> f i)"

section \<open>Operations\<close>

definition pinit :: "'a kproc_scheme \<Rightarrow> 'a kproc_scheme" where
  "pinit s = s\<lparr>lk := initlock L_ptable ''ptable'' (lk s)\<rparr>"

text \<open>
  \<open>allocproc\<close>: \<open>sizeof(struct trapframe)\<close> is 76 and \<open>sizeof(struct context)\<close> 20, with
  \<open>eip\<close> its last word.
\<close>

definition allocproc :: "'a kproc_scheme \<Rightarrow> (nat option \<times> 'a kproc_scheme) res" where
  "allocproc s =
     rbind (kacquire L_ptable s) (\<lambda>s.
       case first_ix (\<lambda>p. p_state p = UNUSED) (procs s) of
         None \<Rightarrow> rbind (krelease L_ptable s) (\<lambda>s. Ok (None, s))
       | Some i \<Rightarrow>
           let s = upd_proc i (\<lambda>p. p\<lparr>p_state := EMBRYO, p_pid := nextpid s\<rparr>) s;
               s = s\<lparr>nextpid := nextpid s + 1\<rparr>
           in rbind (krelease L_ptable s) (\<lambda>s.
              rbind (kalloc s) (\<lambda>(k, s).
                let s = upd_proc i (\<lambda>p. p\<lparr>p_kstack := k\<rparr>) s
                in if k = 0 then Ok (None, upd_proc i (\<lambda>p. p\<lparr>p_state := UNUSED\<rparr>) s)
                   else
                     let sp = k + KSTACKSIZE;
                         sp = sp - 76;
                         s = upd_proc i (\<lambda>p. p\<lparr>p_tf := sp\<rparr>) s;
                         sp = sp - 4;
                         s = s\<lparr>mem := store32 (mem s) sp (trapret_addr s)\<rparr>;
                         sp = sp - 20;
                         s = upd_proc i (\<lambda>p. p\<lparr>p_context := sp\<rparr>) s;
                         s = s\<lparr>mem := memset (mem s) sp 0 20\<rparr>;
                         s = s\<lparr>mem := store32 (mem s) (sp + 16) (forkret_addr s)\<rparr>
                     in Ok (Some i, upd_proc i (\<lambda>p. p\<lparr>p_tickets := 1, p_count := 0, p_pass := 1\<rparr>) s))))"

text \<open>\<open>sched\<close>: \<open>intena\<close> belongs to this kernel thread and is restored after the switch.\<close>

definition sched :: "('a kproc_scheme \<Rightarrow> 'a kproc_scheme) \<Rightarrow> 'a kproc_scheme \<Rightarrow> 'a kproc_scheme res" where
  "sched resume s =
     (if \<not> holding L_ptable (lk s) then Panic ''sched ptable.lock''
      else if ncli (mycpu (lk s)) \<noteq> 1 then Panic ''sched locks''
      else with_cur s (\<lambda>i.
        if p_state (procs s ! i) = RUNNING then Panic ''sched running''
        else if eflags_IF (mycpu (lk s)) then Panic ''sched interruptible''
        else let ie = intena (mycpu (lk s));
                 s = resume s
             in Ok (s\<lparr>lk := upd_cpu (\<lambda>c. c\<lparr>intena := ie\<rparr>) (lk s)\<rparr>)))"

definition yield :: "('a kproc_scheme \<Rightarrow> 'a kproc_scheme) \<Rightarrow> 'a kproc_scheme \<Rightarrow> 'a kproc_scheme res" where
  "yield resume s =
     rbind (kacquire L_ptable s) (\<lambda>s.
     with_cur s (\<lambda>i.
     rbind (sched resume (upd_proc i (\<lambda>p. p\<lparr>p_state := RUNNABLE\<rparr>) s)) (\<lambda>s.
     krelease L_ptable s)))"

text \<open>
  \<open>sleep\<close> up to the call of \<open>sched\<close>, and the part after it. The lock argument is None
  for a null pointer.
\<close>

definition sleep_enter :: "chan \<Rightarrow> lockid option \<Rightarrow> 'a kproc_scheme \<Rightarrow> 'a kproc_scheme res" where
  "sleep_enter ch lko s =
     (case cur s of None \<Rightarrow> Panic ''sleep''
      | Some i \<Rightarrow>
        (case lko of None \<Rightarrow> Panic ''sleep without lk''
         | Some l \<Rightarrow>
            rbind (if l \<noteq> L_ptable then rbind (kacquire L_ptable s) (krelease l) else Ok s) (\<lambda>s.
            Ok (upd_proc i (\<lambda>p. p\<lparr>p_chan := Some ch, p_state := SLEEPING\<rparr>) s))))"

definition sleep_leave :: "lockid \<Rightarrow> 'a kproc_scheme \<Rightarrow> 'a kproc_scheme res" where
  "sleep_leave l s =
     with_cur s (\<lambda>i.
     let s = upd_proc i (\<lambda>p. p\<lparr>p_chan := None\<rparr>) s
     in if l \<noteq> L_ptable then rbind (krelease L_ptable s) (kacquire l) else Ok s)"

definition sleep ::
  "('a kproc_scheme \<Rightarrow> 'a kproc_scheme) \<Rightarrow> chan \<Rightarrow> lockid option \<Rightarrow> 'a kproc_scheme \<Rightarrow> 'a kproc_scheme res" where
  "sleep resume ch lko s =
     rbind (sleep_enter ch lko s) (\<lambda>s.
     rbind (sched resume s) (\<lambda>s.
     sleep_leave (the lko) s))"

definition wakeup1 :: "chan option \<Rightarrow> 'a kproc_scheme \<Rightarrow> 'a kproc_scheme" where
  "wakeup1 ch s =
     s\<lparr>procs := map (\<lambda>p. if p_state p = SLEEPING \<and> p_chan p = ch then p\<lparr>p_state := RUNNABLE\<rparr> else p)
       (procs s)\<rparr>"

definition wakeup :: "chan \<Rightarrow> 'a kproc_scheme \<Rightarrow> 'a kproc_scheme res" where
  "wakeup ch s =
     rbind (kacquire L_ptable s) (\<lambda>s. krelease L_ptable (wakeup1 (Some ch) s))"

definition kill :: "cint \<Rightarrow> 'a kproc_scheme \<Rightarrow> (cint \<times> 'a kproc_scheme) res" where
  "kill pid s =
     rbind (kacquire L_ptable s) (\<lambda>s.
       case first_ix (\<lambda>p. p_pid p = pid) (procs s) of
         Some i \<Rightarrow>
           let s = upd_proc i (\<lambda>p. p\<lparr>p_killed := True\<rparr>) s;
               s = (if p_state (procs s ! i) = SLEEPING
                    then upd_proc i (\<lambda>p. p\<lparr>p_state := RUNNABLE\<rparr>) s else s)
           in rbind (krelease L_ptable s) (\<lambda>s. Ok (0, s))
       | None \<Rightarrow> rbind (krelease L_ptable s) (\<lambda>s. Ok (-1, s)))"

definition set_tickets :: "cint \<Rightarrow> 'a kproc_scheme \<Rightarrow> (cint \<times> 'a kproc_scheme) res" where
  "set_tickets tickets s =
     (let s = s\<lparr>total_tickets := total_tickets s + tickets\<rparr>
      in with_cur s (\<lambda>i.
         let s = upd_proc i (\<lambda>p. p\<lparr>p_tickets := tickets\<rparr>) s
         in rbind (cdiv 10000 (p_tickets (procs s ! i))) (\<lambda>q.
            let s = upd_proc i (\<lambda>p. p\<lparr>p_pass := q\<rparr>) s;
                p = procs s ! i
            in rbind (cprintf ''ticket value for %s set to :%d\<newline>''
                        (va [(1, cstr (p_name p)), (p_tickets p, [])]) s) (\<lambda>s.
               rbind (cdiv 10000 (p_tickets (procs s ! i))) (\<lambda>q.
               rbind (cprintf ''Stride value for %s is : %d\<newline>''
                        (va [(1, cstr (p_name p)), (q, [])]) s) (\<lambda>s.
               Ok (0, s)))))))"

section \<open>Address spaces (vm.c)\<close>

definition switchkvm :: "'a kproc_scheme \<Rightarrow> 'a kproc_scheme" where
  "switchkvm s = s\<lparr>cr3 := V2P (kpgdir s)\<rparr>"

definition switchuvm :: "nat \<Rightarrow> 'a kproc_scheme \<Rightarrow> 'a kproc_scheme res" where
  "switchuvm i s =
     (let p = procs s ! i
      in if p_kstack p = 0 then Panic ''switchuvm: no kstack''
         else if p_pgdir p = 0 then Panic ''switchuvm: no pgdir''
         else let s = s\<lparr>lk := pushcli (lk s)\<rparr>;
                  s = s\<lparr>ts_esp0 := p_kstack p + KSTACKSIZE\<rparr>;
                  s = s\<lparr>cr3 := V2P (p_pgdir p)\<rparr>
              in rbind (popcli (lk s)) (\<lambda>k. Ok (s\<lparr>lk := k\<rparr>)))"

section \<open>procdump\<close>

definition state_name :: "procstate \<Rightarrow> string" where
  "state_name st = (case st of UNUSED \<Rightarrow> ''unused'' | EMBRYO \<Rightarrow> ''embryo'' | SLEEPING \<Rightarrow> ''sleep ''
     | RUNNABLE \<Rightarrow> ''runble'' | RUNNING \<Rightarrow> ''run   '' | ZOMBIE \<Rightarrow> ''zombie'')"

fun dump_pcs :: "u32 list \<Rightarrow> 'a kern_scheme \<Rightarrow> 'a kern_scheme res" where
  "dump_pcs [] s = Ok s"
| "dump_pcs (pc # pcs) s =
     (if pc = 0 then Ok s else rbind (cprintf '' %p'' (va [(pc, [])]) s) (dump_pcs pcs))"

text \<open>The saved \<open>ebp\<close> is word 3 of the context; the kernel reads its stacks through \<open>mem\<close>.\<close>

fun dump_procs :: "proc list \<Rightarrow> 'a kern_scheme \<Rightarrow> 'a kern_scheme res" where
  "dump_procs [] s = Ok s"
| "dump_procs (p # ps) s =
     (if p_state p = UNUSED then dump_procs ps s
      else rbind (cprintf ''%d %s %s'' (va [(p_pid p, []), (1, bytes (state_name (p_state p))),
                    (1, cstr (p_name p))]) s) (\<lambda>s.
           rbind (if p_state p = SLEEPING
                  then dump_pcs (getcallerpcs (load32 (mem s)) (load32 (mem s) (p_context p + 12) + 8)) s
                  else Ok s) (\<lambda>s.
           rbind (cprintf ''\<newline>'' (va []) s) (dump_procs ps))))"

definition procdump :: "'a kproc_scheme \<Rightarrow> 'a kproc_scheme res" where
  "procdump s = dump_procs (procs s) s"

section \<open>Lemmas\<close>

lemma upd_proc_simps [simp]:
  "procs (upd_proc i f s) = upd_ix i f (procs s)" "lk (upd_proc i f s) = lk s"
  "cur (upd_proc i f s) = cur s" "mem (upd_proc i f s) = mem s"
  "nextpid (upd_proc i f s) = nextpid s" "freelist (upd_proc i f s) = freelist s"
  "use_lock (upd_proc i f s) = use_lock s" "kend (upd_proc i f s) = kend s"
  "total_tickets (upd_proc i f s) = total_tickets s" "kpgdir (upd_proc i f s) = kpgdir s"
  "trapret_addr (upd_proc i f s) = trapret_addr s" "forkret_addr (upd_proc i f s) = forkret_addr s"
  "cr3 (upd_proc i f s) = cr3 s" "ts_esp0 (upd_proc i f s) = ts_esp0 s"
  "initproc (upd_proc i f s) = initproc s"
  by (simp_all add: upd_proc_def)

lemma upd_proc_lk: "upd_proc i f (s\<lparr>lk := k\<rparr>) = (upd_proc i f s)\<lparr>lk := k\<rparr>"
  by (simp add: upd_proc_def)

lemma upd_proc_upd_proc [simp]: "upd_proc i f (upd_proc i g s) = upd_proc i (f \<circ> g) s"
  by (simp add: upd_proc_def)

lemma kmem_inv_upd_proc [simp]:
  "kmem_inv (upd_proc i f s) = kmem_inv s" "free_pages (upd_proc i f s) = free_pages s"
  by (simp_all add: kmem_inv_def free_pages_def page_ok_def)

lemma wakeup1_simps [simp]:
  "lk (wakeup1 ch s) = lk s" "cur (wakeup1 ch s) = cur s" "mem (wakeup1 ch s) = mem s"
  "length (procs (wakeup1 ch s)) = length (procs s)" "nextpid (wakeup1 ch s) = nextpid s"
  by (simp_all add: wakeup1_def)

lemma procs_wakeup1:
  "i < length (procs s) \<Longrightarrow> procs (wakeup1 ch s) ! i =
    (if p_state (procs s ! i) = SLEEPING \<and> p_chan (procs s ! i) = ch
     then (procs s ! i)\<lparr>p_state := RUNNABLE\<rparr> else procs s ! i)"
  by (simp add: wakeup1_def)

text \<open>The operations on the table when \<open>ptable.lock\<close> is free.\<close>

lemma wakeup_eq:
  "lock_free L_ptable (lk s) \<Longrightarrow> cli_ok (lk s) \<Longrightarrow>
   wakeup ch s = Ok ((wakeup1 (Some ch) s)\<lparr>lk := settled (lk s)\<rparr>)"
  by (simp add: wakeup_def lock_simps wakeup1_def)

lemma kill_eq:
  assumes "lock_free L_ptable (lk s)" "cli_ok (lk s)"
  shows "kill pid s = Ok (case first_ix (\<lambda>p. p_pid p = pid) (procs s) of
      None \<Rightarrow> (-1, s\<lparr>lk := settled (lk s)\<rparr>)
    | Some i \<Rightarrow> (0, (upd_proc i (\<lambda>p. p\<lparr>p_killed := True,
        p_state := (if p_state p = SLEEPING then RUNNABLE else p_state p)\<rparr>) s)\<lparr>lk := settled (lk s)\<rparr>))"
proof (cases "first_ix (\<lambda>p. p_pid p = pid) (procs s)")
  case None
  with assms show ?thesis by (simp add: kill_def lock_simps)
next
  case (Some i)
  then have i: "i < length (procs s)" by (auto dest: first_ix_SomeD)
  with Some assms show ?thesis
    by (auto simp: kill_def lock_simps Let_def upd_proc_lk upd_proc_def upd_ix_def comp_def
        split: if_splits)
qed

text \<open>
  \<open>sleep\<close> before the switch: with only the condition lock \<open>l\<close> held, it ends with
  \<open>ptable.lock\<close> held, \<open>l\<close> free and the process SLEEPING on the channel.
\<close>

lemma sleep_enter_eq:
  assumes "cur s = Some i" "lk s = acquired l k" "l \<noteq> L_ptable" "cli_ok k" "lock_free l k"
    "lock_free L_ptable k"
  shows "sleep_enter ch (Some l) s =
    Ok (upd_proc i (\<lambda>p. p\<lparr>p_chan := Some ch, p_state := SLEEPING\<rparr>) (s\<lparr>lk := acquired L_ptable k\<rparr>))"
proof -
  have n: "0 \<le> ncli (mycpu k)" using assms(4) by (simp add: cli_ok_def)
  have c: "acquired L_ptable (acquired l k) = acquired l (acquired L_ptable k)"
    using acquired_commute [OF n] assms(3) by metis
  have "lock_free L_ptable (acquired l k)" using assms(3,6) by simp
  moreover have "lock_free l (acquired L_ptable k)" using assms(3,5) by simp
  moreover have "krelease l (s\<lparr>lk := acquired l (acquired L_ptable k)\<rparr>) = Ok (s\<lparr>lk := acquired L_ptable k\<rparr>)"
    using krelease_acquired [of "s\<lparr>lk := acquired l (acquired L_ptable k)\<rparr>" l "acquired L_ptable k"]
      calculation(2) assms(4) by simp
  ultimately show ?thesis
    using assms by (simp add: sleep_enter_def lock_simps c upd_proc_lk)
qed

lemma sched_eq:
  assumes "lk s = acquired L_ptable k" "ncli (mycpu k) = 0" "cur s = Some i"
    "p_state (procs s ! i) \<noteq> RUNNING"
  shows "sched resume s = Ok ((resume s)\<lparr>lk := upd_cpu (\<lambda>c. c\<lparr>intena := intena (mycpu (lk s))\<rparr>) (lk (resume s))\<rparr>)"
  using assms by (simp add: sched_def with_cur_def Let_def)

section \<open>The process table invariant\<close>

abbreviation used :: "'a kproc_scheme \<Rightarrow> nat \<Rightarrow> bool" where
  "used s i \<equiv> p_state (procs s ! i) \<noteq> UNUSED"

text \<open>The table has 64 entries; live processes have distinct pids that were handed out.\<close>

definition ptable_inv :: "'a kproc_scheme \<Rightarrow> bool" where
  "ptable_inv s \<longleftrightarrow> length (procs s) = NPROC \<and> 0 < sint (nextpid s) \<and>
     (\<forall>i<NPROC. used s i \<longrightarrow> 0 < sint (p_pid (procs s ! i)) \<and> sint (p_pid (procs s ! i)) < sint (nextpid s)) \<and>
     (\<forall>i<NPROC. \<forall>j<NPROC. used s i \<and> used s j \<and> p_pid (procs s ! i) = p_pid (procs s ! j) \<longrightarrow> i = j)"

lemma ptable_inv_cong:
  assumes "ptable_inv s" "nextpid t = nextpid s" "length (procs t) = length (procs s)"
    "\<And>i. i < NPROC \<Longrightarrow> used t i \<Longrightarrow> used s i \<and> p_pid (procs t ! i) = p_pid (procs s ! i)"
  shows "ptable_inv t"
  using assms unfolding ptable_inv_def by metis

lemma ptable_inv_upd_proc:
  assumes "ptable_inv s" "\<And>p. p_pid (f p) = p_pid p" "p_state (f (procs s ! i)) \<noteq> UNUSED \<Longrightarrow> used s i"
  shows "ptable_inv (upd_proc i f s)"
proof (rule ptable_inv_cong [OF assms(1)])
  fix j
  assume "j < NPROC" "used (upd_proc i f s) j"
  moreover have "length (procs s) = NPROC" using assms(1) by (simp add: ptable_inv_def)
  ultimately show "used s j \<and> p_pid (procs (upd_proc i f s) ! j) = p_pid (procs s ! j)"
    using assms(2,3) by (cases "i = j") auto
qed simp_all

lemma ptable_inv_wakeup1:
  assumes "ptable_inv s"
  shows "ptable_inv (wakeup1 ch s)"
proof (rule ptable_inv_cong [OF assms])
  fix i
  assume "i < NPROC" "used (wakeup1 ch s) i"
  moreover have "length (procs s) = NPROC" using assms by (simp add: ptable_inv_def)
  ultimately show "used s i \<and> p_pid (procs (wakeup1 ch s) ! i) = p_pid (procs s ! i)"
    by (simp add: procs_wakeup1 split: if_splits)
qed simp_all

lemma ptable_inv_lk [simp]: "ptable_inv (s\<lparr>lk := k\<rparr>) = ptable_inv s"
  by (simp add: ptable_inv_def)

lemma ptable_inv_mem [simp]:
  "ptable_inv (s\<lparr>mem := m\<rparr>) = ptable_inv s" "ptable_inv (s\<lparr>freelist := f\<rparr>) = ptable_inv s"
  by (simp_all add: ptable_inv_def)

lemma sint_succ: "sint (x :: cint) < 2147483647 \<Longrightarrow> sint (x + 1) = sint x + 1"
  by (subst sint_add_cint) (use sint_cint [of x] in auto)

lemma ptable_invD:
  assumes "ptable_inv s"
  shows "length (procs s) = NPROC" "0 < sint (nextpid s)"
    "\<And>i. i < NPROC \<Longrightarrow> used s i \<Longrightarrow> 0 < sint (p_pid (procs s ! i)) \<and> sint (p_pid (procs s ! i)) < sint (nextpid s)"
    "\<And>i j. i < NPROC \<Longrightarrow> j < NPROC \<Longrightarrow> used s i \<Longrightarrow> used s j \<Longrightarrow> p_pid (procs s ! i) = p_pid (procs s ! j) \<Longrightarrow> i = j"
  using assms unfolding ptable_inv_def by blast+

lemma ptable_inv_new_pid:
  assumes inv: "ptable_inv s" and i: "i < NPROC" "\<not> used s i" and n: "sint (nextpid s) < 2147483647"
  shows "ptable_inv ((upd_proc i (\<lambda>p. p\<lparr>p_state := EMBRYO, p_pid := nextpid s\<rparr>) s)\<lparr>nextpid := nextpid s + 1\<rparr>)"
proof -
  define t where "t = (upd_proc i (\<lambda>p. p\<lparr>p_state := EMBRYO, p_pid := nextpid s\<rparr>) s)\<lparr>nextpid := nextpid s + 1\<rparr>"
  note D = ptable_invD [OF inv]
  have pid: "p_pid (procs s ! j) \<noteq> nextpid s" "sint (p_pid (procs s ! j)) < sint (nextpid s) + 1"
    if "j < NPROC" "used s j" for j
    using D(3) [OF that] by auto
  have t: "procs t ! j = (if j = i then (procs s ! i)\<lparr>p_state := EMBRYO, p_pid := nextpid s\<rparr> else procs s ! j)"
    if "j < NPROC" for j
    using that D(1) i(1) by (simp add: t_def)
  have n': "length (procs t) = NPROC" "sint (nextpid t) = sint (nextpid s) + 1"
    using D(1) by (simp_all add: t_def sint_succ [OF n])
  have "ptable_inv t"
    unfolding ptable_inv_def
  proof (intro conjI allI impI)
    fix a b
    assume "a < NPROC" "b < NPROC" "used t a \<and> used t b \<and> p_pid (procs t ! a) = p_pid (procs t ! b)"
    then show "a = b" using pid(1) [of a] pid(1) [of b] D(4) [of a b] by (auto simp: t split: if_splits)
  qed (use D(2,3) pid(2) n' in \<open>auto simp: t\<close>)
  then show ?thesis by (simp add: t_def)
qed

section \<open>allocproc\<close>

text \<open>The memory after \<open>allocproc\<close> has laid out the kernel stack \<open>k\<close>.\<close>

definition kstack_mem :: "memory \<Rightarrow> u32 \<Rightarrow> u32 \<Rightarrow> u32 \<Rightarrow> memory" where
  "kstack_mem m k tr fr = store32 (memset (store32 m (k + 4016) tr) (k + 3996) 0 20) (k + 4012) fr"

lemma store32_outside_page:
  assumes "\<not> in_range k 4096 a" "n < 4093"
  shows "store32 m (k + of_nat n) w a = m a"
proof -
  have "a \<noteq> k + of_nat i" if "i < 4096" for i using assms(1) that by (auto simp: in_range_def)
  from this [of n] this [of "n + 1"] this [of "n + 2"] this [of "n + 3"] show ?thesis
    using assms(2) by (simp add: store32_def ac_simps)
qed

lemma kstack_mem_outside:
  assumes "\<not> in_range k 4096 a"
  shows "kstack_mem m k tr fr a = m a"
proof -
  have "\<not> in_range (k + 3996) 20 a"
  proof
    assume r: "in_range (k + 3996) 20 a"
    have "a - k = (a - (k + 3996)) + 3996" by simp
    also have "unat \<dots> = unat (a - (k + 3996)) + 3996"
      by (subst unat_add_u32) (use r in \<open>simp_all add: in_range_def\<close>)
    finally show False using r assms by (simp add: in_range_def)
  qed
  then show ?thesis
    using store32_outside_page [OF assms, of 4012] store32_outside_page [OF assms, of 4016]
    by (simp add: kstack_mem_def memset_eq)
qed

lemma kstack_mem_words:
  assumes "page_aligned k"
  shows "load32 (kstack_mem m k tr fr) (k + 4012) = fr" "load32 (kstack_mem m k tr fr) (k + 4016) = tr"
proof -
  show "load32 (kstack_mem m k tr fr) (k + 4012) = fr" by (simp add: kstack_mem_def)
  have al: "aligned4 (k + 4012)" "aligned4 (k + 4016)"
    using page_plus_aligned4 [OF assms, of 4012] page_plus_aligned4 [OF assms, of 4016] by simp_all
  have "load32 (kstack_mem m k tr fr) (k + 4016) = load32 (memset (store32 m (k + 4016) tr) (k + 3996) 0 20) (k + 4016)"
    unfolding kstack_mem_def by (rule load32_store32_diff) (use al in simp_all)
  also have "\<dots> = load32 (store32 m (k + 4016) tr) (k + 4016)"
  proof (rule load32_cong)
    fix i
    assume i: "i < (4::nat)"
    have "k + 4016 + of_nat i - (k + 3996) = of_nat (20 + i)" by simp
    also have "unat (of_nat (20 + i) :: u32) = 20 + i" by (rule unat_of_nat_u32) (use i in simp)
    finally have "\<not> in_range (k + 3996) 20 (k + 4016 + of_nat i)" by (simp add: in_range_def)
    then show "memset (store32 m (k + 4016) tr) (k + 3996) 0 20 (k + 4016 + of_nat i) =
      store32 m (k + 4016) tr (k + 4016 + of_nat i)"
      by (simp add: memset_eq)
  qed
  finally show "load32 (kstack_mem m k tr fr) (k + 4016) = tr" by simp
qed

text \<open>What \<open>allocproc\<close> computes on each of its three branches.\<close>

definition new_proc :: "u32 \<Rightarrow> cint \<Rightarrow> proc \<Rightarrow> proc" where
  "new_proc k pid p = p\<lparr>p_state := EMBRYO, p_pid := pid, p_kstack := k, p_tf := k + 4020,
     p_context := k + 3996, p_tickets := 1, p_count := 0, p_pass := 1\<rparr>"

lemma allocproc_full:
  assumes "lock_free L_ptable (lk s)" "cli_ok (lk s)" "first_ix (\<lambda>p. p_state p = UNUSED) (procs s) = None"
  shows "allocproc s = Ok (None, s\<lparr>lk := settled (lk s)\<rparr>)"
  using assms by (simp add: allocproc_def lock_simps)

lemma allocproc_found:
  assumes "lock_free L_ptable (lk s)" "cli_ok (lk s)" "first_ix (\<lambda>p. p_state p = UNUSED) (procs s) = Some i"
    and t: "t = (upd_proc i (\<lambda>p. p\<lparr>p_state := EMBRYO, p_pid := nextpid s\<rparr>) s)\<lparr>nextpid := nextpid s + 1, lk := settled (lk s)\<rparr>"
    and k: "kalloc t = Ok (k, u)"
  shows "allocproc s = Ok (if k = 0
      then (None, upd_proc i (\<lambda>p. p\<lparr>p_kstack := 0, p_state := UNUSED\<rparr>) u)
      else (Some i, upd_proc i (\<lambda>p. p\<lparr>p_kstack := k, p_tf := k + 4020, p_context := k + 3996,
          p_tickets := 1, p_count := 0, p_pass := 1\<rparr>)
          (u\<lparr>mem := kstack_mem (mem u) k (trapret_addr u) (forkret_addr u)\<rparr>)))"
proof -
  have "allocproc s = rbind (kalloc t) (\<lambda>(k, s).
                let s = upd_proc i (\<lambda>p. p\<lparr>p_kstack := k\<rparr>) s
                in if k = 0 then Ok (None, upd_proc i (\<lambda>p. p\<lparr>p_state := UNUSED\<rparr>) s)
                   else
                     let sp = k + KSTACKSIZE;
                         sp = sp - 76;
                         s = upd_proc i (\<lambda>p. p\<lparr>p_tf := sp\<rparr>) s;
                         sp = sp - 4;
                         s = s\<lparr>mem := store32 (mem s) sp (trapret_addr s)\<rparr>;
                         sp = sp - 20;
                         s = upd_proc i (\<lambda>p. p\<lparr>p_context := sp\<rparr>) s;
                         s = s\<lparr>mem := memset (mem s) sp 0 20\<rparr>;
                         s = s\<lparr>mem := store32 (mem s) (sp + 16) (forkret_addr s)\<rparr>
                     in Ok (Some i, upd_proc i (\<lambda>p. p\<lparr>p_tickets := 1, p_count := 0, p_pass := 1\<rparr>) s))"
    using assms(1-3) by (simp add: allocproc_def lock_simps Let_def t upd_proc_def)
  then show ?thesis
    unfolding k by (simp add: Let_def upd_proc_def KSTACKSIZE_def kstack_mem_def comp_def ac_simps)
qed

lemma kalloc_frame:
  fixes s :: "'a kproc_scheme"
  assumes "kalloc s = Ok (k, u)"
  shows "procs u = procs s" "nextpid u = nextpid s" "trapret_addr u = trapret_addr s"
    "forkret_addr u = forkret_addr s" "cur u = cur s" "total_tickets u = total_tickets s"
  using assms
  by (auto simp: kalloc_def lock_if_def unlock_if_def kacquire_def krelease_def rbind_Ok_iff Let_def
      split: if_splits)

lemma first_ix_unused:
  assumes "ptable_inv s" "first_ix (\<lambda>p. p_state p = UNUSED) (procs s) = Some i"
  shows "i < NPROC" "\<not> used s i" "\<forall>j<i. used s j"
  using assms by (auto simp: first_ix_Some_iff ptable_inv_def)

lemma allocproc_full_correct:
  assumes "ptable_inv s" "kmem_inv s" "lock_free L_ptable (lk s)"
    "first_ix (\<lambda>p. p_state p = UNUSED) (procs s) = None"
  shows "\<exists>s'. allocproc s = Ok (None, s') \<and> ptable_inv s' \<and> kmem_inv s' \<and> (\<forall>i<NPROC. used s i) \<and>
    free_pages s' = free_pages s \<and> procs s' = procs s"
proof -
  have "allocproc s = Ok (None, s\<lparr>lk := settled (lk s)\<rparr>)"
    by (rule allocproc_full) (use assms in \<open>simp_all add: kmem_inv_def\<close>)
  moreover have "kmem_inv (s\<lparr>lk := settled (lk s)\<rparr>)" using assms(2) by (simp add: kmem_inv_def page_ok_def)
  moreover have "\<forall>i<NPROC. used s i"
    using assms(4) ptable_invD(1) [OF assms(1)] by (simp add: first_ix_None_iff)
  ultimately show ?thesis using assms(1) by (simp add: free_pages_def)
qed

lemma allocproc_found_correct:
  assumes inv: "ptable_inv s" "kmem_inv s" and lf: "lock_free L_ptable (lk s)"
    and n: "sint (nextpid s) < 2147483647"
    and fi: "first_ix (\<lambda>p. p_state p = UNUSED) (procs s) = Some i"
  shows "\<exists>r s'. allocproc s = Ok (r, s') \<and> ptable_inv s' \<and> kmem_inv s' \<and>
    (\<forall>j<NPROC. j \<noteq> i \<longrightarrow> procs s' ! j = procs s ! j) \<and>
    (if free_pages s = {} then r = None \<and> free_pages s' = {} \<and> \<not> used s' i
     else r = Some i \<and> (\<exists>k. k \<in> free_pages s \<and> free_pages s' = free_pages s - {k} \<and>
       procs s' ! i = new_proc k (nextpid s) (procs s ! i) \<and>
       load32 (mem s') (k + 4012) = forkret_addr s \<and> load32 (mem s') (k + 4016) = trapret_addr s))"
proof -
  note i = first_ix_unused [OF inv(1) fi]
  define t where "t = (upd_proc i (\<lambda>p. p\<lparr>p_state := EMBRYO, p_pid := nextpid s\<rparr>) s)\<lparr>nextpid := nextpid s + 1, lk := settled (lk s)\<rparr>"
  have co: "cli_ok (lk s)" using inv(2) by (simp add: kmem_inv_def)
  have len: "length (procs s) = NPROC" using inv(1) by (rule ptable_invD)
  have t: "ptable_inv t" "kmem_inv t" "free_pages t = free_pages s"
    using ptable_inv_new_pid [OF inv(1) i(1,2) n] inv(2)
    by (simp_all add: t_def kmem_inv_def page_ok_def free_pages_def)
  from kpages.alloc_spec [OF t(2)] obtain k u where ku: "kalloc t = Ok (k, u)" "kmem_inv u"
    "if free_pages s = {} then k = 0 \<and> free_pages u = {} else k \<in> free_pages s \<and> free_pages u = free_pages s - {k}"
    unfolding t(3) by blast
  note fr = kalloc_frame [OF ku(1)]
  note eq = allocproc_found [OF lf co fi t_def ku(1)]
  have pu: "procs u = upd_ix i (\<lambda>p. p\<lparr>p_state := EMBRYO, p_pid := nextpid s\<rparr>) (procs s)"
    using fr(1) by (simp add: t_def)
  have iu: "ptable_inv u" using t(1) fr(1,2) by (simp add: ptable_inv_def)
  have uu: "used u i" using pu i(1) len by simp
  show ?thesis
  proof (cases "free_pages s = {}")
    case True
    with ku(3) have k: "k = 0" "free_pages u = {}" by simp_all
    show ?thesis
      using k eq True pu i(1) len ku(2) ptable_inv_upd_proc [OF iu, of "\<lambda>p. p\<lparr>p_kstack := 0, p_state := UNUSED\<rparr>" i]
      by simp
  next
    case False
    with ku(3) have k: "k \<in> free_pages s" "free_pages u = free_pages s - {k}" by simp_all
    have ok: "k \<noteq> 0" "page_aligned k"
      using kpages.pages_valid [OF inv(2) k(1)] by (auto simp: page_ok_def)
    let ?f = "\<lambda>p. p\<lparr>p_kstack := k, p_tf := k + 4020, p_context := k + 3996, p_tickets := 1, p_count := 0, p_pass := 1\<rparr>"
    let ?u = "u\<lparr>mem := kstack_mem (mem u) k (trapret_addr u) (forkret_addr u)\<rparr>"
    have km: "kmem_inv ?u" "free_pages ?u = free_pages u"
      using kmem_inv_write_page [OF ku(2) ok(2), of "kstack_mem (mem u) k (trapret_addr u) (forkret_addr u)"]
        k(2) kstack_mem_outside by auto
    have "ptable_inv (upd_proc i ?f ?u)"
      by (rule ptable_inv_upd_proc) (use iu uu in simp_all)
    then show ?thesis
      using ok(1) eq False k km pu i(1) len kstack_mem_words [OF ok(2)] fr(3,4)
      by (auto simp: new_proc_def t_def intro!: exI [of _ k])
  qed
qed

section \<open>Properties\<close>

text \<open>
  A table with one live process (pid 1, slot 0, current) and one free page, for concrete
  runs.
\<close>

definition proc_unused :: proc where
  "proc_unused = \<lparr>p_sz = 0, p_pgdir = 0, p_kstack = 0, p_state = UNUSED, p_pid = 0, p_parent = None,
     p_tf = 0, p_context = 0, p_chan = None, p_killed = False, p_ofile = replicate 16 None,
     p_cwd = None, p_name = replicate 16 0, p_tickets = 0, p_count = 0, p_pass = 0\<rparr>"

definition kproc0 :: kproc where
  "kproc0 = kmem.extend (kmem0\<lparr>freelist := 0x80200000\<rparr>) (kproc.fields
     (proc_unused\<lparr>p_state := RUNNING, p_pid := 1, p_kstack := 0x80300000, p_pgdir := 0x80301000,
        p_tickets := 1, p_pass := 1\<rparr> # replicate 63 proc_unused)
     (Some 0) (Some 0) 2 0 0x80302000 0 0 0x80104000 0x80105000)"

lemma kproc0_simps [simp]:
  "lk kproc0 = lk0" "freelist kproc0 = 0x80200000" "kend kproc0 = 0x80110000" "cur kproc0 = Some 0"
  "procs kproc0 = proc_unused\<lparr>p_state := RUNNING, p_pid := 1, p_kstack := 0x80300000,
     p_pgdir := 0x80301000, p_tickets := 1, p_pass := 1\<rparr> # replicate 63 proc_unused"
  "nextpid kproc0 = 2" "use_lock kproc0 = False" "mem kproc0 = (\<lambda>_. 0)" "total_tickets kproc0 = 0"
  "panicked kproc0 = False" "crt_pos kproc0 = 0" "cons_locking kproc0 = True"
  by (simp_all add: kproc0_def kmem.defs kproc.defs kmem0_def kern0_def kern.defs)

lemma proc_unused_simps [simp]: "p_state proc_unused = UNUSED" "p_pid proc_unused = 0"
  by (simp_all add: proc_unused_def)

lemma kproc0_inv: "ptable_inv kproc0" "kmem_inv kproc0" "free_pages kproc0 = {0x80200000}"
proof -
  show "ptable_inv kproc0" by (auto simp: ptable_inv_def NPROC_def nth_Cons split: nat.splits)
  have fl: "flist (mem kproc0) (freelist kproc0) [0x80200000]" by (simp add: load32_def)
  from free_pages_eq [OF fl] show "free_pages kproc0 = {0x80200000}" by simp
  have "page_ok kproc0 0x80200000"
    by (simp add: page_ok_def page_aligned_def PGSIZE_def V2P_def KERNBASE_def PHYSTOP_def)
  then show "kmem_inv kproc0"
    unfolding kmem_inv_def using fl by (intro conjI exI [of _ "[0x80200000]"]) simp_all
qed

text \<open>
  C17. \<open>allocproc\<close> always returns. It gives the first UNUSED slot a fresh pid, one ticket,
  pass 1 and a kernel stack taken from the free pages, whose saved context starts at
  \<open>forkret\<close> and returns to \<open>trapret\<close>; it fails only when the table or memory is full, and
  no other slot changes. The table and allocator invariants are kept.
\<close>

theorem allocproc_correct:
  assumes "ptable_inv s" "kmem_inv s" "lock_free L_ptable (lk s)" "sint (nextpid s) < 2147483647"
  shows "\<exists>r s'. allocproc s = Ok (r, s') \<and> ptable_inv s' \<and> kmem_inv s' \<and>
    (case r of
       None \<Rightarrow> ((\<forall>i<NPROC. used s i) \<or> free_pages s = {}) \<and> free_pages s' = free_pages s \<and>
         (\<forall>j<NPROC. used s' j = used s j)
     | Some i \<Rightarrow> i < NPROC \<and> \<not> used s i \<and> (\<forall>j<i. used s j) \<and>
         (\<forall>j<NPROC. j \<noteq> i \<longrightarrow> procs s' ! j = procs s ! j) \<and>
         (\<exists>k. k \<in> free_pages s \<and> free_pages s' = free_pages s - {k} \<and>
            procs s' ! i = (procs s ! i)\<lparr>p_state := EMBRYO, p_pid := nextpid s, p_kstack := k,
              p_tf := k + 4020, p_context := k + 3996, p_tickets := 1, p_count := 0, p_pass := 1\<rparr> \<and>
            load32 (mem s') (k + 4012) = forkret_addr s \<and>
            load32 (mem s') (k + 4016) = trapret_addr s))"
proof (cases "first_ix (\<lambda>p. p_state p = UNUSED) (procs s)")
  case None
  from allocproc_full_correct [OF assms(1-3) None] show ?thesis by auto
next
  case (Some i)
  note i = first_ix_unused [OF assms(1) Some]
  from allocproc_found_correct [OF assms Some] obtain r s' where
    r: "allocproc s = Ok (r, s')" "ptable_inv s'" "kmem_inv s'"
      "\<forall>j<NPROC. j \<noteq> i \<longrightarrow> procs s' ! j = procs s ! j"
      "if free_pages s = {} then r = None \<and> free_pages s' = {} \<and> \<not> used s' i
       else r = Some i \<and> (\<exists>k. k \<in> free_pages s \<and> free_pages s' = free_pages s - {k} \<and>
         procs s' ! i = new_proc k (nextpid s) (procs s ! i) \<and>
         load32 (mem s') (k + 4012) = forkret_addr s \<and> load32 (mem s') (k + 4016) = trapret_addr s)"
    by blast
  show ?thesis
  proof (cases "free_pages s = {}")
    case True
    have "used s' j = used s j" if "j < NPROC" for j
      using r(4,5) i(2) True that by (cases "j = i") simp_all
    with r True show ?thesis by simp
  next
    case False
    with r i show ?thesis by (simp add: new_proc_def)
  qed
qed

theorem allocproc_correct_witness:
  "\<exists>r s'. allocproc kproc0 = Ok (r, s') \<and> r = Some 1 \<and> p_pid (procs s' ! 1) = 2"
proof -
  have u: "used kproc0 0" "\<not> used kproc0 (Suc 0)" by simp_all
  have n: "sint (nextpid kproc0) < 2147483647" "lock_free L_ptable (lk kproc0)" by simp_all
  have one: "i = Suc 0" if "\<not> used kproc0 i" "\<forall>j<i. used kproc0 j" for i
    using that u by (metis less_Suc0 linorder_neqE_nat less_antisym)
  from allocproc_correct [OF kproc0_inv(1,2) n(2,1)] obtain r s' where
    r: "allocproc kproc0 = Ok (r, s')"
    and c: "case r of
       None \<Rightarrow> ((\<forall>i<NPROC. used kproc0 i) \<or> free_pages kproc0 = {}) \<and> free_pages s' = free_pages kproc0 \<and>
         (\<forall>j<NPROC. used s' j = used kproc0 j)
     | Some i \<Rightarrow> i < NPROC \<and> \<not> used kproc0 i \<and> (\<forall>j<i. used kproc0 j) \<and>
         (\<forall>j<NPROC. j \<noteq> i \<longrightarrow> procs s' ! j = procs kproc0 ! j) \<and>
         (\<exists>k. k \<in> free_pages kproc0 \<and> free_pages s' = free_pages kproc0 - {k} \<and>
            procs s' ! i = (procs kproc0 ! i)\<lparr>p_state := EMBRYO, p_pid := nextpid kproc0, p_kstack := k,
              p_tf := k + 4020, p_context := k + 3996, p_tickets := 1, p_count := 0, p_pass := 1\<rparr> \<and>
            load32 (mem s') (k + 4012) = forkret_addr kproc0 \<and>
            load32 (mem s') (k + 4016) = trapret_addr kproc0)"
    by blast
  show ?thesis
  proof (cases r)
    case None
    then have "used kproc0 (Suc 0)" using c kproc0_inv(3) by (simp add: NPROC_def del: kproc0_simps)
    with u(2) show ?thesis by contradiction
  next
    case (Some i)
    then have "i = Suc 0" using c one by simp
    then show ?thesis using r c Some by auto
  qed
qed





text \<open>
  C39. A flaw of \<open>kill\<close>: the test compares pids without looking at the state, and slots that
  are UNUSED carry pid 0, so \<open>kill(0)\<close> succeeds and marks the next slot to be allocated;
  \<open>allocproc\<close> does not clear the mark, so the next process is born killed.
\<close>

theorem kill_zero_kills_next_process:
  assumes "ptable_inv s" "kmem_inv s" "lock_free L_ptable (lk s)" "sint (nextpid s) < 2147483647"
    "first_ix (\<lambda>p. p_state p = UNUSED) (procs s) = Some i" "p_pid (procs s ! i) = 0" "free_pages s \<noteq> {}"
  shows "\<exists>s1 s2. kill 0 s = Ok (0, s1) \<and> allocproc s1 = Ok (Some i, s2) \<and> p_killed (procs s2 ! i)"
proof -
  note i = first_ix_unused [OF assms(1,5)] and len = ptable_invD(1) [OF assms(1)]
  have co: "cli_ok (lk s)" using assms(2) by (simp add: kmem_inv_def)
  have nz: "p_pid (procs s ! j) \<noteq> 0" if "j < i" for j
    using ptable_invD(3) [OF assms(1), of j] i that by auto
  have fi: "first_ix (\<lambda>p. p_pid p = 0) (procs s) = Some i"
    using i(1) len assms(6) nz by (simp add: first_ix_Some_iff)
  let ?f = "\<lambda>p. p\<lparr>p_killed := True, p_state := (if p_state p = SLEEPING then RUNNABLE else p_state p)\<rparr>"
  define s1 where "s1 = (upd_proc i ?f s)\<lparr>lk := settled (lk s)\<rparr>"
  have k: "kill 0 s = Ok (0, s1)" using kill_eq [OF assms(3) co, of 0] fi by (simp add: s1_def)
  have inv1: "ptable_inv s1"
    using ptable_inv_upd_proc [OF assms(1), of ?f i] by (simp add: s1_def split: if_splits)
  have km: "kmem_inv s1" "free_pages s1 = free_pages s"
    using assms(2) by (simp_all add: s1_def kmem_inv_def page_ok_def free_pages_def)
  have s1: "procs s1 ! j = (if j = i then ?f (procs s ! i) else procs s ! j)" for j
    using i(1) len by (simp add: s1_def)
  have f1: "first_ix (\<lambda>p. p_state p = UNUSED) (procs s1) = Some i"
    unfolding first_ix_Some_iff using i len by (simp add: s1) (simp add: s1_def)
  have n: "lock_free L_ptable (lk s1)" "sint (nextpid s1) < 2147483647"
    using assms(3,4) by (simp_all add: s1_def)
  from allocproc_found_correct [OF inv1 km(1) n f1] assms(7) obtain s2 q where
    "allocproc s1 = Ok (Some i, s2)" "procs s2 ! i = new_proc q (nextpid s1) (procs s1 ! i)"
    unfolding km(2) by auto
  then show ?thesis using k s1 by (auto simp: new_proc_def)
qed

theorem kill_zero_kills_next_process_witness:
  "\<exists>s1 s2. kill 0 kproc0 = Ok (0, s1) \<and> allocproc s1 = Ok (Some 1, s2) \<and> p_killed (procs s2 ! 1)"
  by (rule kill_zero_kills_next_process [OF kproc0_inv(1,2)])
     (simp_all add: kproc0_inv(3) numeral_eq_Suc)

lemma con_same_kproc:
  fixes s :: "'a kproc_scheme"
  assumes "con_same s t"
  shows "procs t = procs s" "total_tickets t = total_tickets s" "cur t = cur s" "nextpid t = nextpid s"
    "mem t = mem s" "freelist t = freelist s" "cons_locking t = cons_locking s"
  using arg_cong [OF assms [unfolded con_same_def], of procs] arg_cong [OF assms [unfolded con_same_def], of total_tickets]
    arg_cong [OF assms [unfolded con_same_def], of cur] arg_cong [OF assms [unfolded con_same_def], of nextpid]
    arg_cong [OF assms [unfolded con_same_def], of mem] arg_cong [OF assms [unfolded con_same_def], of freelist]
    arg_cong [OF assms [unfolded con_same_def], of cons_locking]
  by simp_all

text \<open>
  C22. \<open>set_tickets(n)\<close> for \<open>n \<noteq> 0\<close> gives the calling process \<open>n\<close> tickets and restarts its
  pass at the stride 10000 / n, adding \<open>n\<close> to \<open>total_tickets\<close>; no other process changes. For
  \<open>n = 0\<close> the division traps in kernel mode, and the machine panics.
\<close>

theorem set_tickets_correct:
  assumes "cur s = Some i" "i < length (procs s)" "console_ok s" "cli_ok (lk s)"
    "cons_locking s \<longrightarrow> lock_free L_cons (lk s)"
  shows "if n = 0 then set_tickets n s = Panic ''trap''
    else \<exists>s'. set_tickets n s = Ok (0, s') \<and> total_tickets s' = total_tickets s + n \<and>
      procs s' = (procs s)[i := (procs s ! i)\<lparr>p_tickets := n, p_pass := word_of_int (10000 sdiv sint n)\<rparr>]"
proof (cases "n = 0")
  case True
  then show ?thesis using assms(1,2) by (simp add: set_tickets_def with_cur_def Let_def cdiv_def)
next
  case False
  define q :: cint where "q = word_of_int (10000 sdiv sint n)"
  have q: "cdiv 10000 n = Ok q" using False by (simp add: cdiv_def q_def)
  define s1 where "s1 = upd_proc i (\<lambda>p. p\<lparr>p_tickets := n, p_pass := q\<rparr>) (s\<lparr>total_tickets := total_tickets s + n\<rparr>)"
  have s1: "console_ok s1" "cli_ok (lk s1)" "cons_locking s1 \<longrightarrow> lock_free L_cons (lk s1)" "cur s1 = Some i"
    "procs s1 = (procs s)[i := (procs s ! i)\<lparr>p_tickets := n, p_pass := q\<rparr>]"
    using assms by (simp_all add: s1_def console_ok_def upd_proc_def upd_ix_def)
  let ?p = "procs s1 ! i"
  let ?a = "va [(1, cstr (p_name ?p)), (n, [])]" and ?b = "va [(1, cstr (p_name ?p)), (q, [])]"
  have n: "p_tickets ?p = n" "p_tickets (procs (upd_proc i (\<lambda>p. p\<lparr>p_tickets := n\<rparr>) s) ! i) = n"
    using s1(5) assms(2) by simp_all
  from cprintf_Ok [OF s1(1,2,3), of "''ticket value for %s set to :%d\<newline>''" ?a] obtain t where
    t: "cprintf ''ticket value for %s set to :%d\<newline>'' ?a s1 = Ok t" "con_same s1 t" "console_ok t"
      "lk t = (if cons_locking s1 then settled (lk s1) else lk s1)" by blast
  note ct = con_same_kproc [OF t(2)]
  have "cli_ok (lk t)" "cons_locking t \<longrightarrow> lock_free L_cons (lk t)"
    using t(4) s1(2,3) ct(7) by simp_all
  from cprintf_Ok [OF t(3) this, of "''Stride value for %s is : %d\<newline>''" ?b] obtain u where
    u: "cprintf ''Stride value for %s is : %d\<newline>'' ?b t = Ok u" "con_same t u" by blast
  have "set_tickets n s = rbind (cprintf ''ticket value for %s set to :%d\<newline>'' ?a s1) (\<lambda>s.
               rbind (cdiv 10000 (p_tickets (procs s ! i))) (\<lambda>q.
               rbind (cprintf ''Stride value for %s is : %d\<newline>''
                        (va [(1, cstr (p_name ?p)), (q, [])]) s) (\<lambda>s.
               Ok (0, s))))"
    using assms(1,2) n by (simp add: set_tickets_def with_cur_def Let_def q s1_def upd_proc_def comp_def)
  also have "\<dots> = Ok (0, u)" using t(1) u(1) n ct(1) by (simp add: q)
  finally show ?thesis
    using False con_same_kproc(1,2) [OF u(2)] ct(1,2) s1(5) by (simp add: q_def s1_def)
qed

theorem set_tickets_correct_witness:
  "\<exists>s'. set_tickets 50 kproc0 = Ok (0, s') \<and> p_pass (procs s' ! 0) = 200"
proof -
  have "if (50::cint) = 0 then set_tickets 50 kproc0 = Panic ''trap''
    else \<exists>s'. set_tickets 50 kproc0 = Ok (0, s') \<and> total_tickets s' = total_tickets kproc0 + 50 \<and>
      procs s' = (procs kproc0)[0 := (procs kproc0 ! 0)\<lparr>p_tickets := 50, p_pass := word_of_int (10000 sdiv sint (50::cint))\<rparr>]"
    by (rule set_tickets_correct) (simp_all add: console_ok_def)
  moreover have "sint (50::cint) = 50" by (simp add: sint_sbintrunc')
  ultimately show ?thesis by (auto simp: signed_divide_int_def)
qed

end
