(* ===== verification/Scheduler.thy ===== *)
theory Scheduler
  imports Proc
begin

text \<open>
  The schedulers of proc.c: \<open>scheduler\<close> (stride scheduling, the one main.c runs),
  \<open>scheduler_b\<close> (another stride loop), \<open>scheduler1\<close> (lottery) and \<open>scheduler2\<close> (the
  original round robin). Each definition is one turn of the endless loop \<open>for(;;)\<close>.
  \<open>run i s\<close> is the state of the machine when process \<open>i\<close>, resumed by \<open>swtch\<close> in state
  \<open>s\<close>, has switched back to the scheduler.
\<close>

section \<open>Definitions\<close>

text \<open>\<open>rndm_gen\<close>: the constants are \<open>unsigned long\<close>, 32 bits on this machine.\<close>

definition rndm_gen :: "cint \<Rightarrow> u32" where
  "rndm_gen sd = (sd * 279470273) mod 4294967291"

text \<open>
  Running process \<open>i\<close>, common to all four: make it current, switch to its address space,
  mark it RUNNING, switch to its context; when it comes back, switch to the kernel page
  table and clear \<open>proc\<close>.
\<close>

definition run_proc ::
  "(nat \<Rightarrow> 'a kproc_scheme \<Rightarrow> 'a kproc_scheme) \<Rightarrow> nat \<Rightarrow> 'a kproc_scheme \<Rightarrow> 'a kproc_scheme res" where
  "run_proc run i s =
     rbind (switchuvm i (s\<lparr>cur := Some i\<rparr>)) (\<lambda>s.
     let s = upd_proc i (\<lambda>p. p\<lparr>p_state := RUNNING\<rparr>) s;
         s = run i s;
         s = switchkvm s
     in Ok (s\<lparr>cur := None\<rparr>))"

subsection \<open>Stride scheduling\<close>

text \<open>The first loop: the least \<open>pass\<close> among the runnable processes, and its pid.\<close>

fun min_scan :: "proc list \<Rightarrow> cint \<Rightarrow> cint \<Rightarrow> cint \<times> cint" where
  "min_scan [] min_pass w_pid = (min_pass, w_pid)"
| "min_scan (p # ps) min_pass w_pid =
     (if p_state p \<noteq> RUNNABLE then min_scan ps min_pass w_pid
      else if p_pass p <s min_pass \<or> min_pass <s 0 then min_scan ps (p_pass p) (p_pid p)
      else min_scan ps min_pass w_pid)"

definition charge :: "nat \<Rightarrow> 'a kproc_scheme \<Rightarrow> 'a kproc_scheme res" where
  "charge i s =
     (let s = upd_proc i (\<lambda>p. p\<lparr>p_count := p_count p + 1\<rparr>) s
      in rbind (cdiv 10000 (p_tickets (procs s ! i))) (\<lambda>stride.
         Ok (upd_proc i (\<lambda>p. p\<lparr>p_pass := p_pass p + stride\<rparr>) s)))"

text \<open>The second loop, over the indices that are left.\<close>

fun stride_loop ::
  "(nat \<Rightarrow> 'a kproc_scheme \<Rightarrow> 'a kproc_scheme) \<Rightarrow> cint \<Rightarrow> nat list \<Rightarrow> 'a kproc_scheme \<Rightarrow> 'a kproc_scheme res" where
  "stride_loop run w_pid [] s = Ok s"
| "stride_loop run w_pid (i # is) s =
     (if p_state (procs s ! i) \<noteq> RUNNABLE then stride_loop run w_pid is s
      else if p_pid (procs s ! i) \<noteq> w_pid then stride_loop run w_pid is s
      else rbind (charge i s) (\<lambda>s. rbind (run_proc run i s) (stride_loop run w_pid is)))"

text \<open>One turn of \<open>scheduler()\<close>; \<open>w_pid\<close> keeps its value from turn to turn.\<close>

definition scheduler_turn ::
  "(nat \<Rightarrow> 'a kproc_scheme \<Rightarrow> 'a kproc_scheme) \<Rightarrow> cint \<Rightarrow> 'a kproc_scheme \<Rightarrow> (cint \<times> 'a kproc_scheme) res" where
  "scheduler_turn run w_pid s =
     rbind (kacquire L_ptable (s\<lparr>lk := sti (lk s)\<rparr>)) (\<lambda>s.
       let (min_pass, w_pid) = min_scan (procs s) (-1) w_pid
       in rbind (stride_loop run w_pid [0..<NPROC] s) (\<lambda>s.
          rbind (krelease L_ptable s) (\<lambda>s. Ok (w_pid, s))))"

text \<open>
  \<open>scheduler_b\<close> keeps a pointer \<open>current\<close> (initially \<open>proc\<close>, null on a fresh CPU) and
  dispatches it whether or not this turn found a runnable process.
\<close>

fun cur_scan :: "proc list \<Rightarrow> nat \<Rightarrow> cint \<Rightarrow> nat option \<Rightarrow> nat option" where
  "cur_scan [] i min_pass current = current"
| "cur_scan (p # ps) i min_pass current =
     (if p_state p \<noteq> RUNNABLE then cur_scan ps (Suc i) min_pass current
      else if min_pass <s 0 \<or> p_pass p <s min_pass then cur_scan ps (Suc i) (p_pass p) (Some i)
      else cur_scan ps (Suc i) min_pass current)"

definition scheduler_b_turn ::
  "(nat \<Rightarrow> 'a kproc_scheme \<Rightarrow> 'a kproc_scheme) \<Rightarrow> nat option \<Rightarrow> 'a kproc_scheme
     \<Rightarrow> (nat option \<times> 'a kproc_scheme) res" where
  "scheduler_b_turn run current s =
     rbind (kacquire L_ptable (s\<lparr>lk := sti (lk s)\<rparr>)) (\<lambda>s.
       case cur_scan (procs s) 0 (-1) current of
         None \<Rightarrow> Panic ''trap''
       | Some i \<Rightarrow>
           rbind (charge i s) (\<lambda>s. rbind (run_proc run i s) (\<lambda>s.
           rbind (krelease L_ptable s) (\<lambda>s. Ok (Some i, s)))))"

subsection \<open>Lottery\<close>

text \<open>\<open>counter < winner\<close> compares an \<open>int\<close> with an \<open>unsigned long\<close>: unsigned.\<close>

fun lottery_loop ::
  "(nat \<Rightarrow> 'a kproc_scheme \<Rightarrow> 'a kproc_scheme) \<Rightarrow> u32 \<Rightarrow> cint \<Rightarrow> nat list \<Rightarrow> 'a kproc_scheme \<Rightarrow> 'a kproc_scheme res" where
  "lottery_loop run winner counter [] s = Ok s"
| "lottery_loop run winner counter (i # is) s =
     (if p_state (procs s ! i) \<noteq> RUNNABLE then lottery_loop run winner counter is s
      else let counter = counter + p_tickets (procs s ! i)
           in if counter < winner then lottery_loop run winner counter is s
              else rbind (run_proc run i (upd_proc i (\<lambda>p. p\<lparr>p_count := p_count p + 1\<rparr>) s))
                     (lottery_loop run winner counter is))"

text \<open>The modulus \<open>total_tickets + 1\<close> can be 0, which faults.\<close>

definition scheduler1_turn ::
  "(nat \<Rightarrow> 'a kproc_scheme \<Rightarrow> 'a kproc_scheme) \<Rightarrow> cint \<Rightarrow> 'a kproc_scheme \<Rightarrow> (cint \<times> 'a kproc_scheme) res" where
  "scheduler1_turn run sd s =
     (let s = s\<lparr>lk := sti (lk s)\<rparr>; sd = sd + 1
      in if total_tickets s + 1 = 0 then Panic ''trap''
         else let winner = rndm_gen sd mod (total_tickets s + 1)
              in rbind (kacquire L_ptable s) (\<lambda>s.
                 rbind (lottery_loop run winner 0 [0..<NPROC] s) (\<lambda>s.
                 rbind (krelease L_ptable s) (\<lambda>s. Ok (sd, s)))))"

subsection \<open>Round robin\<close>

fun rr_loop ::
  "(nat \<Rightarrow> 'a kproc_scheme \<Rightarrow> 'a kproc_scheme) \<Rightarrow> nat list \<Rightarrow> 'a kproc_scheme \<Rightarrow> 'a kproc_scheme res" where
  "rr_loop run [] s = Ok s"
| "rr_loop run (i # is) s =
     (if p_state (procs s ! i) \<noteq> RUNNABLE then rr_loop run is s
      else rbind (run_proc run i s) (rr_loop run is))"

definition scheduler2_turn ::
  "(nat \<Rightarrow> 'a kproc_scheme \<Rightarrow> 'a kproc_scheme) \<Rightarrow> 'a kproc_scheme \<Rightarrow> 'a kproc_scheme res" where
  "scheduler2_turn run s =
     rbind (kacquire L_ptable (s\<lparr>lk := sti (lk s)\<rparr>)) (\<lambda>s.
     rbind (rr_loop run [0..<NPROC] s) (krelease L_ptable))"

section \<open>The scan for the least pass\<close>

abbreviation runnable :: "proc \<Rightarrow> bool" where
  "runnable p \<equiv> p_state p = RUNNABLE"

text \<open>\<open>least ps i\<close>: entry \<open>i\<close> is the first runnable one with the least pass.\<close>

definition least :: "proc list \<Rightarrow> nat \<Rightarrow> bool" where
  "least ps i \<longleftrightarrow> i < length ps \<and> runnable (ps ! i) \<and>
     (\<forall>j<length ps. runnable (ps ! j) \<longrightarrow> sint (p_pass (ps ! i)) \<le> sint (p_pass (ps ! j))) \<and>
     (\<forall>j<i. runnable (ps ! j) \<longrightarrow> sint (p_pass (ps ! i)) < sint (p_pass (ps ! j)))"

lemma least_unique: "least ps i \<Longrightarrow> least ps j \<Longrightarrow> i = j"
  unfolding least_def by (metis linorder_neqE_nat linorder_not_less)

lemma least_Cons_Suc:
  "least (p # ps) (Suc i) \<longleftrightarrow> least ps i \<and> (runnable p \<longrightarrow> sint (p_pass (ps ! i)) < sint (p_pass p))"
  unfolding least_def by (auto simp: All_less_Suc2)

lemma least_Cons_0:
  "least (p # ps) 0 \<longleftrightarrow> runnable p \<and> (\<forall>j<length ps. runnable (ps ! j) \<longrightarrow> sint (p_pass p) \<le> sint (p_pass (ps ! j)))"
  unfolding least_def by (auto simp: All_less_Suc2)

text \<open>With a non-negative minimum so far, the scan keeps it or finds the first smaller least.\<close>

lemma min_scan_pos:
  assumes "0 \<le> sint m" "\<forall>p\<in>set ps. runnable p \<longrightarrow> 0 \<le> sint (p_pass p)"
  shows "if \<exists>p\<in>set ps. runnable p \<and> sint (p_pass p) < sint m
     then \<exists>i. least ps i \<and> min_scan ps m w = (p_pass (ps ! i), p_pid (ps ! i)) \<and> sint (p_pass (ps ! i)) < sint m
     else min_scan ps m w = (m, w)"
  using assms
proof (induction ps arbitrary: m w)
  case Nil
  then show ?case by simp
next
  case (Cons p ps)
  have pos: "\<forall>p\<in>set ps. runnable p \<longrightarrow> 0 \<le> sint (p_pass p)" using Cons.prems(2) by simp
  show ?case
  proof (cases "runnable p \<and> sint (p_pass p) < sint m")
    case False
    then have e: "min_scan (p # ps) m w = min_scan ps m w"
      using Cons.prems(1) by (auto simp: word_sless_alt)
    show ?thesis
    proof (cases "\<exists>p\<in>set ps. runnable p \<and> sint (p_pass p) < sint m")
      case True
      with Cons.IH [OF Cons.prems(1) pos, of w] obtain i where
        i: "least ps i" "min_scan ps m w = (p_pass (ps ! i), p_pid (ps ! i))" "sint (p_pass (ps ! i)) < sint m"
        by auto
      then have "least (p # ps) (Suc i)" using False by (auto simp: least_Cons_Suc)
      with i True e show ?thesis by (auto intro!: exI [of _ "Suc i"])
    next
      case none: False
      with Cons.IH [OF Cons.prems(1) pos, of w] e False show ?thesis by auto
    qed
  next
    case True
    then have e: "min_scan (p # ps) m w = min_scan ps (p_pass p) (p_pid p)"
      by (auto simp: word_sless_alt)
    have pp: "0 \<le> sint (p_pass p)" using True Cons.prems(2) by simp
    show ?thesis
    proof (cases "\<exists>q\<in>set ps. runnable q \<and> sint (p_pass q) < sint (p_pass p)")
      case sm: True
      with Cons.IH [OF pp pos, of "p_pid p"] obtain i where
        i: "least ps i" "min_scan ps (p_pass p) (p_pid p) = (p_pass (ps ! i), p_pid (ps ! i))"
          "sint (p_pass (ps ! i)) < sint (p_pass p)"
        by auto
      then have "least (p # ps) (Suc i)" by (simp add: least_Cons_Suc)
      with i True e show ?thesis by (auto intro!: exI [of _ "Suc i"])
    next
      case none: False
      then have "least (p # ps) 0" using True by (auto simp: least_Cons_0 not_less)
      with Cons.IH [OF pp pos, of "p_pid p"] none e True show ?thesis by (auto intro!: exI [of _ 0])
    qed
  qed
qed

lemma min_scan_start:
  assumes "\<forall>p\<in>set ps. runnable p \<longrightarrow> 0 \<le> sint (p_pass p)"
  shows "if \<exists>p\<in>set ps. runnable p
     then \<exists>i. least ps i \<and> min_scan ps (-1) w = (p_pass (ps ! i), p_pid (ps ! i))
     else min_scan ps (-1) w = (-1, w)"
  using assms
proof (induction ps)
  case Nil
  then show ?case by simp
next
  case (Cons p ps)
  show ?case
  proof (cases "runnable p")
    case False
    then have "least (p # ps) (Suc i) = least ps i" for i by (simp add: least_Cons_Suc)
    with False Cons show ?thesis by (auto intro: exI [of _ "Suc _"] split: if_splits)
  next
    case True
    then have e: "min_scan (p # ps) (-1) w = min_scan ps (p_pass p) (p_pid p)" by (simp add: word_sless_alt)
    have pp: "0 \<le> sint (p_pass p)" using True Cons.prems by simp
    have pos: "\<forall>p\<in>set ps. runnable p \<longrightarrow> 0 \<le> sint (p_pass p)" using Cons.prems by simp
    note ih = min_scan_pos [OF pp pos, of "p_pid p"]
    show ?thesis
    proof (cases "\<exists>q\<in>set ps. runnable q \<and> sint (p_pass q) < sint (p_pass p)")
      case sm: True
      with ih obtain i where
        i: "least ps i" "min_scan ps (p_pass p) (p_pid p) = (p_pass (ps ! i), p_pid (ps ! i))"
          "sint (p_pass (ps ! i)) < sint (p_pass p)"
        by auto
      then have "least (p # ps) (Suc i)" by (simp add: least_Cons_Suc)
      with i True e show ?thesis by (auto intro!: exI [of _ "Suc i"])
    next
      case none: False
      then have "least (p # ps) 0" using True by (auto simp: least_Cons_0 not_less)
      with ih none e True show ?thesis by (auto intro!: exI [of _ 0])
    qed
  qed
qed

section \<open>One turn of the stride scheduler\<close>

text \<open>
  What the scheduler relies on when it switches to process \<open>i\<close> (the comment in the loop: it
  is the process's job to release \<open>ptable.lock\<close> and then reacquire it before jumping back,
  and to have changed its state): control comes back with only \<open>ptable.lock\<close> held, the
  table invariant holds, and the slot still belongs to the same process, no longer RUNNING.
\<close>

definition only_ptable :: "'a kproc_scheme \<Rightarrow> bool" where
  "only_ptable s \<longleftrightarrow> (\<exists>k. lk s = acquired L_ptable k \<and> ncli (mycpu k) = 0 \<and> lock_free L_ptable k)"

definition run_ok :: "(nat \<Rightarrow> 'a kproc_scheme \<Rightarrow> 'a kproc_scheme) \<Rightarrow> bool" where
  "run_ok run \<longleftrightarrow> (\<forall>i s. i < NPROC \<and> only_ptable s \<and> ptable_inv s \<and> cur s = Some i \<and>
       p_state (procs s ! i) = RUNNING \<longrightarrow>
     only_ptable (run i s) \<and> ptable_inv (run i s) \<and> p_pid (procs (run i s) ! i) = p_pid (procs s ! i) \<and>
     used (run i s) i \<and> p_state (procs (run i s) ! i) \<noteq> RUNNING)"

definition charged :: "proc \<Rightarrow> proc" where
  "charged p = p\<lparr>p_count := p_count p + 1, p_pass := p_pass p + word_of_int (10000 sdiv sint (p_tickets p))\<rparr>"

text \<open>The state in which process \<open>i\<close> gets the CPU.\<close>

definition dispatched :: "nat \<Rightarrow> 'a kproc_scheme \<Rightarrow> 'a kproc_scheme" where
  "dispatched i s = upd_proc i (\<lambda>p. p\<lparr>p_state := RUNNING\<rparr>) (s\<lparr>cur := Some i,
     ts_esp0 := p_kstack (procs s ! i) + KSTACKSIZE, cr3 := V2P (p_pgdir (procs s ! i))\<rparr>)"

lemma charge_eq:
  assumes "i < length (procs s)" "p_tickets (procs s ! i) \<noteq> 0"
  shows "charge i s = Ok (upd_proc i charged s)"
  using assms by (simp add: charge_def Let_def cdiv_def upd_proc_def upd_ix_def charged_def)

lemma switchuvm_eq:
  assumes "p_kstack (procs s ! i) \<noteq> 0" "p_pgdir (procs s ! i) \<noteq> 0" "cli_ok (lk s)"
  shows "switchuvm i s = Ok (s\<lparr>lk := settled (lk s), ts_esp0 := p_kstack (procs s ! i) + KSTACKSIZE,
    cr3 := V2P (p_pgdir (procs s ! i))\<rparr>)"
  using assms by (simp add: switchuvm_def Let_def pushcli_popcli)

lemma run_proc_eq:
  assumes "p_kstack (procs s ! i) \<noteq> 0" "p_pgdir (procs s ! i) \<noteq> 0" "lk s = acquired l k" "cli_ok k"
  shows "run_proc run i s = Ok ((switchkvm (run i (dispatched i s)))\<lparr>cur := None\<rparr>)"
proof -
  have e: "s\<lparr>cur := Some i, lk := acquired l k\<rparr> = s\<lparr>cur := Some i\<rparr>"
    by (rule lk_update_id) (simp add: assms(3))
  show ?thesis
    using assms switchuvm_eq [of "s\<lparr>cur := Some i\<rparr>" i]
    by (simp add: run_proc_def dispatched_def Let_def e)
qed

lemma stride_loop_none:
  "\<forall>i\<in>set is. \<not> (runnable (procs s ! i) \<and> p_pid (procs s ! i) = w) \<Longrightarrow> stride_loop run w is s = Ok s"
  by (induction "is") auto

lemma stride_loop_append:
  "\<forall>i\<in>set is. \<not> (runnable (procs s ! i) \<and> p_pid (procs s ! i) = w) \<Longrightarrow>
   stride_loop run w (is @ js) s = stride_loop run w js s"
  by (induction "is") auto

lemma ptable_inv_dispatched:
  assumes "ptable_inv s" "used s i"
  shows "ptable_inv (dispatched i (upd_proc i charged s))"
proof -
  have "ptable_inv (upd_proc i charged s)"
    by (rule ptable_inv_upd_proc [OF assms(1)]) (simp_all add: charged_def assms(2))
  then have "ptable_inv ((upd_proc i charged s)\<lparr>cur := Some i, ts_esp0 := p_kstack (procs (upd_proc i charged s) ! i) + KSTACKSIZE,
      cr3 := V2P (p_pgdir (procs (upd_proc i charged s) ! i))\<rparr>)"
    by (simp add: ptable_inv_def)
  then show ?thesis
    unfolding dispatched_def
  proof (rule ptable_inv_upd_proc)
    show "used ((upd_proc i charged s)\<lparr>cur := Some i, ts_esp0 := p_kstack (procs (upd_proc i charged s) ! i) + KSTACKSIZE,
      cr3 := V2P (p_pgdir (procs (upd_proc i charged s) ! i))\<rparr>) i"
      using assms(2) by (cases "i < length (procs s)") (simp_all add: charged_def upd_ix_beyond)
  qed simp
qed

lemma stride_loop_dispatch:
  assumes inv: "ptable_inv s" and lk: "lk s = acquired L_ptable k" "ncli (mycpu k) = 0" "lock_free L_ptable k"
    and run: "run_ok run" and i: "i < NPROC" "runnable (procs s ! i)" "p_tickets (procs s ! i) \<noteq> 0"
    "p_kstack (procs s ! i) \<noteq> 0" "p_pgdir (procs s ! i) \<noteq> 0"
  defines "t \<equiv> run i (dispatched i (upd_proc i charged s))"
  shows "stride_loop run (p_pid (procs s ! i)) [0..<NPROC] s = Ok ((switchkvm t)\<lparr>cur := None\<rparr>)"
    and "only_ptable t" and "ptable_inv t"
proof -
  note D = ptable_invD [OF inv]
  let ?d = "dispatched i (upd_proc i charged s)"
  have us: "used s i" using i(2) by simp
  have "\<forall>j\<in>set [0..<i]. \<not> (runnable (procs s ! j) \<and> p_pid (procs s ! j) = p_pid (procs s ! i))"
  proof (intro ballI notI, elim conjE)
    fix j
    assume j: "j \<in> set [0..<i]" "runnable (procs s ! j)" "p_pid (procs s ! j) = p_pid (procs s ! i)"
    with D(4) [of j i] i(1) us show False by simp
  qed
  moreover have "[0..<NPROC] = [0..<i] @ i # [Suc i..<NPROC]"
    using i(1) upt_add_eq_append [of 0 i "NPROC - i"] upt_conv_Cons [of i NPROC] by simp
  ultimately have "stride_loop run (p_pid (procs s ! i)) [0..<NPROC] s =
      rbind (charge i s) (\<lambda>s1. rbind (run_proc run i s1) (stride_loop run (p_pid (procs s ! i)) [Suc i..<NPROC]))"
    using i(2) by (simp add: stride_loop_append)
  also have "\<dots> = stride_loop run (p_pid (procs s ! i)) [Suc i..<NPROC] ((switchkvm t)\<lparr>cur := None\<rparr>)"
    using i D(1) lk charge_eq [of i s] run_proc_eq [of "upd_proc i charged s" i L_ptable k run]
    by (simp add: t_def charged_def cli_ok_def)
  finally have eq: "stride_loop run (p_pid (procs s ! i)) [0..<NPROC] s =
    stride_loop run (p_pid (procs s ! i)) [Suc i..<NPROC] ((switchkvm t)\<lparr>cur := None\<rparr>)" .
  have d: "ptable_inv ?d" using inv us by (rule ptable_inv_dispatched)
  moreover have "only_ptable ?d"
    using lk by (auto simp: only_ptable_def dispatched_def)
  moreover have "cur ?d = Some i" "p_state (procs ?d ! i) = RUNNING"
    "p_pid (procs ?d ! i) = p_pid (procs s ! i)"
    using lk i(1) D(1) by (simp_all add: dispatched_def charged_def)
  ultimately have t: "only_ptable t" "ptable_inv t" "p_pid (procs t ! i) = p_pid (procs s ! i)" "used t i"
    using run i(1) unfolding run_ok_def t_def by metis+
  show "only_ptable t" "ptable_inv t" by (rule t(1) t(2))+
  have "\<forall>j\<in>set [Suc i..<NPROC]. \<not> (runnable (procs t ! j) \<and> p_pid (procs t ! j) = p_pid (procs s ! i))"
    using ptable_invD(4) [OF t(2), of i] i(1) t(3,4) by fastforce
  then show "stride_loop run (p_pid (procs s ! i)) [0..<NPROC] s = Ok ((switchkvm t)\<lparr>cur := None\<rparr>)"
    unfolding eq by (intro stride_loop_none) (simp add: switchkvm_def)
qed

lemma sti_free [simp]: "lock_free l (sti k) = lock_free l k"
  by (simp add: lock_free_def)

text \<open>The runnable processes are fit to be dispatched.\<close>

definition fit :: "proc \<Rightarrow> bool" where
  "fit p \<longleftrightarrow> 0 \<le> sint (p_pass p) \<and> p_tickets p \<noteq> 0 \<and> p_kstack p \<noteq> 0 \<and> p_pgdir p \<noteq> 0"

lemma scheduler_turn_idle:
  assumes "lock_free L_ptable (lk s)" "ncli (mycpu (lk s)) = 0" "\<forall>p\<in>set (procs s). \<not> runnable p"
    "length (procs s) = NPROC"
  shows "scheduler_turn run w s = Ok (w, s\<lparr>lk := settled (sti (lk s))\<rparr>)"
proof -
  have "min_scan (procs s) (-1) w = (-1, w)"
    using min_scan_start [of "procs s" w] assms(3) by auto
  moreover have "stride_loop run w [0..<NPROC] (s\<lparr>lk := acquired L_ptable (sti (lk s))\<rparr>) = Ok (s\<lparr>lk := acquired L_ptable (sti (lk s))\<rparr>)"
    by (rule stride_loop_none) (use assms(3,4) in simp)
  ultimately show ?thesis
    using assms(1,2) by (simp add: scheduler_turn_def lock_simps cli_ok_def)
qed

lemma scheduler_turn_dispatch:
  assumes inv: "ptable_inv s" and lk: "lock_free L_ptable (lk s)" "ncli (mycpu (lk s)) = 0"
    and run: "run_ok run" and i: "least (procs s) i"
    and fit: "\<forall>p\<in>set (procs s). runnable p \<longrightarrow> fit p"
  defines "t \<equiv> run i (dispatched i (upd_proc i charged (s\<lparr>lk := acquired L_ptable (sti (lk s))\<rparr>)))"
  shows "\<exists>k. lk t = acquired L_ptable k \<and> ncli (mycpu k) = 0 \<and> lock_free L_ptable k \<and> ptable_inv t \<and>
    scheduler_turn run w s = Ok (p_pid (procs s ! i), (switchkvm t)\<lparr>cur := None, lk := settled k\<rparr>)"
proof -
  let ?s = "s\<lparr>lk := acquired L_ptable (sti (lk s))\<rparr>"
  have len: "length (procs s) = NPROC" using inv by (rule ptable_invD)
  then have i': "i < NPROC" "runnable (procs s ! i)" "fit (procs s ! i)"
    using i fit by (auto simp: least_def)
  have "\<forall>p\<in>set (procs s). runnable p \<longrightarrow> 0 \<le> sint (p_pass p)" using fit by (auto simp: fit_def)
  moreover have "procs s ! i \<in> set (procs s)" using i by (simp add: least_def)
  ultimately have ms: "min_scan (procs s) (-1) w = (p_pass (procs s ! i), p_pid (procs s ! i))"
    using min_scan_start [of "procs s" w] i' least_unique [OF i] by (metis (mono_tags, lifting))
  have k: "ncli (mycpu (sti (lk s))) = 0" "lock_free L_ptable (sti (lk s))" using lk by simp_all
  have "stride_loop run (p_pid (procs ?s ! i)) [0..<NPROC] ?s = Ok ((switchkvm t)\<lparr>cur := None\<rparr>)"
    and "only_ptable t" "ptable_inv t"
    unfolding t_def
    by (rule stride_loop_dispatch [OF _ _ k run i'(1)]; use inv i' in \<open>simp add: fit_def\<close>)+
  then obtain k' where k': "lk t = acquired L_ptable k'" "ncli (mycpu k') = 0" "lock_free L_ptable k'"
    and sl: "stride_loop run (p_pid (procs s ! i)) [0..<NPROC] ?s = Ok ((switchkvm t)\<lparr>cur := None\<rparr>)"
    by (auto simp: only_ptable_def)
  have "cli_ok k'" using k'(2) by (simp add: cli_ok_def)
  then have "krelease L_ptable ((switchkvm t)\<lparr>cur := None\<rparr>) = Ok ((switchkvm t)\<lparr>cur := None, lk := settled k'\<rparr>)"
    using k' by (intro krelease_acquired) (simp_all add: switchkvm_def)
  then have "scheduler_turn run w s = Ok (p_pid (procs s ! i), (switchkvm t)\<lparr>cur := None, lk := settled k'\<rparr>)"
    using lk ms sl by (simp add: scheduler_turn_def lock_simps)
  with k' \<open>ptable_inv t\<close> show ?thesis by blast
qed

text \<open>A process that runs and, at its next timer interrupt, calls \<open>yield\<close>.\<close>

definition run_yield :: "nat \<Rightarrow> 'a kproc_scheme \<Rightarrow> 'a kproc_scheme" where
  "run_yield i s = (case rbind (krelease L_ptable s) (kacquire L_ptable) of
     Ok s \<Rightarrow> upd_proc i (\<lambda>p. p\<lparr>p_state := RUNNABLE\<rparr>) s | _ \<Rightarrow> s)"

lemma run_yield_eq:
  assumes "only_ptable s"
  shows "run_yield i s = upd_proc i (\<lambda>p. p\<lparr>p_state := RUNNABLE\<rparr>) s"
proof -
  obtain k where k: "lk s = acquired L_ptable k" "ncli (mycpu k) = 0" "lock_free L_ptable k"
    using assms by (auto simp: only_ptable_def)
  then have "rbind (krelease L_ptable s) (kacquire L_ptable) = Ok (s\<lparr>lk := acquired L_ptable k\<rparr>)"
    by (simp add: lock_simps cli_ok_def)
  then show ?thesis using k(1) by (simp add: run_yield_def lk_update_id)
qed

lemma run_yield_ok: "run_ok run_yield"
  unfolding run_ok_def
proof (intro allI impI, elim conjE)
  fix i and s :: "'a kproc_scheme"
  assume *: "i < NPROC" "only_ptable s" "ptable_inv s" "p_state (procs s ! i) = RUNNING"
  then have "ptable_inv (upd_proc i (\<lambda>p. p\<lparr>p_state := RUNNABLE\<rparr>) s)"
    by (intro ptable_inv_upd_proc) simp_all
  with * show "only_ptable (run_yield i s) \<and> ptable_inv (run_yield i s) \<and>
    p_pid (procs (run_yield i s) ! i) = p_pid (procs s ! i) \<and>
    used (run_yield i s) i \<and> p_state (procs (run_yield i s) ! i) \<noteq> RUNNING"
    using ptable_invD(1) [OF *(3)] by (simp add: run_yield_eq) (simp add: only_ptable_def)
qed

section \<open>Stride fairness\<close>

text \<open>Consecutive turns of the loop.\<close>

primrec scheduler_turns ::
  "(nat \<Rightarrow> 'a kproc_scheme \<Rightarrow> 'a kproc_scheme) \<Rightarrow> nat \<Rightarrow> cint \<Rightarrow> 'a kproc_scheme \<Rightarrow> (cint \<times> 'a kproc_scheme) res" where
  "scheduler_turns run 0 w s = Ok (w, s)"
| "scheduler_turns run (Suc n) w s = rbind (scheduler_turns run n w s) (\<lambda>(w, s). scheduler_turn run w s)"

text \<open>A workload of processes that never block: each turn ends with the process RUNNABLE.\<close>

definition cpu_bound :: "(nat \<Rightarrow> 'a kproc_scheme \<Rightarrow> 'a kproc_scheme) \<Rightarrow> bool" where
  "cpu_bound run \<longleftrightarrow> run_ok run \<and> (\<forall>i s. i < NPROC \<and> only_ptable s \<and> ptable_inv s \<and> cur s = Some i \<and>
       p_state (procs s ! i) = RUNNING \<longrightarrow>
     procs (run i s) = upd_ix i (\<lambda>p. p\<lparr>p_state := RUNNABLE\<rparr>) (procs s))"

lemma cpu_bound_run_yield: "cpu_bound run_yield"
  using run_yield_ok by (auto simp: cpu_bound_def run_yield_eq)

definition stride :: "proc \<Rightarrow> int" where
  "stride p = 10000 sdiv sint (p_tickets p)"

lemma charged_state [simp]:
  "p_state ((charged ^^ n) p) = p_state p" "p_tickets ((charged ^^ n) p) = p_tickets p"
  "p_kstack ((charged ^^ n) p) = p_kstack p" "p_pgdir ((charged ^^ n) p) = p_pgdir p"
  "p_count ((charged ^^ n) p) = p_count p + of_nat n" "p_pid ((charged ^^ n) p) = p_pid p"
  by (induction n) (simp_all add: charged_def)

lemma charged_runnable: "runnable p \<Longrightarrow> (charged p)\<lparr>p_state := RUNNABLE\<rparr> = charged p"
  by (cases p) (simp add: charged_def)

lemma p_pass_charged: "p_pass (charged p) = p_pass p + word_of_int (stride p)"
  by (simp add: charged_def stride_def)

lemma stride_charged [simp]: "stride ((charged ^^ n) p) = stride p"
  by (simp add: stride_def)

lemma stride_bounds: "1 \<le> sint (p_tickets p) \<Longrightarrow> 0 \<le> stride p \<and> stride p \<le> 10000"
proof -
  assume t: "1 \<le> sint (p_tickets p)"
  then have "stride p = 10000 div sint (p_tickets p)" by (simp add: stride_def signed_divide_int_def)
  moreover have "0 \<le> 10000 div sint (p_tickets p)" using t by (simp add: pos_imp_zdiv_nonneg_iff)
  moreover have "10000 div sint (p_tickets p) \<le> 10000 div 1"
    using t by (intro zdiv_mono2) simp_all
  ultimately show ?thesis by simp
qed

lemma pass_charged:
  assumes "1 \<le> sint (p_tickets p)" "0 \<le> sint (p_pass p)" "sint (p_pass p) + 10000 * int n < 2147483648"
  shows "sint (p_pass ((charged ^^ n) p)) = sint (p_pass p) + int n * stride p"
  using assms(3)
proof (induction n)
  case 0
  then show ?case by simp
next
  case (Suc n)
  note b = stride_bounds [OF assms(1)]
  have ih: "sint (p_pass ((charged ^^ n) p)) = sint (p_pass p) + int n * stride p"
    using Suc by simp
  have st: "sint (word_of_int (stride p) :: cint) = stride p"
    using b by (simp add: sint_sbintrunc' signed_take_bit_int_eq_self)
  have le: "int n * stride p \<le> int n * 10000" "0 \<le> int n * stride p"
    using b by (simp_all add: mult_left_mono)
  have "sint (p_pass ((charged ^^ n) p) + word_of_int (stride p)) = sint (p_pass ((charged ^^ n) p)) + sint (word_of_int (stride p) :: cint)"
  proof (rule sint_add_cint)
    have "sint (p_pass p) + int n * 10000 + 10000 < 2147483648" using Suc.prems by simp
    then show "- 2147483648 \<le> sint (p_pass ((charged ^^ n) p)) + sint (word_of_int (stride p) :: cint)"
      "sint (p_pass ((charged ^^ n) p)) + sint (word_of_int (stride p) :: cint) < 2147483648"
      unfolding ih st using b le assms(2) by linarith+
  qed
  then show ?case using ih st by (simp add: p_pass_charged ring_distribs)
qed

lemma least_exists:
  assumes "\<exists>p\<in>set ps. runnable p" "\<forall>p\<in>set ps. runnable p \<longrightarrow> 0 \<le> sint (p_pass p)"
  shows "\<exists>i. least ps i"
  using min_scan_start [OF assms(2), of 0] assms(1) by auto

text \<open>One turn on a CPU-bound workload charges the least entry and changes nothing else.\<close>

lemma cpu_bound_turn:
  assumes cb: "cpu_bound run" and inv: "ptable_inv s" and lk: "lock_free L_ptable (lk s)" "ncli (mycpu (lk s)) = 0"
    and fit: "\<forall>p\<in>set (procs s). runnable p \<longrightarrow> fit p" and i: "least (procs s) i"
  shows "\<exists>s'. scheduler_turn run w s = Ok (p_pid (procs s ! i), s') \<and> procs s' = upd_ix i charged (procs s) \<and>
    ptable_inv s' \<and> lock_free L_ptable (lk s') \<and> ncli (mycpu (lk s')) = 0"
proof -
  have run: "run_ok run" using cb by (simp add: cpu_bound_def)
  have len: "length (procs s) = NPROC" using inv by (rule ptable_invD)
  then have i': "i < NPROC" "runnable (procs s ! i)" using i by (auto simp: least_def)
  let ?s = "s\<lparr>lk := acquired L_ptable (sti (lk s))\<rparr>"
  let ?d = "dispatched i (upd_proc i charged ?s)"
  define t where "t = run i ?d"
  obtain k where k: "lk t = acquired L_ptable k" "ncli (mycpu k) = 0" "lock_free L_ptable k" "ptable_inv t"
    and turn: "scheduler_turn run w s = Ok (p_pid (procs s ! i), (switchkvm t)\<lparr>cur := None, lk := settled k\<rparr>)"
    using scheduler_turn_dispatch [OF inv lk run i fit, of w] unfolding t_def by blast
  have "only_ptable ?d" using lk by (auto simp: only_ptable_def dispatched_def)
  moreover have "ptable_inv ?d" using inv i' by (intro ptable_inv_dispatched) simp_all
  moreover have "cur ?d = Some i" "p_state (procs ?d ! i) = RUNNING"
    using i' len by (simp_all add: dispatched_def)
  ultimately have "procs t = upd_ix i (\<lambda>p. p\<lparr>p_state := RUNNABLE\<rparr>) (procs ?d)"
    using cb i'(1) unfolding t_def cpu_bound_def by blast
  also have "\<dots> = upd_ix i charged (procs s)"
    using i' len by (simp add: dispatched_def upd_ix_def charged_runnable)
  finally have "procs t = upd_ix i charged (procs s)" .
  moreover have "ptable_inv ((switchkvm t)\<lparr>cur := None, lk := settled k\<rparr>)"
    using k(4) by (simp add: ptable_inv_def switchkvm_def)
  ultimately show ?thesis using turn k by (simp add: switchkvm_def)
qed

text \<open>
  The invariant of \<open>n\<close> turns from \<open>s\<close> to \<open>s'\<close>: slot \<open>i\<close> has been charged \<open>c i\<close> times, and no
  pass is ahead of another by more than its own stride or the initial spread \<open>D\<close>.
\<close>

definition fair_inv :: "int \<Rightarrow> nat \<Rightarrow> 'a kproc_scheme \<Rightarrow> (nat \<Rightarrow> nat) \<Rightarrow> 'a kproc_scheme \<Rightarrow> bool" where
  "fair_inv D n s c s' \<longleftrightarrow> ptable_inv s' \<and> lock_free L_ptable (lk s') \<and> ncli (mycpu (lk s')) = 0 \<and>
     (\<forall>i<NPROC. procs s' ! i = (charged ^^ c i) (procs s ! i)) \<and>
     (\<forall>i<NPROC. \<not> runnable (procs s ! i) \<longrightarrow> c i = 0) \<and> (\<Sum>i<NPROC. c i) = n \<and>
     (\<forall>i<NPROC. \<forall>j<NPROC. runnable (procs s ! i) \<longrightarrow> runnable (procs s ! j) \<longrightarrow>
        sint (p_pass (procs s' ! i)) \<le> sint (p_pass (procs s' ! j)) + max (stride (procs s ! i)) D)"

text \<open>What is assumed of the runnable processes of the initial table.\<close>

definition fair_start :: "int \<Rightarrow> int \<Rightarrow> 'a kproc_scheme \<Rightarrow> bool" where
  "fair_start M D s \<longleftrightarrow> (\<exists>p\<in>set (procs s). runnable p) \<and>
     (\<forall>p\<in>set (procs s). runnable p \<longrightarrow>
        1 \<le> sint (p_tickets p) \<and> 0 \<le> sint (p_pass p) \<and> sint (p_pass p) \<le> M \<and> p_kstack p \<noteq> 0 \<and> p_pgdir p \<noteq> 0) \<and>
     (\<forall>p\<in>set (procs s). \<forall>q\<in>set (procs s). runnable p \<longrightarrow> runnable q \<longrightarrow> sint (p_pass p) \<le> sint (p_pass q) + D)"

lemma fair_inv_step:
  assumes cb: "cpu_bound run" and st: "fair_start M D s" and M: "M + 10000 * int (Suc n) < 2147483648"
    and len0: "length (procs s) = NPROC" and inv: "fair_inv D n s c s'"
  shows "\<exists>w' t c'. scheduler_turn run w s' = Ok (w', t) \<and> fair_inv D (Suc n) s c' t"
proof -
  have I: "ptable_inv s'" "lock_free L_ptable (lk s')" "ncli (mycpu (lk s')) = 0" "(\<Sum>i<NPROC. c i) = n"
    and P: "\<And>i. i < NPROC \<Longrightarrow> procs s' ! i = (charged ^^ c i) (procs s ! i)"
    and Z: "\<And>i. i < NPROC \<Longrightarrow> \<not> runnable (procs s ! i) \<Longrightarrow> c i = 0"
    and B: "\<And>i j. i < NPROC \<Longrightarrow> j < NPROC \<Longrightarrow> runnable (procs s ! i) \<Longrightarrow> runnable (procs s ! j) \<Longrightarrow>
        sint (p_pass (procs s' ! i)) \<le> sint (p_pass (procs s' ! j)) + max (stride (procs s ! i)) D"
    using inv unfolding fair_inv_def by blast+
  have len: "length (procs s') = NPROC" using I(1) by (rule ptable_invD)
  have S: "1 \<le> sint (p_tickets (procs s ! i))" "0 \<le> sint (p_pass (procs s ! i))"
    "sint (p_pass (procs s ! i)) \<le> M" "p_kstack (procs s ! i) \<noteq> 0" "p_pgdir (procs s ! i) \<noteq> 0"
    if "i < NPROC" "runnable (procs s ! i)" for i
    using st that len0 unfolding fair_start_def by auto
  have cn: "c i \<le> n" if "i < NPROC" for i
    using I(4) that member_le_sum [of i "{..<NPROC}" c] by auto
  have pass: "sint (p_pass ((charged ^^ m) (procs s ! i))) = sint (p_pass (procs s ! i)) + int m * stride (procs s ! i)"
    if "i < NPROC" "runnable (procs s ! i)" "m \<le> Suc n" for i m
    by (rule pass_charged) (use S [OF that(1,2)] M that(3) in auto)
  have run: "runnable (procs s' ! i) = runnable (procs s ! i)" if "i < NPROC" for i using P [OF that] by simp
  have nonneg: "0 \<le> sint (p_pass (procs s' ! i))" if "i < NPROC" "runnable (procs s ! i)" for i
    using pass [OF that, of "c i"] cn [OF that(1)] P [OF that(1)] S(2) [OF that] stride_bounds [OF S(1) [OF that]] by simp
  have fit: "\<forall>p\<in>set (procs s'). runnable p \<longrightarrow> fit p"
  proof (intro ballI impI)
    fix p
    assume "p \<in> set (procs s')" "runnable p"
    then obtain i where i: "i < NPROC" "p = procs s' ! i" "runnable (procs s ! i)"
      using len run by (metis in_set_conv_nth)
    with P [OF i(1)] S [OF i(1,3)] nonneg [OF i(1,3)] show "fit p" by (auto simp: fit_def)
  qed
  have "\<exists>p\<in>set (procs s'). runnable p"
    using st len0 len run unfolding fair_start_def by (metis in_set_conv_nth)
  then obtain i where i: "least (procs s') i" using least_exists fit by (metis fit_def)
  then have i': "i < NPROC" "runnable (procs s ! i)"
    and mn: "\<And>j. j < NPROC \<Longrightarrow> runnable (procs s ! j) \<Longrightarrow> sint (p_pass (procs s' ! i)) \<le> sint (p_pass (procs s' ! j))"
    using run len by (auto simp: least_def)
  from cpu_bound_turn [OF cb I(1,2,3) fit i, of w] obtain t where
    t: "scheduler_turn run w s' = Ok (p_pid (procs s' ! i), t)" "procs t = upd_ix i charged (procs s')"
      "ptable_inv t" "lock_free L_ptable (lk t)" "ncli (mycpu (lk t)) = 0" by blast
  let ?c = "c(i := Suc (c i))"
  have pt: "procs t ! j = (charged ^^ ?c j) (procs s ! j)" if "j < NPROC" for j
    using that t(2) P [OF that] len by (simp add: nth_upd_ix)
  have ppt: "sint (p_pass (procs t ! j)) = sint (p_pass (procs s' ! j)) + (if j = i then stride (procs s ! i) else 0)"
    if "j < NPROC" "runnable (procs s ! j)" for j
    using pt [OF that(1)] P [OF that(1)] pass [OF that, of "Suc (c j)"] pass [OF that, of "c j"] cn [OF that(1)]
    by (cases "j = i") (simp_all add: ring_distribs)
  have sum: "(\<Sum>j<NPROC. ?c j) = Suc n"
  proof -
    have "(\<Sum>j<NPROC. ?c j) = (\<Sum>j<NPROC. c j + (if j = i then 1 else 0))" by (rule sum.cong) auto
    also have "\<dots> = Suc n" using I(4) i'(1) by (simp add: sum.distrib sum.delta)
    finally show ?thesis .
  qed
  have bd: "sint (p_pass (procs t ! a)) \<le> sint (p_pass (procs t ! b)) + max (stride (procs s ! a)) D"
    if "a < NPROC" "b < NPROC" "runnable (procs s ! a)" "runnable (procs s ! b)" for a b
    using ppt [OF that(1,3)] ppt [OF that(2,4)] B [OF that] mn [OF that(2,4)] stride_bounds [OF S(1) [OF i']]
    by (cases "a = i"; cases "b = i") auto
  have "fair_inv D (Suc n) s ?c t"
    unfolding fair_inv_def using t(3,4,5) pt sum bd Z i'(2) by auto
  with t(1) show ?thesis by blast
qed

lemma fair_inv_turns:
  assumes "cpu_bound run" "fair_start M D s" "M + 10000 * int n < 2147483648" "ptable_inv s"
    "lock_free L_ptable (lk s)" "ncli (mycpu (lk s)) = 0"
  shows "\<exists>w' t c. scheduler_turns run n w s = Ok (w', t) \<and> fair_inv D n s c t"
  using assms(3)
proof (induction n)
  case 0
  note len = ptable_invD(1) [OF assms(4)]
  have "sint (p_pass (procs s ! i)) \<le> sint (p_pass (procs s ! j)) + D"
    if "i < NPROC" "j < NPROC" "runnable (procs s ! i)" "runnable (procs s ! j)" for i j
    using assms(2) that len unfolding fair_start_def by auto
  then have "fair_inv D 0 s (\<lambda>_. 0) s"
    using assms(4-6) unfolding fair_inv_def by (fastforce simp: max_def)
  then show ?case by auto
next
  case (Suc n)
  then obtain w' t c where t: "scheduler_turns run n w s = Ok (w', t)" "fair_inv D n s c t" by auto
  from fair_inv_step [OF assms(1,2) Suc.prems ptable_invD(1) [OF assms(4)] t(2), of w'] t(1)
  show ?case by auto
qed

section \<open>Round robin and lottery\<close>

text \<open>One dispatch of process \<open>i\<close>, from the switch to it to the return to the scheduler.\<close>

definition turn_of :: "(nat \<Rightarrow> 'a kproc_scheme \<Rightarrow> 'a kproc_scheme) \<Rightarrow> nat \<Rightarrow> 'a kproc_scheme \<Rightarrow> 'a kproc_scheme" where
  "turn_of run i s = (switchkvm (run i (dispatched i s)))\<lparr>cur := None\<rparr>"

definition can_run :: "'a kproc_scheme \<Rightarrow> bool" where
  "can_run s \<longleftrightarrow> ptable_inv s \<and> only_ptable s \<and>
     (\<forall>p\<in>set (procs s). runnable p \<longrightarrow> p_kstack p \<noteq> 0 \<and> p_pgdir p \<noteq> 0)"

lemma runnable_again: "runnable p \<Longrightarrow> p\<lparr>p_state := RUNNABLE\<rparr> = p"
  by (cases p) simp

lemma turn_of_cpu_bound:
  assumes "cpu_bound run" "can_run s" "i < NPROC" "runnable (procs s ! i)"
  shows "procs (turn_of run i s) = procs s" "can_run (turn_of run i s)" "run_proc run i s = Ok (turn_of run i s)"
proof -
  have inv: "ptable_inv s" and ok: "\<forall>p\<in>set (procs s). runnable p \<longrightarrow> p_kstack p \<noteq> 0 \<and> p_pgdir p \<noteq> 0"
    using assms(2) by (simp_all add: can_run_def)
  obtain k where k: "lk s = acquired L_ptable k" "ncli (mycpu k) = 0" "lock_free L_ptable k"
    using assms(2) by (auto simp: can_run_def only_ptable_def)
  note len = ptable_invD(1) [OF inv]
  let ?d = "dispatched i s"
  have "ptable_inv (s\<lparr>cur := Some i, ts_esp0 := p_kstack (procs s ! i) + KSTACKSIZE, cr3 := V2P (p_pgdir (procs s ! i))\<rparr>)"
    using inv by (simp add: ptable_inv_def)
  then have d: "ptable_inv ?d" unfolding dispatched_def by (rule ptable_inv_upd_proc) (use assms(4) in simp_all)
  have d2: "only_ptable ?d" "cur ?d = Some i" "p_state (procs ?d ! i) = RUNNING"
    using k assms(3) len by (auto simp: only_ptable_def dispatched_def)
  have "procs (run i ?d) = upd_ix i (\<lambda>p. p\<lparr>p_state := RUNNABLE\<rparr>) (procs ?d)"
    using assms(1,3) d d2 unfolding cpu_bound_def by blast
  also have "\<dots> = procs s"
    using assms(3,4) len by (simp add: dispatched_def upd_ix_def runnable_again)
  finally show p: "procs (turn_of run i s) = procs s" by (simp add: turn_of_def switchkvm_def)
  have "only_ptable (run i ?d)" "ptable_inv (run i ?d)"
    using assms(1,3) d d2 unfolding cpu_bound_def run_ok_def by blast+
  with p ok show "can_run (turn_of run i s)"
    unfolding can_run_def by (simp add: turn_of_def switchkvm_def ptable_inv_def only_ptable_def)
  have "p_kstack (procs s ! i) \<noteq> 0" "p_pgdir (procs s ! i) \<noteq> 0" using ok assms(3,4) len by simp_all
  then show "run_proc run i s = Ok (turn_of run i s)"
    unfolding turn_of_def by (rule run_proc_eq [OF _ _ k(1)]) (use k(2) in \<open>simp add: cli_ok_def\<close>)
qed

lemma upt_below: "set [0..<NPROC] \<subseteq> {..<NPROC}"
  by auto

lemma rr_loop_cpu_bound:
  assumes "cpu_bound run" "can_run s" "set is \<subseteq> {..<NPROC}"
  shows "rr_loop run is s = Ok (fold (turn_of run) (filter (\<lambda>i. runnable (procs s ! i)) is) s) \<and>
    can_run (fold (turn_of run) (filter (\<lambda>i. runnable (procs s ! i)) is) s) \<and>
    procs (fold (turn_of run) (filter (\<lambda>i. runnable (procs s ! i)) is) s) = procs s"
  using assms(2,3)
proof (induction "is" arbitrary: s)
  case Nil
  then show ?case by simp
next
  case (Cons i "is")
  show ?case
  proof (cases "runnable (procs s ! i)")
    case True
    then have t: "procs (turn_of run i s) = procs s" "can_run (turn_of run i s)" "run_proc run i s = Ok (turn_of run i s)"
      using turn_of_cpu_bound [OF assms(1) Cons.prems(1), of i] Cons.prems(2) by simp_all
    from Cons.IH [OF t(2)] Cons.prems(2) True t(1,3) show ?thesis by simp
  next
    case False
    with Cons show ?thesis by simp
  qed
qed

text \<open>The processes a lottery with the given winning number runs, and the count it keeps.\<close>

fun lottery_sel :: "proc list \<Rightarrow> u32 \<Rightarrow> cint \<Rightarrow> nat list \<Rightarrow> nat list" where
  "lottery_sel ps winner counter [] = []"
| "lottery_sel ps winner counter (i # is) =
     (if \<not> runnable (ps ! i) then lottery_sel ps winner counter is
      else if counter + p_tickets (ps ! i) < winner then lottery_sel ps winner (counter + p_tickets (ps ! i)) is
      else i # lottery_sel ps winner (counter + p_tickets (ps ! i)) is)"

definition counted :: "nat \<Rightarrow> 'a kproc_scheme \<Rightarrow> 'a kproc_scheme" where
  "counted i s = upd_proc i (\<lambda>p. p\<lparr>p_count := p_count p + 1\<rparr>) s"

lemma counted_can_run:
  assumes "can_run s" "i < NPROC" "runnable (procs s ! i)"
  shows "can_run (counted i s)" "runnable (procs (counted i s) ! i)"
proof -
  have inv: "ptable_inv s" using assms(1) by (simp add: can_run_def)
  note len = ptable_invD(1) [OF inv]
  have "ptable_inv (counted i s)" unfolding counted_def by (rule ptable_inv_upd_proc [OF inv]) simp_all
  moreover have "\<forall>p\<in>set (procs (counted i s)). runnable p \<longrightarrow> p_kstack p \<noteq> 0 \<and> p_pgdir p \<noteq> 0"
    using assms set_upd_ix [of i "\<lambda>p. p\<lparr>p_count := p_count p + 1\<rparr>" "procs s"] len
    by (auto simp: counted_def can_run_def)
  ultimately show "can_run (counted i s)"
    using assms(1) by (simp add: can_run_def only_ptable_def counted_def)
  show "runnable (procs (counted i s) ! i)" using assms(2,3) len by (simp add: counted_def)
qed

lemma lottery_sel_cong:
  assumes "\<And>j. j \<in> set is \<Longrightarrow> runnable (ps ! j) = runnable (qs ! j) \<and> p_tickets (ps ! j) = p_tickets (qs ! j)"
  shows "lottery_sel ps winner c is = lottery_sel qs winner c is"
  using assms by (induction "is" arbitrary: c) auto

lemma lottery_loop_cpu_bound:
  assumes "cpu_bound run" "can_run s" "set is \<subseteq> {..<NPROC}"
  shows "lottery_loop run winner c is s = Ok (fold (\<lambda>i s. turn_of run i (counted i s)) (lottery_sel (procs s) winner c is) s) \<and>
    can_run (fold (\<lambda>i s. turn_of run i (counted i s)) (lottery_sel (procs s) winner c is) s)"
  using assms(2,3)
proof (induction "is" arbitrary: s c)
  case Nil
  then show ?case by simp
next
  case (Cons i "is")
  have i: "i < NPROC" using Cons.prems(2) by simp
  show ?case
  proof (cases "runnable (procs s ! i) \<and> \<not> c + p_tickets (procs s ! i) < winner")
    case True
    then have r: "runnable (procs s ! i)" by simp
    note ct = counted_can_run [OF Cons.prems(1) i r]
    note t = turn_of_cpu_bound [OF assms(1) ct(1) i ct(2)]
    have "lottery_sel (procs (turn_of run i (counted i s))) winner c' is = lottery_sel (procs s) winner c' is" for c'
    proof (rule lottery_sel_cong)
      fix j
      assume "j \<in> set is"
      then have "j < length (procs s)"
        using Cons.prems ptable_invD(1) [of s] by (auto simp: can_run_def)
      then show "runnable (procs (turn_of run i (counted i s)) ! j) = runnable (procs s ! j) \<and>
        p_tickets (procs (turn_of run i (counted i s)) ! j) = p_tickets (procs s ! j)"
        unfolding t(1) by (simp add: counted_def nth_upd_ix)
    qed
    with Cons.IH [OF t(2), of "c + p_tickets (procs s ! i)"] Cons.prems(2) True t(3) show ?thesis
      by (simp add: Let_def counted_def)
  next
    case False
    with Cons show ?thesis by (auto simp: Let_def)
  qed
qed

text \<open>Tickets of the runnable entries before index \<open>i\<close>.\<close>

definition tickets_before :: "proc list \<Rightarrow> nat \<Rightarrow> int" where
  "tickets_before ps i = (\<Sum>j<i. if runnable (ps ! j) then sint (p_tickets (ps ! j)) else 0)"

lemma tickets_before_Suc:
  "tickets_before ps (Suc i) = tickets_before ps i + (if runnable (ps ! i) then sint (p_tickets (ps ! i)) else 0)"
  by (simp add: tickets_before_def)

lemma uint_nonneg_sint: "0 \<le> sint (x :: cint) \<Longrightarrow> uint x = sint x"
  using sint_cint(2) [of x] by (subst uint_sint) (simp add: take_bit_int_eq_self)

lemma lottery_sel_eq:
  assumes "a \<le> n" "\<forall>j<n. runnable (ps ! j) \<longrightarrow> 0 \<le> sint (p_tickets (ps ! j))"
    "tickets_before ps n < 2147483648" "sint c = tickets_before ps a"
  shows "lottery_sel ps winner c [a..<n] =
    filter (\<lambda>i. runnable (ps ! i) \<and> uint winner \<le> tickets_before ps (Suc i)) [a..<n]"
  using assms(1,4)
proof (induction "n - a" arbitrary: a c)
  case 0
  then show ?case by simp
next
  case (Suc d)
  then have a: "a < n" "[a..<n] = a # [Suc a..<n]" by (simp_all add: upt_conv_Cons)
  have mono: "tickets_before ps i \<le> tickets_before ps m" if "i \<le> m" "m \<le> n" for i m
    unfolding tickets_before_def by (rule sum_mono2) (use that assms(2) in auto)
  have nn: "0 \<le> tickets_before ps i" if "i \<le> n" for i
    using mono [of 0 i] that by (simp add: tickets_before_def)
  show ?case
  proof (cases "runnable (ps ! a)")
    case False
    then have "sint c = tickets_before ps (Suc a)" using Suc.prems(2) by (simp add: tickets_before_Suc)
    with Suc.hyps(1) [of "Suc a" c] Suc.hyps(2) a False show ?thesis by simp
  next
    case True
    let ?c = "c + p_tickets (ps ! a)"
    have s: "sint c + sint (p_tickets (ps ! a)) = tickets_before ps (Suc a)"
      using True Suc.prems(2) by (simp add: tickets_before_Suc)
    have b: "0 \<le> tickets_before ps (Suc a)" "tickets_before ps (Suc a) < 2147483648"
      using nn [of "Suc a"] mono [of "Suc a" n] a(1) assms(3) by linarith+
    have c: "sint ?c = tickets_before ps (Suc a)" using sint_add_cint [of c "p_tickets (ps ! a)"] s b by simp
    then have "uint ?c = tickets_before ps (Suc a)" using b(1) uint_nonneg_sint [of ?c] by simp
    then have "?c < winner \<longleftrightarrow> \<not> uint winner \<le> tickets_before ps (Suc a)"
      by (simp add: word_less_def not_le)
    with Suc.hyps(1) [of "Suc a" ?c] Suc.hyps(2) a c True show ?thesis by simp
  qed
qed

section \<open>Properties\<close>

text \<open>Two runnable processes, with 1 and 2 tickets, for concrete runs.\<close>

definition sched0 :: kproc where
  "sched0 = kproc0\<lparr>cur := None, nextpid := 3, procs :=
     proc_unused\<lparr>p_state := RUNNABLE, p_pid := 1, p_kstack := 0x80300000, p_pgdir := 0x80301000,
       p_tickets := 1, p_pass := 1\<rparr> #
     proc_unused\<lparr>p_state := RUNNABLE, p_pid := 2, p_kstack := 0x80303000, p_pgdir := 0x80304000,
       p_tickets := 2, p_pass := 1\<rparr> # replicate 62 proc_unused\<rparr>"

lemma sched0_simps [simp]:
  "lk sched0 = lk0" "nextpid sched0 = 3" "total_tickets sched0 = 0"
  "length (procs sched0) = 64"
  by (simp_all add: sched0_def)

lemma sched0_procs:
  "procs sched0 = proc_unused\<lparr>p_state := RUNNABLE, p_pid := 1, p_kstack := 0x80300000, p_pgdir := 0x80301000,
       p_tickets := 1, p_pass := 1\<rparr> #
     proc_unused\<lparr>p_state := RUNNABLE, p_pid := 2, p_kstack := 0x80303000, p_pgdir := 0x80304000,
       p_tickets := 2, p_pass := 1\<rparr> # replicate 62 proc_unused"
  by (simp add: sched0_def)

lemma sched0_inv: "ptable_inv sched0"
  by (auto simp: ptable_inv_def NPROC_def sched0_procs nth_Cons split: nat.splits)

lemma sched0_least: "least (procs sched0) 0"
  by (auto simp: least_def sched0_procs nth_Cons split: nat.splits)

lemma sched0_fit: "\<forall>p\<in>set (procs sched0). runnable p \<longrightarrow> fit p"
  by (auto simp: sched0_procs fit_def)

lemma sched0_fair: "fair_start 1 0 sched0"
  by (auto simp: fair_start_def sched0_procs)









lemma min_scan_append:
  "min_scan (xs @ ys) m w = (case min_scan xs m w of (m, w) \<Rightarrow> min_scan ys m w)"
  by (induction xs arbitrary: m w) auto

lemma min_scan_neg:
  assumes "sint m < 0" "\<exists>q\<in>set qs. runnable q"
  shows "min_scan qs m w = min_scan qs (-1) w'"
  using assms(2)
proof (induction qs)
  case (Cons q qs)
  then show ?case using assms(1) by (cases "runnable q") (auto simp: word_sless_alt)
qed simp

text \<open>
  C34. A flaw of the scan: it uses a negative \<open>min_pass\<close> for "none found yet", so a runnable
  process whose pass is negative (after \<open>set_tickets\<close> with a negative number, or once its
  pass has overflowed) loses to any runnable process that comes later in the table,
  although its pass is smaller.
\<close>

theorem negative_pass_never_wins:
  assumes "runnable p" "sint (p_pass p) < 0" "\<exists>q\<in>set qs. runnable q"
    "\<forall>q\<in>set qs. runnable q \<longrightarrow> 0 \<le> sint (p_pass q)"
  shows "\<exists>i. least qs i \<and> min_scan (ps @ p # qs) (-1) w = (p_pass (qs ! i), p_pid (qs ! i))"
proof -
  obtain m w' where m: "min_scan ps (-1) w = (m, w')" by fastforce
  have "min_scan (ps @ p # qs) (-1) w = min_scan qs (p_pass p) (p_pid p)"
    using m assms(1,2) by (cases "sint m < 0") (auto simp: min_scan_append word_sless_alt)
  also have "\<dots> = min_scan qs (-1) w" using assms(2,3) by (rule min_scan_neg)
  finally show ?thesis using min_scan_start [OF assms(4), of w] assms(3) by auto
qed

theorem negative_pass_never_wins_witness:
  "snd (min_scan [proc_unused\<lparr>p_state := RUNNABLE, p_pid := 1, p_pass := -10000\<rparr>,
      proc_unused\<lparr>p_state := RUNNABLE, p_pid := 2, p_pass := 5\<rparr>] (-1) 0) = 2"
  using negative_pass_never_wins [of "proc_unused\<lparr>p_state := RUNNABLE, p_pid := 1, p_pass := -10000\<rparr>"
    "[proc_unused\<lparr>p_state := RUNNABLE, p_pid := 2, p_pass := 5\<rparr>]" "[]" 0]
  by (auto simp: least_def)

lemma least_cong:
  assumes "least ps i" "length qs = length ps"
    "\<And>j. j < length ps \<Longrightarrow> p_state (qs ! j) = p_state (ps ! j) \<and> p_pass (qs ! j) = p_pass (ps ! j)"
  shows "least qs i"
proof -
  have "i < length ps" using assms(1) by (simp add: least_def)
  then have "j < length ps" if "j < i" for j using that by simp
  then show ?thesis using assms(1,2) assms(3) \<open>i < length ps\<close> by (simp add: least_def)
qed

lemma zero_stride_turns:
  assumes cb: "cpu_bound run" and inv: "ptable_inv s" "lock_free L_ptable (lk s)" "ncli (mycpu (lk s)) = 0"
    and fit: "\<forall>p\<in>set (procs s). runnable p \<longrightarrow> fit p" and i: "least (procs s) i" "stride (procs s ! i) = 0"
  shows "\<exists>w' t. scheduler_turns run n w s = Ok (w', t) \<and> procs t = upd_ix i (charged ^^ n) (procs s) \<and>
    ptable_inv t \<and> lock_free L_ptable (lk t) \<and> ncli (mycpu (lk t)) = 0"
proof (induction n)
  case 0
  then show ?case using inv by (simp add: upd_ix_def)
next
  case (Suc n)
  then obtain w' t where t: "scheduler_turns run n w s = Ok (w', t)" "procs t = upd_ix i (charged ^^ n) (procs s)"
    "ptable_inv t" "lock_free L_ptable (lk t)" "ncli (mycpu (lk t)) = 0" by blast
  have pass: "p_pass ((charged ^^ n) (procs s ! i)) = p_pass (procs s ! i)"
    using i(2) by (induction n) (simp_all add: p_pass_charged)
  have l: "length (procs t) = length (procs s)" using t(2) by simp
  have pj: "procs t ! j = (if j = i then (charged ^^ n) (procs s ! j) else procs s ! j)" if "j < length (procs s)" for j
    using that t(2) by (simp add: nth_upd_ix)
  have "least (procs t) i"
    using i(1) by (rule least_cong) (use l pj pass in simp_all)
  moreover have "fit (procs t ! j)" if "j < length (procs s)" "runnable (procs t ! j)" for j
    using fit that pj [OF that(1)] pass by (cases "j = i") (simp_all add: fit_def)
  then have "\<forall>p\<in>set (procs t). runnable p \<longrightarrow> fit p" using l by (metis in_set_conv_nth)
  ultimately obtain u where u: "scheduler_turn run w' t = Ok (p_pid (procs t ! i), u)"
    "procs u = upd_ix i charged (procs t)" "ptable_inv u" "lock_free L_ptable (lk u)" "ncli (mycpu (lk u)) = 0"
    using cpu_bound_turn [OF cb t(3,4,5), of i w'] by blast
  then show ?case using t(1,2) by (simp add: comp_def)
qed

text \<open>
  C33. With more than 10000 tickets the stride is 0: a process that never blocks and is
  first in line is dispatched at every turn, and no other process ever runs.
\<close>

theorem zero_stride_monopolizes:
  assumes "cpu_bound run" "ptable_inv s" "lock_free L_ptable (lk s)" "ncli (mycpu (lk s)) = 0"
    "\<forall>p\<in>set (procs s). runnable p \<longrightarrow> fit p" "least (procs s) i" "10000 < sint (p_tickets (procs s ! i))"
  shows "\<exists>w' t. scheduler_turns run n w s = Ok (w', t) \<and>
    p_count (procs t ! i) = p_count (procs s ! i) + of_nat n \<and> (\<forall>j. j \<noteq> i \<longrightarrow> procs t ! j = procs s ! j)"
proof -
  have "stride (procs s ! i) = 0"
    using assms(7) by (simp add: stride_def signed_divide_int_def)
  from zero_stride_turns [OF assms(1-6) this, of n w] obtain w' t where
    t: "scheduler_turns run n w s = Ok (w', t)" "procs t = upd_ix i (charged ^^ n) (procs s)" by blast
  have "i < length (procs s)" using assms(6) by (simp add: least_def)
  then show ?thesis using t by simp
qed

definition greedy0 :: kproc where
  "greedy0 = sched0\<lparr>procs := (procs sched0)[0 := (procs sched0 ! 0)\<lparr>p_tickets := 20000\<rparr>]\<rparr>"

theorem zero_stride_monopolizes_witness:
  "\<exists>w' t. scheduler_turns run_yield 100 0 greedy0 = Ok (w', t) \<and> p_count (procs t ! 0) = 100 \<and>
     p_count (procs t ! 1) = 0"
proof -
  have p: "procs greedy0 = (procs sched0 ! 0)\<lparr>p_tickets := 20000\<rparr> # tl (procs sched0)"
    by (simp add: greedy0_def sched0_procs)
  have "ptable_inv greedy0"
    by (auto simp: ptable_inv_def NPROC_def p sched0_procs nth_Cons split: nat.splits) (simp_all add: greedy0_def)
  moreover have "\<forall>p\<in>set (procs greedy0). runnable p \<longrightarrow> fit p" by (auto simp: p sched0_procs fit_def)
  moreover have "least (procs greedy0) 0" by (auto simp: p least_def sched0_procs nth_Cons split: nat.splits)
  moreover have "10000 < sint (p_tickets (procs greedy0 ! 0))" by (simp add: p)
  moreover have "lock_free L_ptable (lk greedy0)" "ncli (mycpu (lk greedy0)) = 0" by (simp_all add: greedy0_def)
  ultimately obtain w' t where "scheduler_turns run_yield 100 0 greedy0 = Ok (w', t)"
    "p_count (procs t ! 0) = p_count (procs greedy0 ! 0) + of_nat 100" "\<forall>j. j \<noteq> 0 \<longrightarrow> procs t ! j = procs greedy0 ! j"
    using zero_stride_monopolizes [OF cpu_bound_run_yield, of greedy0 0 100 0] by blast
  then show ?thesis by (auto simp: p sched0_procs proc_unused_def)
qed

text \<open>The scan of \<open>scheduler_b\<close> ends at the entry whose pid the scan of \<open>scheduler\<close> returns.\<close>

lemma cur_scan_min_scan:
  "(\<exists>j<length ps. runnable (ps ! j) \<and> cur_scan ps k m c = Some (k + j) \<and>
      min_scan ps m w = (p_pass (ps ! j), p_pid (ps ! j))) \<or>
   cur_scan ps k m c = c \<and> min_scan ps m w = (m, w) \<and> (sint m < 0 \<longrightarrow> (\<forall>p\<in>set ps. \<not> runnable p))"
proof (induction ps arbitrary: k m c w)
  case Nil
  then show ?case by simp
next
  case (Cons p ps)
  show ?case
  proof (cases "runnable p \<and> (p_pass p <s m \<or> m <s 0)")
    case True
    with Cons.IH [of "Suc k" "p_pass p" "Some k" "p_pid p"] show ?thesis
      by (auto simp: disj_commute nth_Cons split: nat.splits
          intro: exI [of _ 0] exI [of _ "Suc _"])
  next
    case False
    with Cons.IH [of "Suc k" m c w] show ?thesis
      by (auto simp: disj_commute word_sless_alt intro: exI [of _ "Suc _"])
  qed
qed



end
