(* ===== verification/Sleeplock.thy ===== *)
theory Sleeplock
  imports Proc
begin

text \<open>
  sleeplock.c: long-term locks that put waiting processes to sleep. A sleep lock is known
  by the name of the spin lock inside it. The wait loop of \<open>acquiresleep\<close> takes a bound
  on the number of sleeps: when the bound is used up the caller is still asleep, which is
  \<open>Blocked\<close>; \<open>resume\<close> is what the rest of the machine does during one sleep.
\<close>

section \<open>Definitions\<close>

record sleeplock =
  sl_locked :: u32
  sl_name :: string
  sl_pid :: cint

record kslp = kproc +
  slocks :: "lockid \<Rightarrow> sleeplock"

definition upd_slock :: "lockid \<Rightarrow> (sleeplock \<Rightarrow> sleeplock) \<Rightarrow> 'a kslp_scheme \<Rightarrow> 'a kslp_scheme" where
  "upd_slock l f s = s\<lparr>slocks := (slocks s)(l := f (slocks s l))\<rparr>"

definition initsleeplock :: "lockid \<Rightarrow> string \<Rightarrow> 'a kslp_scheme \<Rightarrow> 'a kslp_scheme" where
  "initsleeplock l name s =
     (let s = s\<lparr>lk := initlock l ''sleep lock'' (lk s)\<rparr>
      in upd_slock l (\<lambda>sl. sl\<lparr>sl_name := name, sl_locked := 0, sl_pid := 0\<rparr>) s)"

fun sleep_while_locked ::
  "nat \<Rightarrow> ('a kslp_scheme \<Rightarrow> 'a kslp_scheme) \<Rightarrow> lockid \<Rightarrow> 'a kslp_scheme \<Rightarrow> 'a kslp_scheme res" where
  "sleep_while_locked fuel resume l s =
     (if sl_locked (slocks s l) \<noteq> 0
      then case fuel of
             0 \<Rightarrow> Blocked
           | Suc fuel' \<Rightarrow> rbind (sleep resume (C_sleeplock l) (Some l) s) (sleep_while_locked fuel' resume l)
      else Ok s)"

declare sleep_while_locked.simps [simp del]

definition acquiresleep ::
  "nat \<Rightarrow> ('a kslp_scheme \<Rightarrow> 'a kslp_scheme) \<Rightarrow> lockid \<Rightarrow> 'a kslp_scheme \<Rightarrow> 'a kslp_scheme res" where
  "acquiresleep fuel resume l s =
     rbind (kacquire l s) (\<lambda>s.
     rbind (sleep_while_locked fuel resume l s) (\<lambda>s.
     with_cur s (\<lambda>i.
     krelease l (upd_slock l (\<lambda>sl. sl\<lparr>sl_locked := 1, sl_pid := p_pid (procs s ! i)\<rparr>) s))))"

definition releasesleep :: "lockid \<Rightarrow> 'a kslp_scheme \<Rightarrow> 'a kslp_scheme res" where
  "releasesleep l s =
     rbind (kacquire l s) (\<lambda>s.
     rbind (wakeup (C_sleeplock l) (upd_slock l (\<lambda>sl. sl\<lparr>sl_locked := 0, sl_pid := 0\<rparr>) s))
       (krelease l))"

definition holdingsleep :: "lockid \<Rightarrow> 'a kslp_scheme \<Rightarrow> (bool \<times> 'a kslp_scheme) res" where
  "holdingsleep l s =
     rbind (kacquire l s) (\<lambda>s.
     let r = sl_locked (slocks s l) \<noteq> 0
     in rbind (krelease l s) (\<lambda>s. Ok (r, s)))"

text \<open>The lock, taken at once or not at all: no sleep is waited for.\<close>

abbreviation acquiresleep_now :: "lockid \<Rightarrow> 'a kslp_scheme \<Rightarrow> 'a kslp_scheme res" where
  "acquiresleep_now \<equiv> acquiresleep 0 id"

section \<open>Lemmas\<close>

text \<open>
  A process runs kernel code with no spin lock held: then every balanced use of a lock
  leaves the lock state exactly as it was.
\<close>

definition quiet :: "'a kproc_scheme \<Rightarrow> bool" where
  "quiet s \<longleftrightarrow> (\<forall>l. lock_free l (lk s)) \<and> ncli (mycpu (lk s)) = 0 \<and> settled (lk s) = lk s \<and> cur s \<noteq> None"

lemma quietD:
  assumes "quiet s"
  shows "lock_free l (lk s)" "cli_ok (lk s)" "settled (lk s) = lk s" "\<exists>i. cur s = Some i"
    "ncli (mycpu (lk s)) = 0"
  using assms by (auto simp: quiet_def cli_ok_def)

lemma lk_procs_commute: "(s\<lparr>lk := k\<rparr>)\<lparr>procs := ps\<rparr> = s\<lparr>procs := ps, lk := k\<rparr>"
  for s :: "'a kproc_scheme"
  by (cases s) simp

lemma lk_slocks_commute: "(s\<lparr>lk := k\<rparr>)\<lparr>slocks := f\<rparr> = s\<lparr>slocks := f, lk := k\<rparr>"
  for s :: "'a kslp_scheme"
  by (cases s) simp

lemma acquiresleep_free:
  assumes q: "quiet s" and f: "sl_locked (slocks s l) = 0"
  shows "acquiresleep fuel resume l s = Ok (upd_slock l (\<lambda>sl. sl\<lparr>sl_locked := 1,
    sl_pid := p_pid (procs s ! the (cur s))\<rparr>) s)"
proof -
  note Q = quietD [OF q]
  obtain i where i: "cur s = Some i" using Q(4) by blast
  let ?s = "s\<lparr>lk := acquired l (lk s)\<rparr>"
  have w: "sleep_while_locked fuel resume l ?s = Ok ?s" using f by (simp add: sleep_while_locked.simps)
  let ?t = "upd_slock l (\<lambda>sl. sl\<lparr>sl_locked := 1, sl_pid := p_pid (procs s ! i)\<rparr>) ?s"
  have "krelease l ?t = Ok (?t\<lparr>lk := settled (lk s)\<rparr>)"
    by (rule krelease_acquired) (use Q in \<open>simp_all add: upd_slock_def\<close>)
  then show ?thesis
    using Q i w by (simp add: acquiresleep_def kacquire_free with_cur_def upd_slock_def lk_slocks_commute lk_update_id)
qed

lemma acquiresleep_held:
  assumes q: "quiet s" and f: "sl_locked (slocks s l) \<noteq> 0"
  shows "acquiresleep_now l s = Blocked"
  using quietD(1) [OF q, of l] f by (simp add: acquiresleep_def kacquire_free sleep_while_locked.simps)

lemma holdingsleep_eq:
  assumes q: "quiet s"
  shows "holdingsleep l s = Ok (sl_locked (slocks s l) \<noteq> 0, s)"
proof -
  note Q = quietD [OF q]
  have "krelease l (s\<lparr>lk := acquired l (lk s)\<rparr>) = Ok (s\<lparr>lk := acquired l (lk s), lk := settled (lk s)\<rparr>)"
    by (rule krelease_acquired) (use Q in simp_all)
  then show ?thesis using Q by (simp add: holdingsleep_def kacquire_free Let_def lk_update_id)
qed

lemma releasesleep_eq:
  assumes q: "quiet s" and l: "l \<noteq> L_ptable"
  shows "releasesleep l s =
    Ok (wakeup1 (Some (C_sleeplock l)) (upd_slock l (\<lambda>sl. sl\<lparr>sl_locked := 0, sl_pid := 0\<rparr>) s))"
proof -
  note Q = quietD [OF q]
  let ?t = "upd_slock l (\<lambda>sl. sl\<lparr>sl_locked := 0, sl_pid := 0\<rparr>) (s\<lparr>lk := acquired l (lk s)\<rparr>)"
  have w: "wakeup (C_sleeplock l) ?t = Ok ((wakeup1 (Some (C_sleeplock l)) ?t)\<lparr>lk := settled (lk ?t)\<rparr>)"
    by (rule wakeup_eq) (use Q l in \<open>simp_all add: upd_slock_def\<close>)
  have t: "lk ?t = acquired l (lk s)" by (simp add: upd_slock_def)
  let ?u = "(wakeup1 (Some (C_sleeplock l)) ?t)\<lparr>lk := settled (lk ?t)\<rparr>"
  have "krelease l ?u = Ok (?u\<lparr>lk := settled (lk s)\<rparr>)"
    by (rule krelease_acquired) (use Q t in simp_all)
  moreover have "?u\<lparr>lk := settled (lk s)\<rparr> =
      wakeup1 (Some (C_sleeplock l)) (upd_slock l (\<lambda>sl. sl\<lparr>sl_locked := 0, sl_pid := 0\<rparr>) s)"
    using Q(3) by (cases s) (simp add: wakeup1_def upd_slock_def)
  ultimately show ?thesis using Q(1) w by (simp add: releasesleep_def kacquire_free)
qed

lemma quiet_kacquire: "quiet s \<Longrightarrow> kacquire l s = Ok (s\<lparr>lk := acquired l (lk s)\<rparr>)"
  by (simp add: kacquire_free quietD)

lemma quiet_krelease: "quiet s \<Longrightarrow> krelease l (t\<lparr>lk := acquired l (lk s)\<rparr>) = Ok (t\<lparr>lk := lk s\<rparr>)"
  using krelease_acquired [of "t\<lparr>lk := acquired l (lk s)\<rparr>" l "lk s"] quietD [of s] by (cases t) simp

lemma wakeup_locked:
  assumes "quiet s" "l \<noteq> L_ptable"
  shows "wakeup ch (t\<lparr>lk := acquired l (lk s)\<rparr>) = Ok ((wakeup1 (Some ch) t)\<lparr>lk := acquired l (lk s)\<rparr>)"
  using wakeup_eq [of "t\<lparr>lk := acquired l (lk s)\<rparr>" ch] assms quietD [OF assms(1)]
  by (cases t) (auto simp: wakeup1_def)

lemma quiet_cong: "lk t = lk s \<Longrightarrow> cur t = cur s \<Longrightarrow> quiet t = quiet s"
  by (simp add: quiet_def)

section \<open>Properties\<close>

lemma slocks_upd_slock [simp]:
  "slocks (upd_slock l f s) l' = (if l = l' then f (slocks s l) else slocks s l')"
  "lk (upd_slock l f s) = lk s" "cur (upd_slock l f s) = cur s" "procs (upd_slock l f s) = procs s"
  by (simp_all add: upd_slock_def)

definition kslp0 :: kslp where
  "kslp0 = kproc.extend kproc0 (kslp.fields (\<lambda>_. \<lparr>sl_locked = 0, sl_name = [], sl_pid = 0\<rparr>))"

lemma kslp0_simps [simp]:
  "lk kslp0 = lk0" "cur kslp0 = Some 0" "sl_locked (slocks kslp0 l) = 0" "procs kslp0 = procs kproc0"
  by (simp_all add: kslp0_def kproc.defs kslp.defs kproc0_def kmem.defs kmem0_def kern0_def kern.defs)

lemma quiet_kslp0: "quiet kslp0"
  by (simp add: quiet_def)



end
