(* ===== verification/Bio.thy ===== *)
theory Bio
  imports Sleeplock
begin

text \<open>
  buf.h, bio.c and memide.c: the buffer cache over the memory disk. The buffers are the
  entries 0 to NBUF-1 of a table whose entry NBUF is \<open>bcache.head\<close>; pointers between
  buffers are indices into it. The disk maps block numbers to blocks; \<open>dtrace\<close> is the
  history of the writes it has performed, which no code reads. A buffer that another
  process holds makes the caller sleep: here the operation is \<open>Blocked\<close>.
\<close>

section \<open>Data\<close>

definition NBUF :: nat where "NBUF = 30"

definition BSIZE :: nat where "BSIZE = 512"

definition B_VALID :: u32 where "B_VALID = 2"

definition B_DIRTY :: u32 where "B_DIRTY = 4"

type_synonym block = "u8 list"

record buf =
  b_flags :: u32
  b_dev :: u32
  b_blockno :: u32
  b_refcnt :: u32
  b_prev :: nat
  b_next :: nat
  b_data :: block

record kbio = kslp +
  bufs :: "buf list"
  memdisk :: "u32 \<Rightarrow> block"
  disksize :: u32
  dtrace :: "(u32 \<times> block) list"

definition upd_buf :: "nat \<Rightarrow> (buf \<Rightarrow> buf) \<Rightarrow> 'a kbio_scheme \<Rightarrow> 'a kbio_scheme" where
  "upd_buf i f s = s\<lparr>bufs := upd_ix i f (bufs s)\<rparr>"

section \<open>memide.c\<close>

text \<open>\<open>ideinit\<close>: the disk is the file system image linked into the kernel.\<close>

definition ideinit :: "(u32 \<Rightarrow> block) \<Rightarrow> u32 \<Rightarrow> 'a kbio_scheme \<Rightarrow> 'a kbio_scheme" where
  "ideinit img sz s = s\<lparr>memdisk := img, disksize := sz div of_nat BSIZE\<rparr>"

definition iderw :: "nat \<Rightarrow> 'a kbio_scheme \<Rightarrow> 'a kbio_scheme res" where
  "iderw i s =
     rbind (holdingsleep (L_bufsleep i) s) (\<lambda>(h, s).
     let b = bufs s ! i
     in if \<not> h then Panic ''iderw: buf not locked''
        else if b_flags b AND (B_VALID OR B_DIRTY) = B_VALID then Panic ''iderw: nothing to do''
        else if b_dev b \<noteq> 1 then Panic ''iderw: request not for disk 1''
        else if disksize s \<le> b_blockno b then Panic ''iderw: block out of range''
        else
          let s = (if b_flags b AND B_DIRTY \<noteq> 0
                   then (upd_buf i (\<lambda>b. b\<lparr>b_flags := b_flags b AND NOT B_DIRTY\<rparr>) s)
                          \<lparr>memdisk := (memdisk s)(b_blockno b := b_data b),
                           dtrace := dtrace s @ [(b_blockno b, b_data b)]\<rparr>
                   else upd_buf i (\<lambda>b. b\<lparr>b_data := memdisk s (b_blockno b)\<rparr>) s)
          in Ok (upd_buf i (\<lambda>b. b\<lparr>b_flags := b_flags b OR B_VALID\<rparr>) s))"

section \<open>bio.c\<close>

text \<open>Putting buffer \<open>i\<close> at the front of the list, as \<open>binit\<close> and \<open>brelse\<close> do.\<close>

definition link_front :: "nat \<Rightarrow> buf list \<Rightarrow> buf list" where
  "link_front i bs =
     (let bs = upd_ix i (\<lambda>b. b\<lparr>b_next := b_next (bs ! NBUF)\<rparr>) bs;
          bs = upd_ix i (\<lambda>b. b\<lparr>b_prev := NBUF\<rparr>) bs;
          bs = upd_ix (b_next (bs ! NBUF)) (\<lambda>b. b\<lparr>b_prev := i\<rparr>) bs
      in upd_ix NBUF (\<lambda>b. b\<lparr>b_next := i\<rparr>) bs)"

definition unlink :: "nat \<Rightarrow> buf list \<Rightarrow> buf list" where
  "unlink i bs =
     (let bs = upd_ix (b_next (bs ! i)) (\<lambda>b. b\<lparr>b_prev := b_prev (bs ! i)\<rparr>) bs
      in upd_ix (b_prev (bs ! i)) (\<lambda>b. b\<lparr>b_next := b_next (bs ! i)\<rparr>) bs)"

definition binit :: "'a kbio_scheme \<Rightarrow> 'a kbio_scheme" where
  "binit s =
     (let s = s\<lparr>lk := initlock L_bcache ''bcache'' (lk s)\<rparr>;
          s = upd_buf NBUF (\<lambda>b. b\<lparr>b_prev := NBUF, b_next := NBUF\<rparr>) s
      in fold (\<lambda>i s. initsleeplock (L_bufsleep i) ''buffer'' (s\<lparr>bufs := link_front i (bufs s)\<rparr>)) [0..<NBUF] s)"

text \<open>The two searches of \<open>bget\<close>; the fuel NBUF + 1 covers every buffer of the list.\<close>

fun scan_next :: "nat \<Rightarrow> (buf \<Rightarrow> bool) \<Rightarrow> buf list \<Rightarrow> nat \<Rightarrow> nat option res" where
  "scan_next 0 P bs b = Blocked"
| "scan_next (Suc fuel) P bs b =
     (if b = NBUF then Ok None
      else if P (bs ! b) then Ok (Some b)
      else scan_next fuel P bs (b_next (bs ! b)))"

fun scan_prev :: "nat \<Rightarrow> (buf \<Rightarrow> bool) \<Rightarrow> buf list \<Rightarrow> nat \<Rightarrow> nat option res" where
  "scan_prev 0 P bs b = Blocked"
| "scan_prev (Suc fuel) P bs b =
     (if b = NBUF then Ok None
      else if P (bs ! b) then Ok (Some b)
      else scan_prev fuel P bs (b_prev (bs ! b)))"

definition bget :: "u32 \<Rightarrow> u32 \<Rightarrow> 'a kbio_scheme \<Rightarrow> (nat \<times> 'a kbio_scheme) res" where
  "bget dev blockno s =
     rbind (kacquire L_bcache s) (\<lambda>s.
     rbind (scan_next (NBUF + 1) (\<lambda>b. b_dev b = dev \<and> b_blockno b = blockno) (bufs s) (b_next (bufs s ! NBUF))) (\<lambda>r.
     case r of
       Some i \<Rightarrow>
         rbind (krelease L_bcache (upd_buf i (\<lambda>b. b\<lparr>b_refcnt := b_refcnt b + 1\<rparr>) s)) (\<lambda>s.
         rbind (acquiresleep_now (L_bufsleep i) s) (\<lambda>s. Ok (i, s)))
     | None \<Rightarrow>
         rbind (scan_prev (NBUF + 1) (\<lambda>b. b_refcnt b = 0 \<and> b_flags b AND B_DIRTY = 0) (bufs s) (b_prev (bufs s ! NBUF))) (\<lambda>r.
         case r of
           Some i \<Rightarrow>
             rbind (krelease L_bcache (upd_buf i (\<lambda>b. b\<lparr>b_dev := dev, b_blockno := blockno, b_flags := 0, b_refcnt := 1\<rparr>) s)) (\<lambda>s.
             rbind (acquiresleep_now (L_bufsleep i) s) (\<lambda>s. Ok (i, s)))
         | None \<Rightarrow> Panic ''bget: no buffers'')))"

definition bread :: "u32 \<Rightarrow> u32 \<Rightarrow> 'a kbio_scheme \<Rightarrow> (nat \<times> 'a kbio_scheme) res" where
  "bread dev blockno s =
     rbind (bget dev blockno s) (\<lambda>(i, s).
     if b_flags (bufs s ! i) AND B_VALID = 0
     then rbind (iderw i s) (\<lambda>s. Ok (i, s)) else Ok (i, s))"

definition bwrite :: "nat \<Rightarrow> 'a kbio_scheme \<Rightarrow> 'a kbio_scheme res" where
  "bwrite i s =
     rbind (holdingsleep (L_bufsleep i) s) (\<lambda>(h, s).
     if \<not> h then Panic ''bwrite''
     else iderw i (upd_buf i (\<lambda>b. b\<lparr>b_flags := b_flags b OR B_DIRTY\<rparr>) s))"

definition brelse :: "nat \<Rightarrow> 'a kbio_scheme \<Rightarrow> 'a kbio_scheme res" where
  "brelse i s =
     rbind (holdingsleep (L_bufsleep i) s) (\<lambda>(h, s).
     if \<not> h then Panic ''brelse''
     else
       rbind (releasesleep (L_bufsleep i) s) (\<lambda>s.
       rbind (kacquire L_bcache s) (\<lambda>s.
       let s = upd_buf i (\<lambda>b. b\<lparr>b_refcnt := b_refcnt b - 1\<rparr>) s;
           s = (if b_refcnt (bufs s ! i) = 0 then s\<lparr>bufs := link_front i (unlink i (bufs s))\<rparr> else s)
       in krelease L_bcache s)))"

section \<open>The list of buffers\<close>

text \<open>\<open>seg bs a xs z\<close>: the links lead from \<open>a\<close> through \<open>xs\<close> to \<open>z\<close>, and back.\<close>

fun seg :: "buf list \<Rightarrow> nat \<Rightarrow> nat list \<Rightarrow> nat \<Rightarrow> bool" where
  "seg bs a [] z \<longleftrightarrow> b_next (bs ! a) = z \<and> b_prev (bs ! z) = a"
| "seg bs a (x # xs) z \<longleftrightarrow> b_next (bs ! a) = x \<and> b_prev (bs ! x) = a \<and> seg bs x xs z"

text \<open>\<open>xs\<close> lists all buffers, most recently used first.\<close>

definition lru :: "buf list \<Rightarrow> nat list \<Rightarrow> bool" where
  "lru bs xs \<longleftrightarrow> length bs = NBUF + 1 \<and> seg bs NBUF xs NBUF \<and> distinct xs \<and> set xs = {..<NBUF}"

lemma seg_append: "seg bs a (xs @ y # ys) z \<longleftrightarrow> seg bs a xs y \<and> seg bs y ys z"
  by (induction xs arbitrary: a) auto

lemma seg_ends:
  assumes "seg bs a xs z"
  shows "b_next (bs ! a) = hd (xs @ [z])" "b_prev (bs ! z) = last (a # xs)"
  using assms by (induction xs arbitrary: a) auto

lemma seg_cong:
  assumes "\<And>i. i \<in> set (a # xs) \<Longrightarrow> b_next (bs ! i) = b_next (cs ! i)"
    "\<And>i. i \<in> set (xs @ [z]) \<Longrightarrow> b_prev (bs ! i) = b_prev (cs ! i)"
  shows "seg bs a xs z = seg cs a xs z"
  using assms by (induction xs arbitrary: a) auto

lemma scan_next_eq:
  assumes "seg bs a xs NBUF" "NBUF \<notin> set xs" "length xs < fuel"
  shows "scan_next fuel P bs (b_next (bs ! a)) = Ok (find (\<lambda>i. P (bs ! i)) xs)"
  using assms
proof (induction xs arbitrary: a fuel)
  case Nil
  then show ?case by (cases fuel) auto
next
  case (Cons x xs)
  then obtain f where "fuel = Suc f" by (cases fuel) auto
  with Cons show ?case by auto
qed

lemma scan_prev_eq:
  assumes "seg bs NBUF xs z" "NBUF \<notin> set xs" "length xs < fuel"
  shows "scan_prev fuel P bs (b_prev (bs ! z)) = Ok (find (\<lambda>i. P (bs ! i)) (rev xs))"
  using assms
proof (induction xs arbitrary: z fuel rule: rev_induct)
  case Nil
  then show ?case by (cases fuel) auto
next
  case (snoc x xs)
  then obtain f where "fuel = Suc f" by (cases fuel) auto
  with snoc show ?case by (auto simp: seg_append)
qed

text \<open>Taking an element out of the list and putting it at the front.\<close>

lemma nth_upd_ix_if: "i < length xs \<Longrightarrow> upd_ix j f xs ! i = (if i = j then f (xs ! i) else xs ! i)"
  by (simp add: nth_upd_ix)

lemma seg_unlink:
  assumes sg: "seg bs a (xs @ i # ys) z" and ne: "i \<noteq> a" "i \<noteq> z" and d: "distinct (xs @ i # ys)"
    and az: "a \<notin> set (xs @ ys)" "z \<notin> set (xs @ ys)"
    and len: "set (a # z # xs @ i # ys) \<subseteq> {..<length bs}"
  shows "seg (unlink i bs) a (xs @ ys) z"
proof -
  define n where "n = hd (ys @ [z])"
  define p where "p = last (a # xs)"
  have s: "seg bs a xs i" "seg bs i ys z" using sg by (simp_all add: seg_append)
  have e: "b_next (bs ! i) = n" "b_prev (bs ! i) = p"
    using seg_ends(1) [OF s(2)] seg_ends(2) [OF s(1)] by (simp_all add: n_def p_def)
  have pn: "p \<in> set (a # xs)" "n \<in> set (ys @ [z])"
    unfolding p_def n_def by (rule last_in_set, simp) (rule hd_in_set, simp)
  have il: "i < length bs" "p < length bs" "n < length bs" using len pn by auto
  have pi: "p \<noteq> i" "n \<noteq> i" using pn ne d by auto
  have un: "unlink i bs ! k = (bs ! k)\<lparr>b_prev := (if k = n then p else b_prev (bs ! k)),
      b_next := (if k = p then n else b_next (bs ! k))\<rparr>" if "k < length bs" for k
    using that il pi e by (simp add: unlink_def Let_def nth_upd_ix_if)
  let ?bs = "unlink i bs"
  have nx: "b_next (?bs ! k) = (if k = p then n else b_next (bs ! k))" and
    pr: "b_prev (?bs ! k) = (if k = n then p else b_prev (bs ! k))" if "k < length bs" for k
    using un [OF that] by simp_all
  have front: "seg ?bs a' xs' y" if "seg bs a' xs' i" "xs = pre @ xs'" "last (a # pre) = a'" "y = n" "set xs' \<subseteq> set xs" for a' xs' y pre
    using that
  proof (induction xs' arbitrary: a' pre)
    case Nil
    then have "a' = p" by (simp add: p_def)
    then show ?case using Nil il by (simp add: nx pr)
  next
    case (Cons x xs')
    have "x \<in> set xs" using Cons.prems(5) by simp
    have a': "a' \<in> set (a # pre)" using Cons.prems(3) last_in_set [of "a # pre"] by simp
    have "a' \<noteq> p"
    proof
      assume "a' = p"
      then have "a' \<in> set (x # xs')" using Cons.prems(2) by (auto simp: p_def last_append)
      then show False using a' Cons.prems(2) az(1) d by auto
    qed
    moreover have "x \<noteq> n" using \<open>x \<in> set xs\<close> pn(2) d az(2) by auto
    moreover have "a' < length bs" "x < length bs" using a' Cons.prems(2) len by auto
    moreover have "seg ?bs x xs' y"
      by (rule Cons.IH [where pre = "pre @ [x]"]) (use Cons.prems in auto)
    ultimately show ?case using Cons.prems(1,4) by (simp add: nx pr)
  qed
  have fr: "seg ?bs a xs n" by (rule front [where pre = "[]"]) (use s(1) in simp_all)
  show ?thesis
  proof (cases ys)
    case Nil
    then show ?thesis using fr by (simp add: n_def)
  next
    case (Cons y ys')
    then have ny: "n = y" by (simp add: n_def)
    have yl: "set (y # ys') \<subseteq> {..<length bs}" "z < length bs" using len Cons by auto
    have "p \<notin> set (y # ys')" using pn(1) d az(1) Cons by auto
    moreover have "n \<notin> set (ys' @ [z])" using ny d az(2) Cons by auto
    ultimately have "seg ?bs y ys' z = seg bs y ys' z"
      using yl by (intro seg_cong) (auto simp: nx pr)
    then have "seg ?bs y ys' z" using s(2) Cons by simp
    then show ?thesis using fr Cons ny by (simp add: seg_append)
  qed
qed

lemma length_links [simp]: "length (unlink i bs) = length bs" "length (link_front i bs) = length bs"
  by (simp_all add: unlink_def link_front_def Let_def)

lemma links_fields [simp]:
  assumes "k < length bs"
  shows "b_flags (unlink i bs ! k) = b_flags (bs ! k)" "b_dev (unlink i bs ! k) = b_dev (bs ! k)"
    "b_blockno (unlink i bs ! k) = b_blockno (bs ! k)" "b_refcnt (unlink i bs ! k) = b_refcnt (bs ! k)"
    "b_data (unlink i bs ! k) = b_data (bs ! k)"
    "b_flags (link_front i bs ! k) = b_flags (bs ! k)" "b_dev (link_front i bs ! k) = b_dev (bs ! k)"
    "b_blockno (link_front i bs ! k) = b_blockno (bs ! k)" "b_refcnt (link_front i bs ! k) = b_refcnt (bs ! k)"
    "b_data (link_front i bs ! k) = b_data (bs ! k)"
  using assms by (simp_all add: unlink_def link_front_def Let_def nth_upd_ix_if)

lemma seg_link_front:
  assumes sg: "seg bs NBUF xs NBUF" and i: "i \<notin> set xs" "i < NBUF" and d: "distinct xs" "NBUF \<notin> set xs"
    and len: "set xs \<subseteq> {..<length bs}" "NBUF < length bs"
  shows "seg (link_front i bs) NBUF (i # xs) NBUF"
proof -
  define n where "n = hd (xs @ [NBUF])"
  have e: "b_next (bs ! NBUF) = n" using seg_ends(1) [OF sg] by (simp add: n_def)
  have "n \<in> set (xs @ [NBUF])" unfolding n_def by (rule hd_in_set) simp
  then have ni: "n \<noteq> i" "n < length bs" using i len by auto
  have lf: "link_front i bs ! k = (if k = i then (bs ! k)\<lparr>b_next := n, b_prev := NBUF\<rparr>
      else (bs ! k)\<lparr>b_prev := (if k = n then i else b_prev (bs ! k)), b_next := (if k = NBUF then i else b_next (bs ! k))\<rparr>)"
    if "k < length bs" for k
    using that i(2) ni e len(2) by (auto simp: link_front_def Let_def nth_upd_ix_if)
  let ?bs = "link_front i bs"
  have ends: "b_next (?bs ! NBUF) = i" "b_prev (?bs ! i) = NBUF" "b_next (?bs ! i) = n" "b_prev (?bs ! n) = i"
    using lf [OF len(2)] lf [of i] lf [OF ni(2)] i(2) len(2) ni(1) by auto
  show ?thesis
  proof (cases xs)
    case Nil
    then show ?thesis using ends by (simp add: n_def)
  next
    case (Cons x ys)
    then have nx: "n = x" by (simp add: n_def)
    have "seg ?bs x ys NBUF = seg bs x ys NBUF"
    proof (rule seg_cong)
      fix k
      assume "k \<in> set (x # ys)"
      then show "b_next (?bs ! k) = b_next (bs ! k)" using lf [of k] len i d Cons by auto
    next
      fix k
      assume "k \<in> set (ys @ [NBUF])"
      then have "k < length bs" "k \<noteq> i" "k \<noteq> n" using len i d Cons nx by auto
      then show "b_prev (?bs ! k) = b_prev (bs ! k)" using lf [of k] by simp
    qed
    then show ?thesis using sg Cons ends nx by simp
  qed
qed

lemma lru_front:
  assumes "lru bs xs" "i < NBUF"
  shows "lru (link_front i (unlink i bs)) (i # remove1 i xs)"
proof -
  have l: "length bs = NBUF + 1" "seg bs NBUF xs NBUF" "distinct xs" "set xs = {..<NBUF}"
    using assms(1) by (simp_all add: lru_def)
  obtain ys zs where xs: "xs = ys @ i # zs" using assms(2) l(4) by (metis lessThan_iff split_list)
  have ni: "i \<notin> set ys" "i \<notin> set zs" using l(3) xs by auto
  have r: "remove1 i xs = ys @ zs" using ni xs by (simp add: remove1_append)
  have sub: "set (ys @ zs) \<subseteq> {..<NBUF}" using l(4) xs by auto
  have "seg (unlink i bs) NBUF (ys @ zs) NBUF"
    by (rule seg_unlink) (use l xs assms(2) in auto)
  then have "seg (link_front i (unlink i bs)) NBUF (i # ys @ zs) NBUF"
    by (rule seg_link_front) (use l xs ni sub assms(2) in auto)
  moreover have "set (i # ys @ zs) = {..<NBUF}" using l(4) xs by auto
  ultimately show ?thesis unfolding lru_def r using l(1,3) xs ni by auto
qed

lemma lru_links:
  assumes "lru bs xs" "length cs = length bs"
    "\<And>k. k \<le> NBUF \<Longrightarrow> b_next (cs ! k) = b_next (bs ! k) \<and> b_prev (cs ! k) = b_prev (bs ! k)"
  shows "lru cs xs"
proof -
  have "seg cs NBUF xs NBUF = seg bs NBUF xs NBUF"
    by (rule seg_cong) (use assms in \<open>auto simp: lru_def\<close>)
  then show ?thesis using assms(1,2) by (simp add: lru_def)
qed

lemma lru_scans:
  assumes "lru bs xs"
  shows "scan_next (NBUF + 1) P bs (b_next (bs ! NBUF)) = Ok (find (\<lambda>i. P (bs ! i)) xs)"
    "scan_prev (NBUF + 1) P bs (b_prev (bs ! NBUF)) = Ok (find (\<lambda>i. P (bs ! i)) (rev xs))"
proof -
  have l: "seg bs NBUF xs NBUF" "distinct xs" "set xs = {..<NBUF}" using assms by (simp_all add: lru_def)
  have "length xs = NBUF" using distinct_card [OF l(2)] l(3) by simp
  then have len: "length xs < NBUF + 1" and n: "NBUF \<notin> set xs" using l(3) by simp_all
  show "scan_next (NBUF + 1) P bs (b_next (bs ! NBUF)) = Ok (find (\<lambda>i. P (bs ! i)) xs)"
    by (rule scan_next_eq [OF l(1) n len])
  show "scan_prev (NBUF + 1) P bs (b_prev (bs ! NBUF)) = Ok (find (\<lambda>i. P (bs ! i)) (rev xs))"
    by (rule scan_prev_eq [OF l(1) n len])
qed

declare scan_next.simps [simp del] scan_prev.simps [simp del]

section \<open>The cache invariant and the view of the disk through the cache\<close>

abbreviation bvalid :: "buf \<Rightarrow> bool" where
  "bvalid b \<equiv> b_flags b AND B_VALID \<noteq> 0"

abbreviation bdirty :: "buf \<Rightarrow> bool" where
  "bdirty b \<equiv> b_flags b AND B_DIRTY \<noteq> 0"

abbreviation blocked :: "'a kslp_scheme \<Rightarrow> nat \<Rightarrow> bool" where
  "blocked s i \<equiv> sl_locked (slocks s (L_bufsleep i)) \<noteq> 0"

lemma flag_bits: "f AND B_VALID \<noteq> 0 \<longleftrightarrow> bit f 1" "f AND B_DIRTY \<noteq> 0 \<longleftrightarrow> bit f 2" for f :: u32
proof -
  have e: "B_VALID = 2 ^ 1" "B_DIRTY = 2 ^ 2" by (simp_all add: B_VALID_def B_DIRTY_def)
  show "f AND B_VALID \<noteq> 0 \<longleftrightarrow> bit f 1" unfolding e(1) and_exp_eq_0_iff_not_bit by simp
  show "f AND B_DIRTY \<noteq> 0 \<longleftrightarrow> bit f 2" unfolding e(2) and_exp_eq_0_iff_not_bit by simp
qed

lemma bit_flags: "bit B_VALID n \<longleftrightarrow> n = 1" "bit B_DIRTY n \<longleftrightarrow> n = 2"
proof -
  have e: "B_VALID = 2 ^ 1" "B_DIRTY = 2 ^ 2" by (simp_all add: B_VALID_def B_DIRTY_def)
  show "bit B_VALID n \<longleftrightarrow> n = 1" "bit B_DIRTY n \<longleftrightarrow> n = 2"
    unfolding e bit_exp_iff by (auto simp: possible_bit_def)
qed

lemma flag_ops [simp]:
  "(f OR B_DIRTY) AND B_VALID = 0 \<longleftrightarrow> f AND B_VALID = 0" "(f OR B_VALID) AND B_DIRTY = 0 \<longleftrightarrow> f AND B_DIRTY = 0"
  "(f AND NOT B_DIRTY) AND B_VALID = 0 \<longleftrightarrow> f AND B_VALID = 0" "(f AND NOT B_DIRTY) AND B_DIRTY = 0"
  "((f AND NOT B_DIRTY) OR B_VALID) AND B_DIRTY = 0" "B_VALID \<noteq> 0" "B_DIRTY \<noteq> 0"
  for f :: u32
proof -
  note b = bit_or_iff bit_and_iff bit_not_iff bit_flags
  show "(f OR B_DIRTY) AND B_VALID = 0 \<longleftrightarrow> f AND B_VALID = 0" "(f OR B_VALID) AND B_DIRTY = 0 \<longleftrightarrow> f AND B_DIRTY = 0"
    "(f AND NOT B_DIRTY) AND B_VALID = 0 \<longleftrightarrow> f AND B_VALID = 0" "(f AND NOT B_DIRTY) AND B_DIRTY = 0"
    "((f AND NOT B_DIRTY) OR B_VALID) AND B_DIRTY = 0"
    using flag_bits [of "f OR B_DIRTY"] flag_bits [of "f OR B_VALID"] flag_bits [of "f AND NOT B_DIRTY"]
      flag_bits [of f] flag_bits [of "(f AND NOT B_DIRTY) OR B_VALID"] unfolding b
    by (simp_all (no_asm_use) add: possible_bit_def) blast+
  show "B_VALID \<noteq> 0" "B_DIRTY \<noteq> 0" by (simp_all add: B_VALID_def B_DIRTY_def)
qed

lemma flags_nothing_to_do: "f AND (B_VALID OR B_DIRTY) = B_VALID \<longleftrightarrow> f AND B_VALID \<noteq> 0 \<and> f AND B_DIRTY = 0"
  for f :: u32
proof
  assume e: "f AND (B_VALID OR B_DIRTY) = B_VALID"
  have "bit (f AND (B_VALID OR B_DIRTY)) 1" "\<not> bit (f AND (B_VALID OR B_DIRTY)) 2"
    unfolding e by (simp_all add: bit_flags)
  then have "bit f 1" "\<not> bit f 2" by (simp_all add: bit_and_iff bit_or_iff bit_flags)
  then show "f AND B_VALID \<noteq> 0 \<and> f AND B_DIRTY = 0" using flag_bits [of f] by blast
next
  assume "f AND B_VALID \<noteq> 0 \<and> f AND B_DIRTY = 0"
  then have "bit f 1" "\<not> bit f 2" using flag_bits [of f] by blast+
  then show "f AND (B_VALID OR B_DIRTY) = B_VALID"
    by (intro bit_eqI) (auto simp: bit_and_iff bit_or_iff bit_flags)
qed

text \<open>
  Between operations, and while no process waits for a buffer: the links form one list
  of all buffers; exactly the locked buffers are referenced; a buffer is either unused
  (device 0) or holds a block of disk 1, no block twice; and what is neither in use nor
  pinned by the log agrees with the disk.
\<close>

definition buf_ok :: "'a kbio_scheme \<Rightarrow> nat \<Rightarrow> bool" where
  "buf_ok s i \<longleftrightarrow> b_refcnt (bufs s ! i) = (if blocked s i then 1 else 0) \<and>
     (b_dev (bufs s ! i) = 0 \<and> \<not> bdirty (bufs s ! i) \<and> \<not> blocked s i \<or>
      b_dev (bufs s ! i) = 1 \<and> b_blockno (bufs s ! i) < disksize s \<and> bvalid (bufs s ! i) \<and>
      (blocked s i \<or> bdirty (bufs s ! i) \<or> b_data (bufs s ! i) = memdisk s (b_blockno (bufs s ! i))))"

definition bio_inv :: "'a kbio_scheme \<Rightarrow> bool" where
  "bio_inv s \<longleftrightarrow> (\<exists>xs. lru (bufs s) xs) \<and> (\<forall>i<NBUF. buf_ok s i) \<and>
     (\<forall>i<NBUF. \<forall>j<NBUF. b_dev (bufs s ! i) = 1 \<and> b_dev (bufs s ! j) = 1 \<and>
        b_blockno (bufs s ! i) = b_blockno (bufs s ! j) \<longrightarrow> i = j)"

definition cached :: "'a kbio_scheme \<Rightarrow> nat \<Rightarrow> u32 \<Rightarrow> bool" where
  "cached s i b \<longleftrightarrow> i < NBUF \<and> b_dev (bufs s ! i) = 1 \<and> b_blockno (bufs s ! i) = b"

definition bheld :: "'a kbio_scheme \<Rightarrow> nat \<Rightarrow> u32 \<Rightarrow> bool" where
  "bheld s i b \<longleftrightarrow> cached s i b \<and> blocked s i"

definition bpinned :: "'a kbio_scheme \<Rightarrow> u32 set" where
  "bpinned s = {b. \<exists>i. cached s i b \<and> bdirty (bufs s ! i)}"

text \<open>The contents of block \<open>b\<close> as the kernel sees it: the cached copy if there is one.\<close>

definition blk :: "'a kbio_scheme \<Rightarrow> u32 \<Rightarrow> block" where
  "blk s b = (case first_ix (\<lambda>x. b_dev x = 1 \<and> b_blockno x = b) (take NBUF (bufs s)) of
     Some i \<Rightarrow> b_data (bufs s ! i) | None \<Rightarrow> memdisk s b)"

lemma bio_invD:
  assumes "bio_inv s"
  shows "\<exists>xs. lru (bufs s) xs" "length (bufs s) = NBUF + 1" "i < NBUF \<Longrightarrow> buf_ok s i"
    "cached s i b \<Longrightarrow> cached s j b \<Longrightarrow> i = j"
proof -
  have "\<exists>xs. lru (bufs s) xs" using assms unfolding bio_inv_def by blast
  then show "\<exists>xs. lru (bufs s) xs" "length (bufs s) = NBUF + 1" by (auto simp: lru_def)
  show "i < NBUF \<Longrightarrow> buf_ok s i" using assms unfolding bio_inv_def by blast
  show "cached s i b \<Longrightarrow> cached s j b \<Longrightarrow> i = j"
    using assms unfolding bio_inv_def cached_def by metis
qed

lemma blk_cached:
  assumes "bio_inv s" "cached s i b"
  shows "blk s b = b_data (bufs s ! i)"
proof -
  have l: "length (bufs s) = NBUF + 1" using assms(1) by (rule bio_invD)
  have "first_ix (\<lambda>x. b_dev x = 1 \<and> b_blockno x = b) (take NBUF (bufs s)) = Some i"
    unfolding first_ix_Some_iff
  proof (intro conjI allI impI)
    fix j
    assume "j < i"
    then have "\<not> cached s j b" using bio_invD(4) [OF assms, of j] by auto
    then show "\<not> (b_dev (take NBUF (bufs s) ! j) = 1 \<and> b_blockno (take NBUF (bufs s) ! j) = b)"
      using \<open>j < i\<close> assms(2) by (simp add: cached_def)
  qed (use assms(2) l in \<open>simp_all add: cached_def\<close>)
  then show ?thesis by (simp add: blk_def)
qed

lemma blk_uncached:
  assumes "length (bufs s) = NBUF + 1" "\<And>i. \<not> cached s i b"
  shows "blk s b = memdisk s b"
proof -
  have "first_ix (\<lambda>x. b_dev x = 1 \<and> b_blockno x = b) (take NBUF (bufs s)) = None"
    unfolding first_ix_None_iff
  proof
    fix x
    assume "x \<in> set (take NBUF (bufs s))"
    then obtain i where "i < NBUF" "x = bufs s ! i" using assms(1) by (auto simp: in_set_conv_nth)
    then show "\<not> (b_dev x = 1 \<and> b_blockno x = b)" using assms(2) [of i] by (simp add: cached_def)
  qed
  then show ?thesis by (simp add: blk_def)
qed

text \<open>The payload of a buffer, everything but its links.\<close>

definition same_buf :: "buf \<Rightarrow> buf \<Rightarrow> bool" where
  "same_buf x y \<longleftrightarrow> b_flags x = b_flags y \<and> b_dev x = b_dev y \<and> b_blockno x = b_blockno y \<and>
     b_refcnt x = b_refcnt y \<and> b_data x = b_data y"

text \<open>
  One buffer \<open>i\<close> changes, and ends up with block \<open>b\<close>: the invariant is kept and the view
  changes at \<open>b\<close> only, provided a block that buffer \<open>i\<close> gives up is in step with the disk.
\<close>

lemma bio_update:
  assumes inv: "bio_inv s" and i: "i < NBUF" and lru: "lru (bufs t) xs"
    and others: "\<And>j. j < NBUF \<Longrightarrow> j \<noteq> i \<Longrightarrow> same_buf (bufs t ! j) (bufs s ! j) \<and> blocked t j = blocked s j"
    and ok: "buf_ok t i" "b_dev (bufs t ! i) = 1" "b_blockno (bufs t ! i) = b"
    and nc: "\<And>j. j \<noteq> i \<Longrightarrow> \<not> cached s j b"
    and disk: "\<And>c. c \<noteq> b \<Longrightarrow> memdisk t c = memdisk s c" "disksize t = disksize s"
    and evict: "\<And>c. c \<noteq> b \<Longrightarrow> cached s i c \<Longrightarrow> b_data (bufs s ! i) = memdisk s c"
  shows "bio_inv t" "cached t j c \<longleftrightarrow> (if j = i then c = b else cached s j c)"
    "blk t = (blk s)(b := b_data (bufs t ! i))"
proof -
  have ca: "cached t j c \<longleftrightarrow> (if j = i then c = b else cached s j c)" for j c
    using others [of j] ok(2,3) i by (auto simp: cached_def same_buf_def)
  show "cached t j c \<longleftrightarrow> (if j = i then c = b else cached s j c)" by (rule ca)
  have "buf_ok t j" if "j < NBUF" for j
  proof (cases "j = i")
    case False
    have "b_dev (bufs s ! j) = 1 \<Longrightarrow> b_blockno (bufs s ! j) \<noteq> b"
      using nc [OF False] that by (simp add: cached_def)
    then show ?thesis
      using bio_invD(3) [OF inv that] others [OF that False] disk(2) disk(1) [of "b_blockno (bufs s ! j)"]
      unfolding buf_ok_def same_buf_def by metis
  qed (simp add: ok(1))
  moreover have "a = j" if "cached t a c" "cached t j c" for a j c
    using that ca [of a c] ca [of j c] nc bio_invD(4) [OF inv, of a c j] by (metis (full_types))
  ultimately show inv': "bio_inv t"
    unfolding bio_inv_def using lru by (metis cached_def)
  show "blk t = (blk s)(b := b_data (bufs t ! i))"
  proof
    fix c
    have lt: "length (bufs t) = NBUF + 1" using lru by (simp add: lru_def)
    show "blk t c = ((blk s)(b := b_data (bufs t ! i))) c"
    proof (cases "c = b")
      case True
      then show ?thesis using blk_cached [OF inv', of i b] ca [of i b] by simp
    next
      case False
      show ?thesis
      proof (cases "\<exists>j. j \<noteq> i \<and> cached s j c")
        case True
        then obtain j where j: "j \<noteq> i" "cached s j c" by blast
        then have "blk t c = b_data (bufs t ! j)" using ca by (intro blk_cached [OF inv']) simp
        also have "\<dots> = blk s c"
          using others [of j] j blk_cached [OF inv j(2)] by (simp add: cached_def same_buf_def)
        finally show ?thesis using False by simp
      next
        case none: False
        then have "blk t c = memdisk t c" using ca False by (intro blk_uncached [OF lt]) metis
        moreover have "blk s c = memdisk s c"
        proof (cases "cached s i c")
          case True
          then show ?thesis using blk_cached [OF inv True] evict [OF False] by simp
        next
          case nci: False
          then show ?thesis using none by (intro blk_uncached [OF bio_invD(2) [OF inv]]) metis
        qed
        ultimately show ?thesis using False disk(1) by simp
      qed
    qed
  qed
qed

section \<open>The operations\<close>

lemma upd_buf_simps [simp]:
  "bufs (upd_buf i f s) = upd_ix i f (bufs s)" "lk (upd_buf i f s) = lk s" "cur (upd_buf i f s) = cur s"
  "slocks (upd_buf i f s) = slocks s" "memdisk (upd_buf i f s) = memdisk s" "procs (upd_buf i f s) = procs s"
  "disksize (upd_buf i f s) = disksize s" "dtrace (upd_buf i f s) = dtrace s"
  by (simp_all add: upd_buf_def)

lemma upd_buf_upd_buf [simp]: "upd_buf i f (upd_buf i g s) = upd_buf i (f \<circ> g) s"
  by (simp add: upd_buf_def)

lemma slock_frame [simp]:
  "bufs (upd_slock l f s) = bufs s" "memdisk (upd_slock l f s) = memdisk s"
  "disksize (upd_slock l f s) = disksize s" "dtrace (upd_slock l f s) = dtrace s"
  for s :: "'a kbio_scheme"
  by (simp_all add: upd_slock_def)

lemma quiet_upd [simp]:
  "quiet (upd_buf i f s) = quiet s" "quiet (upd_slock l g s) = quiet s"
  for s :: "'a kbio_scheme"
  by (simp_all add: quiet_def)

lemma iderw_read:
  assumes "quiet s" "blocked s i" "b_flags (bufs s ! i) = 0" "b_dev (bufs s ! i) = 1"
    "b_blockno (bufs s ! i) < disksize s" "i < length (bufs s)"
  shows "iderw i s = Ok (upd_buf i (\<lambda>b. b\<lparr>b_data := memdisk s (b_blockno b), b_flags := B_VALID\<rparr>) s)"
  using assms by (simp add: iderw_def holdingsleep_eq Let_def comp_def upd_buf_def upd_ix_def)

lemma iderw_write:
  assumes "quiet s" "blocked s i" "bdirty (bufs s ! i)" "b_dev (bufs s ! i) = 1"
    "b_blockno (bufs s ! i) < disksize s"
  shows "iderw i s = Ok ((upd_buf i (\<lambda>b. b\<lparr>b_flags := (b_flags b AND NOT B_DIRTY) OR B_VALID\<rparr>) s)
    \<lparr>memdisk := (memdisk s)(b_blockno (bufs s ! i) := b_data (bufs s ! i)),
     dtrace := dtrace s @ [(b_blockno (bufs s ! i), b_data (bufs s ! i))]\<rparr>)"
  using assms
  by (simp add: iderw_def holdingsleep_eq Let_def flags_nothing_to_do not_le upd_buf_def comp_def)

lemma bcache_section:
  assumes "quiet s"
  shows "krelease L_bcache (upd_buf i f (s\<lparr>lk := acquired L_bcache (lk s)\<rparr>)) = Ok (upd_buf i f s)"
proof -
  note Q = quietD [OF assms]
  have "krelease L_bcache (upd_buf i f (s\<lparr>lk := acquired L_bcache (lk s)\<rparr>)) =
      Ok ((upd_buf i f (s\<lparr>lk := acquired L_bcache (lk s)\<rparr>))\<lparr>lk := settled (lk s)\<rparr>)"
    by (rule krelease_acquired) (use Q in simp_all)
  also have "(upd_buf i f (s\<lparr>lk := acquired L_bcache (lk s)\<rparr>))\<lparr>lk := settled (lk s)\<rparr> = upd_buf i f s"
    using Q(3) by (cases s) (simp add: upd_buf_def)
  finally show ?thesis .
qed

lemma find_SomeD: "find P xs = Some i \<Longrightarrow> P i \<and> i \<in> set xs"
  by (induction xs) (simp_all split: if_splits)

lemma find_unique:
  assumes "i \<in> set xs" "P i" "\<And>j. P j \<Longrightarrow> j \<in> set xs \<Longrightarrow> j = i"
  shows "find P xs = Some i"
proof (cases "find P xs")
  case None
  then show ?thesis using assms(1,2) by (simp add: find_None_iff)
next
  case (Some j)
  then show ?thesis using find_SomeD [OF Some] assms(3) by simp
qed

abbreviation lock_buf :: "nat \<Rightarrow> 'a kbio_scheme \<Rightarrow> 'a kbio_scheme" where
  "lock_buf i s \<equiv> upd_slock (L_bufsleep i) (\<lambda>sl. sl\<lparr>sl_locked := 1, sl_pid := p_pid (procs s ! the (cur s))\<rparr>) s"

lemma bget_hit:
  assumes "quiet s" "bio_inv s" "cached s i b" "\<not> blocked s i"
  shows "bget 1 b s = Ok (i, lock_buf i (upd_buf i (\<lambda>b. b\<lparr>b_refcnt := 1\<rparr>) s))"
proof -
  obtain xs where xs: "lru (bufs s) xs" using bio_invD(1) [OF assms(2)] by blast
  have "find (\<lambda>i. b_dev (bufs s ! i) = 1 \<and> b_blockno (bufs s ! i) = b) xs = Some i"
  proof (rule find_unique)
    show "i \<in> set xs" using xs assms(3) by (simp add: lru_def cached_def)
    show "b_dev (bufs s ! i) = 1 \<and> b_blockno (bufs s ! i) = b" using assms(3) by (simp add: cached_def)
    fix j
    assume "b_dev (bufs s ! j) = 1 \<and> b_blockno (bufs s ! j) = b" "j \<in> set xs"
    then have "cached s j b" using xs by (auto simp: cached_def lru_def)
    then show "j = i" using bio_invD(4) [OF assms(2) _ assms(3)] by simp
  qed
  note sc = lru_scans(1) [OF xs, of "\<lambda>x. b_dev x = 1 \<and> b_blockno x = b", unfolded this]
  have r: "b_refcnt (bufs s ! i) = 0"
    using bio_invD(3) [OF assms(2), of i] assms(3,4) by (simp add: buf_ok_def cached_def)
  have il: "i < length (bufs s)" using assms(3) bio_invD(2) [OF assms(2)] by (simp add: cached_def)
  have e: "upd_buf i (\<lambda>b. b\<lparr>b_refcnt := b_refcnt b + 1\<rparr>) s = upd_buf i (\<lambda>b. b\<lparr>b_refcnt := 1\<rparr>) s"
    using r il by (simp add: upd_buf_def upd_ix_def)
  have "acquiresleep_now (L_bufsleep i) (upd_buf i (\<lambda>b. b\<lparr>b_refcnt := 1\<rparr>) s) =
      Ok (lock_buf i (upd_buf i (\<lambda>b. b\<lparr>b_refcnt := 1\<rparr>) s))"
    using acquiresleep_free [of "upd_buf i (\<lambda>b. b\<lparr>b_refcnt := 1\<rparr>) s" "L_bufsleep i" 0 id] assms(1,4) by simp
  then show ?thesis
    using quietD(1) [OF assms(1)] sc bcache_section [OF assms(1), of i] e by (simp add: bget_def kacquire_free)
qed

lemma find_cong_set: "(\<And>x. x \<in> set xs \<Longrightarrow> P x = Q x) \<Longrightarrow> find P xs = find Q xs"
  by (induction xs) auto

text \<open>A miss recycles the last buffer of the list that is neither in use nor pinned.\<close>

lemma bget_recycle:
  assumes "quiet s" "bio_inv s" "\<And>i. \<not> cached s i b" and xs: "lru (bufs s) xs"
    and f: "find (\<lambda>i. \<not> blocked s i \<and> \<not> bdirty (bufs s ! i)) (rev xs) = Some i"
  shows "bget 1 b s = Ok (i, lock_buf i (upd_buf i (\<lambda>x. x\<lparr>b_dev := 1, b_blockno := b, b_flags := 0, b_refcnt := 1\<rparr>) s))"
proof -
  have sx: "set xs = {..<NBUF}" using xs by (simp add: lru_def)
  let ?P = "\<lambda>x. b_refcnt x = 0 \<and> b_flags x AND B_DIRTY = 0"
  have "find (\<lambda>i. b_dev (bufs s ! i) = 1 \<and> b_blockno (bufs s ! i) = b) xs = None"
    using assms(3) sx by (auto simp: find_None_iff cached_def)
  note sc = lru_scans(1) [OF xs, of "\<lambda>x. b_dev x = 1 \<and> b_blockno x = b", unfolded this]
  have rc: "b_refcnt (bufs s ! i) = 0 \<longleftrightarrow> \<not> blocked s i" if "i < NBUF" for i
    using bio_invD(3) [OF assms(2) that] by (simp add: buf_ok_def)
  have fi: "find (\<lambda>i. ?P (bufs s ! i)) (rev xs) = Some i"
    unfolding f [symmetric] by (rule find_cong_set) (use rc sx in auto)
  have nb: "\<not> blocked s i" using find_SomeD [OF f] by simp
  note sp = lru_scans(2) [OF xs, of ?P, unfolded fi]
  let ?f = "\<lambda>x. x\<lparr>b_dev := 1, b_blockno := b, b_flags := 0, b_refcnt := 1\<rparr>"
  have "acquiresleep_now (L_bufsleep i) (upd_buf i ?f s) = Ok (lock_buf i (upd_buf i ?f s))"
    using acquiresleep_free [of "upd_buf i ?f s" "L_bufsleep i" 0 id] assms(1) nb by simp
  then show ?thesis
    using quietD(1) [OF assms(1)] sc sp bcache_section [OF assms(1), of i]
    by (simp add: bget_def kacquire_free)
qed

lemma bget_miss:
  assumes "quiet s" "bio_inv s" "\<And>i. \<not> cached s i b" "\<exists>i<NBUF. \<not> blocked s i \<and> \<not> bdirty (bufs s ! i)"
  shows "\<exists>i<NBUF. \<not> blocked s i \<and> \<not> bdirty (bufs s ! i) \<and>
    bget 1 b s = Ok (i, lock_buf i (upd_buf i (\<lambda>x. x\<lparr>b_dev := 1, b_blockno := b, b_flags := 0, b_refcnt := 1\<rparr>) s))"
proof -
  obtain xs where xs: "lru (bufs s) xs" using bio_invD(1) [OF assms(2)] by blast
  have sx: "set xs = {..<NBUF}" using xs by (simp add: lru_def)
  show ?thesis
  proof (cases "find (\<lambda>i. \<not> blocked s i \<and> \<not> bdirty (bufs s ! i)) (rev xs)")
    case None
    then show ?thesis using assms(4) sx by (auto simp: find_None_iff)
  next
    case (Some i)
    then show ?thesis
      using bget_recycle [OF assms(1,2,3) xs Some] find_SomeD [OF Some] sx by auto
  qed
qed

text \<open>What the operations may change.\<close>

definition bio_same :: "'a kbio_scheme \<Rightarrow> 'a kbio_scheme \<Rightarrow> bool" where
  "bio_same s t \<longleftrightarrow> t = s\<lparr>procs := procs t, slocks := slocks t, bufs := bufs t, memdisk := memdisk t, dtrace := dtrace t\<rparr>"

lemma bio_same_refl [simp]: "bio_same s s"
  by (simp add: bio_same_def)

lemma bio_same_trans [trans]: "bio_same s t \<Longrightarrow> bio_same t u \<Longrightarrow> bio_same s u"
  by (cases s; cases t; cases u) (simp add: bio_same_def)

lemma bio_same_upd [simp]:
  "bio_same s (upd_buf i f t) = bio_same s t" "bio_same s (upd_slock l g t) = bio_same s t"
  "bio_same s (t\<lparr>memdisk := m\<rparr>) = bio_same s t" "bio_same s (t\<lparr>dtrace := d\<rparr>) = bio_same s t"
  "bio_same s (t\<lparr>procs := ps\<rparr>) = bio_same s t" "bio_same s (t\<lparr>bufs := bs\<rparr>) = bio_same s t"
  by (cases s; cases t; simp add: bio_same_def upd_buf_def upd_slock_def)+

lemma bio_sameD:
  assumes "bio_same s t"
  shows "lk t = lk s" "cur t = cur s" "disksize t = disksize s"
  using arg_cong [OF assms [unfolded bio_same_def], of lk] arg_cong [OF assms [unfolded bio_same_def], of cur]
    arg_cong [OF assms [unfolded bio_same_def], of disksize]
  by simp_all

lemma bio_same_quiet: "bio_same s t \<Longrightarrow> quiet t = quiet s"
  by (simp add: quiet_def bio_sameD)

definition heldset :: "'a kbio_scheme \<Rightarrow> u32 set" where
  "heldset s = {b. \<exists>i. bheld s i b}"

text \<open>Fewer than NBUF blocks in use or pinned: some buffer can be recycled.\<close>

lemma bio_room:
  assumes inv: "bio_inv s" and c: "card (heldset s \<union> bpinned s) < NBUF"
  shows "\<exists>i<NBUF. \<not> blocked s i \<and> \<not> bdirty (bufs s ! i)"
proof (rule ccontr)
  assume *: "\<not> ?thesis"
  let ?f = "\<lambda>i. b_blockno (bufs s ! i)"
  have d: "b_dev (bufs s ! i) = 1" if "i < NBUF" for i
    using bio_invD(3) [OF inv that] * that by (auto simp: buf_ok_def)
  have ca: "cached s i (?f i)" if "i < NBUF" for i using d [OF that] that by (simp add: cached_def)
  have "inj_on ?f {..<NBUF}"
    using bio_invD(4) [OF inv] ca by (intro inj_onI) (metis lessThan_iff)
  then have "card (?f ` {..<NBUF}) = NBUF" by (simp add: card_image)
  moreover have "?f ` {..<NBUF} \<subseteq> heldset s \<union> bpinned s"
    using * ca by (force simp: heldset_def bheld_def bpinned_def)
  moreover have "finite (heldset s \<union> bpinned s)"
  proof (rule finite_subset)
    show "heldset s \<union> bpinned s \<subseteq> ?f ` {..<NBUF}"
      by (auto simp: heldset_def bheld_def bpinned_def cached_def)
  qed simp
  ultimately have "NBUF \<le> card (heldset s \<union> bpinned s)" by (metis card_mono)
  with c show False by simp
qed

lemma bheld_update:
  assumes "\<And>j. j < NBUF \<Longrightarrow> j \<noteq> i \<Longrightarrow> blocked t j = blocked s j"
    "\<And>j c. cached t j c \<longleftrightarrow> (if j = i then c = b else cached s j c)"
  shows "bheld t j c \<longleftrightarrow> (if j = i then c = b \<and> blocked t i else bheld s j c)"
  unfolding bheld_def assms(2) using assms(1) [of j] by (simp add: cached_def) blast

lemma bpinned_same:
  assumes "\<And>j c. cached t j c \<longleftrightarrow> cached s j c" "\<And>j. j < NBUF \<Longrightarrow> bdirty (bufs t ! j) = bdirty (bufs s ! j)"
  shows "bpinned t = bpinned s"
proof -
  have "cached s j c \<and> bdirty (bufs t ! j) \<longleftrightarrow> cached s j c \<and> bdirty (bufs s ! j)" for j c
    using assms(2) [of j] by (simp add: cached_def) blast
  then show ?thesis by (simp add: bpinned_def assms(1))
qed

lemma bpinned_clean:
  assumes "\<And>j c. j \<noteq> i \<Longrightarrow> cached t j c \<longleftrightarrow> cached s j c"
    "\<And>j. j < NBUF \<Longrightarrow> j \<noteq> i \<Longrightarrow> bdirty (bufs t ! j) = bdirty (bufs s ! j)"
    "\<not> bdirty (bufs t ! i)" "\<not> bdirty (bufs s ! i)"
  shows "bpinned t = bpinned s"
proof -
  have "cached t j c \<and> bdirty (bufs t ! j) \<longleftrightarrow> cached s j c \<and> bdirty (bufs s ! j)" for j c
  proof (cases "j = i")
    case True
    then show ?thesis using assms(3,4) by simp
  next
    case False
    then show ?thesis using assms(1) [OF False, of c] assms(2) [of j] by (simp add: cached_def) blast
  qed
  then show ?thesis by (simp add: bpinned_def)
qed

lemma bread_spec:
  assumes q: "quiet s" and inv: "bio_inv s" and b: "b < disksize s" "b \<notin> heldset s"
    and room: "b \<in> bpinned s \<or> card (heldset s \<union> bpinned s) < NBUF"
  shows "\<exists>i t. bread 1 b s = Ok (i, t) \<and> bio_inv t \<and> bio_same s t \<and> blk t = blk s \<and> memdisk t = memdisk s \<and>
    dtrace t = dtrace s \<and> bpinned t = bpinned s \<and> \<not> blocked s i \<and>
    (\<forall>j c. bheld t j c \<longleftrightarrow> bheld s j c \<or> j = i \<and> c = b)"
proof -
  obtain xs where xs: "lru (bufs s) xs" using bio_invD(1) [OF inv] by blast
  have len: "length (bufs s) = NBUF + 1" using inv by (rule bio_invD)
  show ?thesis
  proof (cases "\<exists>i. cached s i b")
    case True
    then obtain i where i: "cached s i b" by blast
    then have nb: "\<not> blocked s i" using b(2) by (auto simp: heldset_def bheld_def)
    have il: "i < NBUF" "b_dev (bufs s ! i) = 1" "b_blockno (bufs s ! i) = b" using i by (simp_all add: cached_def)
    have ok: "buf_ok s i" using bio_invD(3) [OF inv il(1)] .
    define t where "t = lock_buf i (upd_buf i (\<lambda>b. b\<lparr>b_refcnt := 1\<rparr>) s)"
    have g: "bget 1 b s = Ok (i, t)" unfolding t_def by (rule bget_hit [OF q inv i nb])
    have bt: "bufs t ! i = (bufs s ! i)\<lparr>b_refcnt := 1\<rparr>" "blocked t i" using il(1) len by (simp_all add: t_def)
    have r: "bread 1 b s = Ok (i, t)" using g bt(1) ok il(2) by (simp add: bread_def buf_ok_def)
    have oth: "same_buf (bufs t ! j) (bufs s ! j) \<and> blocked t j = blocked s j" if "j < NBUF" "j \<noteq> i" for j
      using that by (simp add: t_def same_buf_def)
    have lru: "lru (bufs t) xs" by (rule lru_links [OF xs]) (auto simp: t_def nth_upd_ix_if len)
    have okt: "buf_ok t i" using ok bt il(2) by (simp add: buf_ok_def t_def)
    have nc: "\<not> cached s j b" if "j \<noteq> i" for j using bio_invD(4) [OF inv i, of j] that by auto
    have ev: "b_data (bufs s ! i) = memdisk s c" if "c \<noteq> b" "cached s i c" for c
      using that il(3) by (simp add: cached_def)
    have d: "b_dev (bufs t ! i) = 1" "b_blockno (bufs t ! i) = b" "disksize t = disksize s"
      and m: "memdisk t c = memdisk s c" for c
      using bt(1) il by (simp_all add: t_def)
    note U = bio_update [OF inv il(1) lru oth okt d(1,2) nc m d(3) ev]
    note ca = U(2)
    have "blk t = blk s" using U(3) bt(1) blk_cached [OF inv i] by auto
    moreover have "bpinned t = bpinned s"
    proof (rule bpinned_same)
      show "cached t j c \<longleftrightarrow> cached s j c" for j c
        using ca [of j c] i by (cases "j = i") (auto simp: cached_def)
      show "bdirty (bufs t ! j) = bdirty (bufs s ! j)" if "j < NBUF" for j
        using that len by (cases "j = i") (simp_all add: t_def)
    qed
    moreover have "bheld t j c \<longleftrightarrow> bheld s j c \<or> j = i \<and> c = b" for j c
      using bheld_update [of i t s b j c, OF _ ca] oth bt(2) nb by (simp add: bheld_def)
    ultimately show ?thesis using r U(1) nb by (auto simp: t_def)
  next
    case False
    then have "b \<notin> bpinned s" by (auto simp: bpinned_def)
    then have "\<exists>i<NBUF. \<not> blocked s i \<and> \<not> bdirty (bufs s ! i)" using room bio_room [OF inv] by blast
    from bget_miss [OF q inv _ this, of b] False obtain i where
      i: "i < NBUF" "\<not> blocked s i" "\<not> bdirty (bufs s ! i)" and
      g: "bget 1 b s = Ok (i, lock_buf i (upd_buf i (\<lambda>x. x\<lparr>b_dev := 1, b_blockno := b, b_flags := 0, b_refcnt := 1\<rparr>) s))"
        (is "_ = Ok (i, ?s1)") by blast
    have s1: "bufs ?s1 ! i = (bufs s ! i)\<lparr>b_dev := 1, b_blockno := b, b_flags := 0, b_refcnt := 1\<rparr>" "blocked ?s1 i"
      using i(1) len by simp_all
    define t where "t = upd_buf i (\<lambda>x. x\<lparr>b_data := memdisk ?s1 (b_blockno x), b_flags := B_VALID\<rparr>) ?s1"
    have "iderw i ?s1 = Ok t"
      unfolding t_def by (rule iderw_read) (use q s1 b(1) i(1) len in simp_all)
    then have r: "bread 1 b s = Ok (i, t)" using g s1 by (simp add: bread_def)
    have bt: "bufs t ! i = (bufs s ! i)\<lparr>b_dev := 1, b_blockno := b, b_flags := B_VALID, b_refcnt := 1, b_data := memdisk s b\<rparr>"
      "blocked t i" using i(1) len by (simp_all add: t_def)
    have oth: "same_buf (bufs t ! j) (bufs s ! j) \<and> blocked t j = blocked s j" if "j < NBUF" "j \<noteq> i" for j
      using that by (simp add: t_def same_buf_def)
    have lru: "lru (bufs t) xs" by (rule lru_links [OF xs]) (auto simp: t_def nth_upd_ix_if len)
    have ok: "buf_ok t i" using bt b(1) by (simp add: buf_ok_def t_def)
    have ev: "b_data (bufs s ! i) = memdisk s c" if "cached s i c" for c
      using bio_invD(3) [OF inv i(1)] i that by (auto simp: buf_ok_def cached_def)
    have d: "b_dev (bufs t ! i) = 1" "b_blockno (bufs t ! i) = b" "disksize t = disksize s"
      and m: "memdisk t c = memdisk s c" and nc: "\<not> cached s j b" for c j
      using bt(1) False by (simp_all add: t_def)
    note U = bio_update [OF inv i(1) lru oth ok d(1,2) nc m d(3) ev]
    note ca = U(2)
    have "blk t = blk s" using U(3) bt(1) blk_uncached [OF len, of b] False by auto
    moreover have "bpinned t = bpinned s"
    proof (rule bpinned_clean [where i = i])
      show "cached t j c \<longleftrightarrow> cached s j c" if "j \<noteq> i" for j c using ca [of j c] that by simp
      show "bdirty (bufs t ! j) = bdirty (bufs s ! j)" if "j < NBUF" "j \<noteq> i" for j
        using that by (simp add: t_def)
      show "\<not> bdirty (bufs t ! i)" using bt(1) by (simp add: B_VALID_def B_DIRTY_def)
    qed (rule i(3))
    moreover have "bheld t j c \<longleftrightarrow> bheld s j c \<or> j = i \<and> c = b" for j c
      using bheld_update [of i t s b j c, OF _ ca] oth bt(2) i(2) by (simp add: bheld_def)
    ultimately show ?thesis using r U(1) i(2) by (auto simp: t_def)
  qed
qed

lemma bheldD:
  assumes "bio_inv s" "bheld s i b"
  shows "i < NBUF" "i < length (bufs s)" "b_dev (bufs s ! i) = 1" "b_blockno (bufs s ! i) = b" "blocked s i"
    "b < disksize s" "bvalid (bufs s ! i)" "b_refcnt (bufs s ! i) = 1" "b_data (bufs s ! i) = blk s b" "cached s i b"
    "b \<in> heldset s" "b \<in> bpinned s \<longleftrightarrow> bdirty (bufs s ! i)"
proof -
  have c: "cached s i b" "blocked s i" using assms(2) by (simp_all add: bheld_def)
  then show "i < NBUF" "b_dev (bufs s ! i) = 1" "b_blockno (bufs s ! i) = b" "blocked s i" "cached s i b"
    by (simp_all add: cached_def)
  then show "i < length (bufs s)" using bio_invD(2) [OF assms(1)] by simp
  have ok: "buf_ok s i" using bio_invD(3) [OF assms(1) \<open>i < NBUF\<close>] .
  show "b < disksize s" "bvalid (bufs s ! i)" "b_refcnt (bufs s ! i) = 1"
    using ok c by (auto simp: buf_ok_def cached_def)
  show "b_data (bufs s ! i) = blk s b" using blk_cached [OF assms(1) c(1)] by simp
  show "b \<in> heldset s" using assms(2) by (auto simp: heldset_def)
  have "j = i" if "cached s j b" for j using bio_invD(4) [OF assms(1) that c(1)] .
  then show "b \<in> bpinned s \<longleftrightarrow> bdirty (bufs s ! i)" using c(1) unfolding bpinned_def by blast
qed

text \<open>A change of a held buffer that keeps its block: what remains to be shown of it.\<close>

lemma bio_update_held:
  assumes inv: "bio_inv s" and h: "bheld s i b" and lru: "lru (bufs t) xs"
    and others: "\<And>j. j < NBUF \<Longrightarrow> j \<noteq> i \<Longrightarrow> same_buf (bufs t ! j) (bufs s ! j) \<and> blocked t j = blocked s j"
    and ok: "buf_ok t i" "b_dev (bufs t ! i) = 1" "b_blockno (bufs t ! i) = b"
    and disk: "\<And>c. c \<noteq> b \<Longrightarrow> memdisk t c = memdisk s c" "disksize t = disksize s"
  shows "bio_inv t" "blk t = (blk s)(b := b_data (bufs t ! i))" "cached t j c = cached s j c"
    "bheld t j c \<longleftrightarrow> (if j = i then c = b \<and> blocked t i else bheld s j c)"
    "bpinned t = (if bdirty (bufs t ! i) then insert b (bpinned s) else bpinned s - {b})"
    "blocked t i \<Longrightarrow> bheld t j c = bheld s j c"
proof -
  note H = bheldD [OF inv h]
  have nc: "\<not> cached s j b" if "j \<noteq> i" for j using bio_invD(4) [OF inv H(10), of j] that by auto
  have ev: "b_data (bufs s ! i) = memdisk s c" if "c \<noteq> b" "cached s i c" for c
    using that H(4) by (simp add: cached_def)
  note U = bio_update [OF inv H(1) lru others ok nc disk ev]
  show "bio_inv t" by (rule U(1))
  show "blk t = (blk s)(b := b_data (bufs t ! i))" by (rule U(3))
  show ca: "cached t j c = cached s j c" for j c
    using U(2) [of j c] H(10) by (cases "j = i") (auto simp: cached_def)
  show bh: "bheld t j c \<longleftrightarrow> (if j = i then c = b \<and> blocked t i else bheld s j c)"
    using bheld_update [of i t s b j c, OF _ U(2)] others by simp
  have "bheld s i c \<longleftrightarrow> c = b" using H by (auto simp: bheld_def cached_def)
  with bh show "blocked t i \<Longrightarrow> bheld t j c = bheld s j c" by simp
  have "c \<in> bpinned t \<longleftrightarrow> c \<in> (if bdirty (bufs t ! i) then insert b (bpinned s) else bpinned s - {b})" for c
  proof (cases "c = b")
    case True
    have "b \<in> bpinned t \<longleftrightarrow> (\<exists>j. cached s j b \<and> bdirty (bufs t ! j))" by (simp add: bpinned_def ca)
    also have "\<dots> \<longleftrightarrow> bdirty (bufs t ! i)" using nc H(10) by metis
    finally show ?thesis using True by simp
  next
    case False
    have "cached s j c \<and> bdirty (bufs t ! j) \<longleftrightarrow> cached s j c \<and> bdirty (bufs s ! j)" for j
      using others [of j] False H(4) by (cases "j = i") (auto simp: cached_def same_buf_def)
    with False show ?thesis by (simp add: bpinned_def ca)
  qed
  then show "bpinned t = (if bdirty (bufs t ! i) then insert b (bpinned s) else bpinned s - {b})" by blast
qed

lemma heldset_same: "(\<And>j c. bheld t j c = bheld s j c) \<Longrightarrow> heldset t = heldset s"
  by (simp add: heldset_def)

lemma lru_upd_buf:
  assumes "bio_inv s" "\<And>b. b_next (f b) = b_next b \<and> b_prev (f b) = b_prev b"
  shows "\<exists>xs. lru (upd_ix i f (bufs s)) xs"
proof -
  obtain xs where xs: "lru (bufs s) xs" using bio_invD(1) [OF assms(1)] by blast
  have "lru (upd_ix i f (bufs s)) xs"
    by (rule lru_links [OF xs]) (use assms(2) bio_invD(2) [OF assms(1)] in \<open>simp_all add: nth_upd_ix_if\<close>)
  then show ?thesis by blast
qed

lemma bset_spec:
  assumes inv: "bio_inv s" and h: "bheld s i b"
  shows "bio_inv (upd_buf i (\<lambda>x. x\<lparr>b_data := d\<rparr>) s)"
    "blk (upd_buf i (\<lambda>x. x\<lparr>b_data := d\<rparr>) s) = (blk s)(b := d)"
    "bheld (upd_buf i (\<lambda>x. x\<lparr>b_data := d\<rparr>) s) j c = bheld s j c"
    "bpinned (upd_buf i (\<lambda>x. x\<lparr>b_data := d\<rparr>) s) = bpinned s"
proof -
  note H = bheldD [OF inv h]
  let ?t = "upd_buf i (\<lambda>x. x\<lparr>b_data := d\<rparr>) s"
  obtain xs where xs: "lru (bufs ?t) xs" using lru_upd_buf [OF inv, of "\<lambda>x. x\<lparr>b_data := d\<rparr>" i] by auto
  have bt: "bufs ?t ! i = (bufs s ! i)\<lparr>b_data := d\<rparr>" using H(2) by simp
  have oth: "same_buf (bufs ?t ! j) (bufs s ! j) \<and> blocked ?t j = blocked s j" if "j < NBUF" "j \<noteq> i" for j
    using that by (simp add: same_buf_def)
  have ok: "buf_ok ?t i" using H bt by (simp add: buf_ok_def)
  have d: "b_dev (bufs ?t ! i) = 1" "b_blockno (bufs ?t ! i) = b" "disksize ?t = disksize s"
    and m: "memdisk ?t c = memdisk s c" for c using bt H by simp_all
  note U = bio_update_held [OF inv h xs oth ok d(1,2) m d(3)]
  show "bio_inv ?t" "blk ?t = (blk s)(b := d)" using U(1,2) bt by simp_all
  show "bheld ?t j c = bheld s j c" using U(6) [of j c] H(5) by simp
  show "bpinned ?t = bpinned s" using U(5) bt H(12) by auto
qed

lemma bpin_spec:
  assumes inv: "bio_inv s" and h: "bheld s i b"
  shows "bio_inv (upd_buf i (\<lambda>x. x\<lparr>b_flags := b_flags x OR B_DIRTY\<rparr>) s)"
    "blk (upd_buf i (\<lambda>x. x\<lparr>b_flags := b_flags x OR B_DIRTY\<rparr>) s) = blk s"
    "bheld (upd_buf i (\<lambda>x. x\<lparr>b_flags := b_flags x OR B_DIRTY\<rparr>) s) j c = bheld s j c"
    "bpinned (upd_buf i (\<lambda>x. x\<lparr>b_flags := b_flags x OR B_DIRTY\<rparr>) s) = insert b (bpinned s)"
proof -
  note H = bheldD [OF inv h]
  let ?f = "\<lambda>x. x\<lparr>b_flags := b_flags x OR B_DIRTY\<rparr>"
  let ?t = "upd_buf i ?f s"
  obtain xs where xs: "lru (bufs ?t) xs" using lru_upd_buf [OF inv, of ?f i] by auto
  have bt: "bufs ?t ! i = ?f (bufs s ! i)" using H(2) by simp
  have oth: "same_buf (bufs ?t ! j) (bufs s ! j) \<and> blocked ?t j = blocked s j" if "j < NBUF" "j \<noteq> i" for j
    using that by (simp add: same_buf_def)
  have ok: "buf_ok ?t i" using H bt by (simp add: buf_ok_def)
  have d: "b_dev (bufs ?t ! i) = 1" "b_blockno (bufs ?t ! i) = b" "disksize ?t = disksize s"
    and m: "memdisk ?t c = memdisk s c" for c using bt H by simp_all
  note U = bio_update_held [OF inv h xs oth ok d(1,2) m d(3)]
  show "bio_inv ?t" by (rule U(1))
  show "blk ?t = blk s" using U(2) bt H(9) by auto
  show "bheld ?t j c = bheld s j c" using U(6) [of j c] H(5) by simp
  show "bpinned ?t = insert b (bpinned s)" using U(5) bt by simp
qed

lemma bwrite_spec:
  assumes q: "quiet s" and inv: "bio_inv s" and h: "bheld s i b"
  shows "\<exists>t. bwrite i s = Ok t \<and> bio_inv t \<and> bio_same s t \<and> blk t = blk s \<and>
    memdisk t = (memdisk s)(b := blk s b) \<and> dtrace t = dtrace s @ [(b, blk s b)] \<and>
    bpinned t = bpinned s - {b} \<and> (\<forall>j c. bheld t j c = bheld s j c)"
proof -
  note H = bheldD [OF inv h]
  let ?s = "upd_buf i (\<lambda>b. b\<lparr>b_flags := b_flags b OR B_DIRTY\<rparr>) s"
  let ?f = "\<lambda>x. x\<lparr>b_flags := (b_flags x AND NOT B_DIRTY) OR B_VALID\<rparr>"
  define t where "t = (upd_buf i ?f ?s)\<lparr>memdisk := (memdisk s)(b := blk s b), dtrace := dtrace s @ [(b, blk s b)]\<rparr>"
  have "iderw i ?s = Ok ((upd_buf i ?f ?s)
    \<lparr>memdisk := (memdisk ?s)(b_blockno (bufs ?s ! i) := b_data (bufs ?s ! i)),
     dtrace := dtrace ?s @ [(b_blockno (bufs ?s ! i), b_data (bufs ?s ! i))]\<rparr>)"
    by (rule iderw_write) (use q H in simp_all)
  then have w: "bwrite i s = Ok t" using q H by (simp add: bwrite_def holdingsleep_eq t_def)
  let ?g = "?f \<circ> (\<lambda>b. b\<lparr>b_flags := b_flags b OR B_DIRTY\<rparr>)"
  have bs: "bufs t = upd_ix i ?g (bufs s)" by (simp add: t_def)
  obtain xs where xs: "lru (bufs t) xs" using lru_upd_buf [OF inv, of ?g i] bs by auto
  have bt: "bufs t ! i = ?g (bufs s ! i)" using H(2) bs by simp
  have oth: "same_buf (bufs t ! j) (bufs s ! j) \<and> blocked t j = blocked s j" if "j < NBUF" "j \<noteq> i" for j
    using that by (simp add: same_buf_def t_def)
  have nd: "\<not> bdirty (bufs t ! i)" "bvalid (bufs t ! i)" "blocked t i" using bt H(5) by (simp_all add: t_def)
  have ok: "buf_ok t i" using H bt nd by (simp add: buf_ok_def t_def)
  have d: "b_dev (bufs t ! i) = 1" "b_blockno (bufs t ! i) = b" "disksize t = disksize s" using bt H by (simp_all add: t_def)
  have m: "memdisk t c = memdisk s c" if "c \<noteq> b" for c using that by (simp add: t_def)
  note U = bio_update_held [OF inv h xs oth ok d(1,2) m d(3)]
  have "blk t = blk s" using U(2) bt H(9) by auto
  moreover have "bpinned t = bpinned s - {b}" using U(5) nd(1) by simp
  moreover have "bheld t j c = bheld s j c" for j c using U(6) nd(3) by simp
  ultimately show ?thesis using w U(1) by (auto simp: t_def)
qed

lemma brelse_bufs:
  assumes q: "quiet s" and b: "blocked s i" "b_refcnt (bufs s ! i) = 1" "i < length (bufs s)"
  shows "\<exists>t. brelse i s = Ok t \<and> bio_same s t \<and> memdisk t = memdisk s \<and> dtrace t = dtrace s \<and>
    (\<forall>j. blocked t j \<longleftrightarrow> blocked s j \<and> j \<noteq> i) \<and>
    bufs t = link_front i (unlink i (upd_ix i (\<lambda>b. b\<lparr>b_refcnt := 0\<rparr>) (bufs s)))"
proof -
  note Q = quietD [OF q]
  define s1 where "s1 = wakeup1 (Some (C_sleeplock (L_bufsleep i))) (upd_slock (L_bufsleep i) (\<lambda>sl. sl\<lparr>sl_locked := 0, sl_pid := 0\<rparr>) s)"
  have r: "releasesleep (L_bufsleep i) s = Ok s1"
    unfolding s1_def by (rule releasesleep_eq [OF q]) simp
  have s1: "bufs s1 = bufs s" "lk s1 = lk s" "memdisk s1 = memdisk s" "dtrace s1 = dtrace s" "bio_same s s1"
    "\<And>j. blocked s1 j \<longleftrightarrow> blocked s j \<and> j \<noteq> i"
    by (simp_all add: s1_def wakeup1_def)
  have q1: "quiet s1" using q s1(2) by (simp add: quiet_def s1_def)
  let ?bs = "link_front i (unlink i (upd_ix i (\<lambda>b. b\<lparr>b_refcnt := 0\<rparr>) (bufs s)))"
  have e: "upd_ix i (\<lambda>b. b\<lparr>b_refcnt := b_refcnt b - 1\<rparr>) (bufs s) = upd_ix i (\<lambda>b. b\<lparr>b_refcnt := 0\<rparr>) (bufs s)"
    using b(2,3) by (simp add: upd_ix_def)
  let ?t = "s1\<lparr>bufs := ?bs, lk := lk s\<rparr>"
  have "krelease L_bcache (s1\<lparr>lk := acquired L_bcache (lk s), bufs := ?bs\<rparr>) =
      Ok (s1\<lparr>lk := acquired L_bcache (lk s), bufs := ?bs, lk := settled (lk s)\<rparr>)"
    by (rule krelease_acquired) (use Q in simp_all)
  also have "s1\<lparr>lk := acquired L_bcache (lk s), bufs := ?bs, lk := settled (lk s)\<rparr> = s1\<lparr>bufs := ?bs\<rparr>"
    using Q(3) s1(2) by (cases s1) simp
  finally have k: "krelease L_bcache (s1\<lparr>lk := acquired L_bcache (lk s), bufs := ?bs\<rparr>) = Ok (s1\<lparr>bufs := ?bs\<rparr>)" .
  have "brelse i s = Ok (s1\<lparr>bufs := ?bs\<rparr>)"
    using q b r s1(1,2) Q(1) k e
    by (simp add: brelse_def holdingsleep_eq kacquire_free Let_def upd_buf_def)
  then show ?thesis using s1 by auto
qed

lemma brelse_spec:
  assumes q: "quiet s" and inv: "bio_inv s" and h: "bheld s i b"
    and clean: "b \<in> bpinned s \<or> blk s b = memdisk s b"
  shows "\<exists>t. brelse i s = Ok t \<and> bio_inv t \<and> bio_same s t \<and> blk t = blk s \<and>
    memdisk t = memdisk s \<and> dtrace t = dtrace s \<and> bpinned t = bpinned s \<and>
    (\<forall>j c. bheld t j c \<longleftrightarrow> bheld s j c \<and> j \<noteq> i)"
proof -
  note H = bheldD [OF inv h]
  obtain ys where ys: "lru (bufs s) ys" using bio_invD(1) [OF inv] by blast
  have len: "length (bufs s) = NBUF + 1" using inv by (rule bio_invD)
  let ?f = "\<lambda>b. b\<lparr>b_refcnt := 0\<rparr>"
  from brelse_bufs [OF q H(5,8,2)] obtain t where
    t: "brelse i s = Ok t" "bio_same s t" "memdisk t = memdisk s" "dtrace t = dtrace s"
      "\<And>j. blocked t j \<longleftrightarrow> blocked s j \<and> j \<noteq> i" "bufs t = link_front i (unlink i (upd_ix i ?f (bufs s)))" by blast
  have "lru (upd_ix i ?f (bufs s)) ys" by (rule lru_links [OF ys]) (simp_all add: nth_upd_ix_if len)
  then have xs: "lru (bufs t) (i # remove1 i ys)" unfolding t(6) using H(1) by (rule lru_front)
  have oth: "same_buf (bufs t ! j) (bufs s ! j) \<and> blocked t j = blocked s j" if "j < NBUF" "j \<noteq> i" for j
    using that len t(5) by (simp add: same_buf_def t(6))
  have bt: "same_buf (bufs t ! i) ((bufs s ! i)\<lparr>b_refcnt := 0\<rparr>)"
    using H(2) by (simp add: same_buf_def t(6))
  have ds: "disksize t = disksize s" using bio_sameD(3) [OF t(2)] .
  have ok: "buf_ok t i"
    using bt H clean t(3,5) ds by (auto simp: buf_ok_def same_buf_def)
  have d: "b_dev (bufs t ! i) = 1" "b_blockno (bufs t ! i) = b" using bt H by (simp_all add: same_buf_def)
  have m: "memdisk t c = memdisk s c" for c using t(3) by simp
  note U = bio_update_held [OF inv h xs oth ok d m ds]
  have "blk t = blk s" using U(2) bt H(9) by (auto simp: same_buf_def)
  moreover have "bpinned t = bpinned s" using U(5) bt H(12) by (auto simp: same_buf_def)
  moreover have "bheld t j c \<longleftrightarrow> bheld s j c \<and> j \<noteq> i" for j c
    using U(4) [of j c] t(5) by auto
  ultimately show ?thesis using t U(1) by auto
qed

section \<open>The interface the log and the file system rely on\<close>

text \<open>
  A cache of disk blocks: \<open>view\<close> is what a client sees of a block, \<open>disk\<close> what a crash
  would leave of it, \<open>trace\<close> the history of disk writes, \<open>held\<close> the buffers in use and
  \<open>pinned\<close> the blocks kept off the disk by the log. \<open>same\<close> relates states that differ in
  the cache and the disk only.
\<close>

locale block_cache =
  fixes rd :: "u32 \<Rightarrow> 's \<Rightarrow> (nat \<times> 's) res"
    and wr :: "nat \<Rightarrow> 's \<Rightarrow> 's res"
    and release :: "nat \<Rightarrow> 's \<Rightarrow> 's res"
    and data :: "'s \<Rightarrow> nat \<Rightarrow> block"
    and setdata :: "nat \<Rightarrow> block \<Rightarrow> 's \<Rightarrow> 's"
    and view :: "'s \<Rightarrow> u32 \<Rightarrow> block"
    and disk :: "'s \<Rightarrow> u32 \<Rightarrow> block"
    and trace :: "'s \<Rightarrow> (u32 \<times> block) list"
    and held :: "'s \<Rightarrow> nat \<Rightarrow> u32 \<Rightarrow> bool"
    and pinned :: "'s \<Rightarrow> u32 set"
    and nblocks :: "'s \<Rightarrow> u32"
    and cap :: nat
    and inv :: "'s \<Rightarrow> bool"
    and same :: "'s \<Rightarrow> 's \<Rightarrow> bool"
  assumes read_ok: "inv s \<Longrightarrow> b < nblocks s \<Longrightarrow> (\<And>i. \<not> held s i b) \<Longrightarrow>
      b \<in> pinned s \<or> card ({c. \<exists>i. held s i c} \<union> pinned s) < cap \<Longrightarrow>
      \<exists>i t. rd b s = Ok (i, t) \<and> inv t \<and> same s t \<and> view t = view s \<and> disk t = disk s \<and>
        trace t = trace s \<and> pinned t = pinned s \<and> (\<forall>c. \<not> held s i c) \<and>
        (\<forall>j c. held t j c \<longleftrightarrow> held s j c \<or> j = i \<and> c = b)"
    and write_ok: "inv s \<Longrightarrow> held s i b \<Longrightarrow>
      \<exists>t. wr i s = Ok t \<and> inv t \<and> same s t \<and> view t = view s \<and> disk t = (disk s)(b := view s b) \<and>
        trace t = trace s @ [(b, view s b)] \<and> pinned t = pinned s - {b} \<and> held t = held s"
    and release_ok: "inv s \<Longrightarrow> held s i b \<Longrightarrow> b \<in> pinned s \<or> view s b = disk s b \<Longrightarrow>
      \<exists>t. release i s = Ok t \<and> inv t \<and> same s t \<and> view t = view s \<and> disk t = disk s \<and>
        trace t = trace s \<and> pinned t = pinned s \<and> (\<forall>j c. held t j c \<longleftrightarrow> held s j c \<and> j \<noteq> i)"
    and setdata_ok: "inv s \<Longrightarrow> held s i b \<Longrightarrow>
      inv (setdata i d s) \<and> same s (setdata i d s) \<and> view (setdata i d s) = (view s)(b := d) \<and>
        disk (setdata i d s) = disk s \<and> trace (setdata i d s) = trace s \<and>
        pinned (setdata i d s) = pinned s \<and> held (setdata i d s) = held s"
    and data_view: "inv s \<Longrightarrow> held s i b \<Longrightarrow> data s i = view s b"
    and in_step: "inv s \<Longrightarrow> b \<notin> pinned s \<Longrightarrow> (\<And>i. \<not> held s i b) \<Longrightarrow> view s b = disk s b"
    and same_refl: "same s s"
    and same_trans: "same s t \<Longrightarrow> same t u \<Longrightarrow> same s u"
    and same_nblocks: "same s t \<Longrightarrow> nblocks t = nblocks s"
begin

definition idle :: "'s \<Rightarrow> bool" where
  "idle s \<longleftrightarrow> inv s \<and> (\<forall>i b. \<not> held s i b)"

lemma idleD: "idle s \<Longrightarrow> inv s" "idle s \<Longrightarrow> \<not> held s i b"
  by (auto simp: idle_def)

text \<open>Read, change and write one block.\<close>

lemma modify_block:
  assumes s: "idle s" and b: "b < nblocks s" "b \<notin> pinned s" "card (pinned s) < cap"
  shows "\<exists>t. rbind (rd b s) (\<lambda>(i, s). rbind (wr i (setdata i (f (data s i)) s)) (release i)) = Ok t \<and>
    idle t \<and> same s t \<and> view t = (view s)(b := f (view s b)) \<and> disk t = (disk s)(b := f (view s b)) \<and>
    trace t = trace s @ [(b, f (view s b))] \<and> pinned t = pinned s"
proof -
  have nh: "\<not> held s i c" for i c using s by (rule idleD)
  obtain i s1 where r: "rd b s = Ok (i, s1)" "inv s1" "same s s1" "view s1 = view s" "disk s1 = disk s"
    "trace s1 = trace s" "pinned s1 = pinned s" "\<And>j c. held s1 j c \<longleftrightarrow> j = i \<and> c = b"
    using read_ok [OF idleD(1) [OF s] b(1)] b(3) nh by auto
  have h1: "held s1 i b" using r(8) by simp
  let ?s2 = "setdata i (f (data s1 i)) s1"
  have dv: "data s1 i = view s b" using data_view [OF r(2) h1] r(4) by simp
  have s2: "inv ?s2" "same s1 ?s2" "view ?s2 = (view s)(b := f (view s b))" "disk ?s2 = disk s"
    "trace ?s2 = trace s" "pinned ?s2 = pinned s" "held ?s2 = held s1"
    using setdata_ok [OF r(2) h1, of "f (data s1 i)"] r(4-7) dv by auto
  obtain s3 where w: "wr i ?s2 = Ok s3" "inv s3" "same ?s2 s3" "view s3 = view ?s2" "disk s3 = (disk ?s2)(b := view ?s2 b)"
    "trace s3 = trace ?s2 @ [(b, view ?s2 b)]" "pinned s3 = pinned ?s2 - {b}" "held s3 = held ?s2"
    using write_ok [OF s2(1), of i b] s2(7) h1 by auto
  obtain t where t: "release i s3 = Ok t" "inv t" "same s3 t" "view t = view s3" "disk t = disk s3"
    "trace t = trace s3" "pinned t = pinned s3" "\<forall>j c. held t j c \<longleftrightarrow> held s3 j c \<and> j \<noteq> i"
    using release_ok [OF w(2), of i b] w(4,5,8) s2(7) h1 by auto
  have "idle t" using t(2,8) w(8) s2(7) r(8) by (auto simp: idle_def)
  moreover have "same s t" using r(3) s2(2) w(3) t(3) by (blast intro: same_trans)
  ultimately show ?thesis
    using r(1) w s2 t b(2) by auto
qed

text \<open>Copy block \<open>a\<close> to block \<open>b\<close> on the disk, through two buffers.\<close>

lemma two_buffers:
  assumes s: "idle s" and ab: "a < nblocks s" "b < nblocks s" "a \<noteq> b" "card (pinned s) < cap"
    "b \<in> pinned s \<or> card (insert a (pinned s)) < cap"
  shows "\<exists>i s1 j s2. rd a s = Ok (i, s1) \<and> rd b s1 = Ok (j, s2) \<and> i \<noteq> j \<and> inv s2 \<and> same s s1 \<and> same s s2 \<and>
    view s2 = view s \<and> disk s2 = disk s \<and> trace s2 = trace s \<and> pinned s2 = pinned s \<and>
    (\<forall>k c. held s2 k c \<longleftrightarrow> k = i \<and> c = a \<or> k = j \<and> c = b)"
proof -
  have nh: "\<not> held s i c" for i c using s by (rule idleD)
  obtain i s1 where r: "rd a s = Ok (i, s1)" "inv s1" "same s s1" "view s1 = view s" "disk s1 = disk s"
    "trace s1 = trace s" "pinned s1 = pinned s" "\<And>j c. held s1 j c \<longleftrightarrow> j = i \<and> c = a"
    using read_ok [OF idleD(1) [OF s] ab(1)] ab(4) nh by auto
  have "{c. \<exists>j. held s1 j c} = {a}" using r(8) by auto
  then obtain j s2 where q: "rd b s1 = Ok (j, s2)" "inv s2" "same s1 s2" "view s2 = view s1" "disk s2 = disk s1"
    "trace s2 = trace s1" "pinned s2 = pinned s1" "\<forall>c. \<not> held s1 j c" "\<forall>k c. held s2 k c \<longleftrightarrow> held s1 k c \<or> k = j \<and> c = b"
    using read_ok [OF r(2), of b] ab(2,3,5) same_nblocks [OF r(3)] r(7,8) by auto
  have "i \<noteq> j" using q(8) r(8) by auto
  then show ?thesis using r q same_trans [OF r(3) q(3)] by auto
qed

lemma write_and_release:
  assumes s: "inv s" "\<And>k c. held s k c \<longleftrightarrow> k = i \<and> c = a \<or> k = j \<and> c = b" "i \<noteq> j" "a \<noteq> b"
    and a: "a \<in> pinned s \<or> view s a = disk s a"
  shows "\<exists>t. rbind (wr j (setdata j (data s i) s)) (\<lambda>s. rbind (release i s) (release j)) = Ok t \<and>
    idle t \<and> same s t \<and> view t = (view s)(b := view s a) \<and> disk t = (disk s)(b := view s a) \<and>
    trace t = trace s @ [(b, view s a)] \<and> pinned t = pinned s - {b}"
proof -
  have h: "held s i a" "held s j b" using s(2) by auto
  let ?s2 = "setdata j (data s i) s"
  have dv: "data s i = view s a" by (rule data_view [OF s(1) h(1)])
  have s2: "inv ?s2" "same s ?s2" "view ?s2 = (view s)(b := view s a)" "disk ?s2 = disk s"
    "trace ?s2 = trace s" "pinned ?s2 = pinned s" "held ?s2 = held s"
    using setdata_ok [OF s(1) h(2), of "data s i"] dv by auto
  obtain s3 where w: "wr j ?s2 = Ok s3" "inv s3" "same ?s2 s3" "view s3 = view ?s2" "disk s3 = (disk ?s2)(b := view ?s2 b)"
    "trace s3 = trace ?s2 @ [(b, view ?s2 b)]" "pinned s3 = pinned ?s2 - {b}" "held s3 = held ?s2"
    using write_ok [OF s2(1), of j b] s2(7) h(2) by auto
  have a3: "a \<in> pinned s3 \<or> view s3 a = disk s3 a" using a w(4,5,7) s2(3,4,6) s(4) by auto
  obtain s4 where r: "release i s3 = Ok s4" "inv s4" "same s3 s4" "view s4 = view s3" "disk s4 = disk s3"
    "trace s4 = trace s3" "pinned s4 = pinned s3" "\<forall>k c. held s4 k c \<longleftrightarrow> held s3 k c \<and> k \<noteq> i"
    using release_ok [OF w(2), of i a] w(8) s2(7) h(1) a3 by auto
  have h4: "held s4 j b" using r(8) w(8) s2(7) h(2) s(3) by auto
  have b4: "view s4 b = disk s4 b" using r(4,5) w(4,5) by simp
  obtain t where t: "release j s4 = Ok t" "inv t" "same s4 t" "view t = view s4" "disk t = disk s4"
    "trace t = trace s4" "pinned t = pinned s4" "\<forall>k c. held t k c \<longleftrightarrow> held s4 k c \<and> k \<noteq> j"
    using release_ok [OF r(2) h4] b4 by auto
  have "idle t" using t(2,8) r(8) w(8) s2(7) s(2) by (auto simp: idle_def)
  moreover have "same s t" using s2(2) w(3) r(3) t(3) by (blast intro: same_trans)
  ultimately show ?thesis using w s2 r t by auto
qed

end

lemma bio_in_step:
  assumes inv: "bio_inv s" and b: "b \<notin> bpinned s" "\<And>i. \<not> bheld s i b"
  shows "blk s b = memdisk s b"
proof (cases "\<exists>i. cached s i b")
  case True
  then obtain i where i: "cached s i b" by blast
  then have "\<not> blocked s i" "\<not> bdirty (bufs s ! i)" using b by (auto simp: bheld_def bpinned_def)
  moreover have "buf_ok s i" using bio_invD(3) [OF inv] i by (simp add: cached_def)
  ultimately have "b_data (bufs s ! i) = memdisk s b" using i by (auto simp: buf_ok_def cached_def)
  then show ?thesis using blk_cached [OF inv i] by simp
next
  case False
  then show ?thesis using blk_uncached [OF bio_invD(2) [OF inv]] by blast
qed

text \<open>The buffer cache of bio.c over memide.c is such a cache.\<close>

interpretation bcache: block_cache "bread 1" bwrite brelse "\<lambda>s i. b_data (bufs s ! i)"
  "\<lambda>i d. upd_buf i (\<lambda>x. x\<lparr>b_data := d\<rparr>)" blk memdisk dtrace bheld bpinned disksize NBUF
  "\<lambda>s. quiet s \<and> bio_inv s" bio_same
proof (unfold_locales, goal_cases)
  case (1 s b)
  then have "b \<notin> heldset s" "b \<in> bpinned s \<or> card (heldset s \<union> bpinned s) < NBUF" by (auto simp: heldset_def)
  from bread_spec [OF _ _ 1(2) this] 1(1) obtain i t where
    t: "bread 1 b s = Ok (i, t)" "bio_inv t" "bio_same s t" "blk t = blk s" "memdisk t = memdisk s"
      "dtrace t = dtrace s" "bpinned t = bpinned s" "\<not> blocked s i" "\<forall>j c. bheld t j c \<longleftrightarrow> bheld s j c \<or> j = i \<and> c = b"
    by blast
  have "quiet t" using bio_same_quiet [OF t(3)] 1(1) by simp
  moreover have "\<forall>c. \<not> bheld s i c" using t(8) by (simp add: bheld_def)
  ultimately show ?case using t by blast
next
  case (2 s i b)
  then obtain t where t: "bwrite i s = Ok t" "bio_inv t" "bio_same s t" "blk t = blk s"
    "memdisk t = (memdisk s)(b := blk s b)" "dtrace t = dtrace s @ [(b, blk s b)]" "bpinned t = bpinned s - {b}"
    "\<forall>j c. bheld t j c = bheld s j c" using bwrite_spec [of s i b] by blast
  moreover have "quiet t" using bio_same_quiet [OF t(3)] 2(1) by simp
  moreover have "bheld t = bheld s" using t(8) by (simp add: fun_eq_iff)
  ultimately show ?case by blast
next
  case (3 s i b)
  then obtain t where t: "brelse i s = Ok t" "bio_inv t" "bio_same s t" "blk t = blk s"
    "memdisk t = memdisk s" "dtrace t = dtrace s" "bpinned t = bpinned s"
    "\<forall>j c. bheld t j c \<longleftrightarrow> bheld s j c \<and> j \<noteq> i" using brelse_spec [of s i b] by blast
  moreover have "quiet t" using bio_same_quiet [OF t(3)] 3(1) by simp
  ultimately show ?case by blast
next
  case (4 s i b d)
  then have "bio_inv s" "bheld s i b" "quiet s" by simp_all
  moreover have "bheld (upd_buf i (\<lambda>x. x\<lparr>b_data := d\<rparr>) s) = bheld s"
    using bset_spec(3) [OF calculation(1,2)] by (simp add: fun_eq_iff)
  ultimately show ?case using bset_spec(1,2,4) [of s i b d] by simp
next
  case (5 s i b)
  then show ?case using bheldD(9) by blast
next
  case (6 s b)
  then show ?case using bio_in_step by blast
next
  case (7 s)
  show ?case by simp
next
  case (8 s t u)
  then show ?case by (rule bio_same_trans)
next
  case (9 s t)
  then show ?case by (rule bio_sameD)
qed

section \<open>Start-up\<close>

definition buf_fresh :: "buf \<Rightarrow> bool" where
  "buf_fresh b \<longleftrightarrow> b_flags b = 0 \<and> b_dev b = 0 \<and> b_refcnt b = 0"

lemma link_loop:
  assumes "n \<le> NBUF" "length bs = NBUF + 1" "b_next (bs ! NBUF) = NBUF" "b_prev (bs ! NBUF) = NBUF"
  shows "seg (fold link_front [0..<n] bs) NBUF (rev [0..<n]) NBUF \<and> length (fold link_front [0..<n] bs) = NBUF + 1 \<and>
    (\<forall>k<NBUF. buf_fresh (fold link_front [0..<n] bs ! k) = buf_fresh (bs ! k))"
  using assms(1)
proof (induction n)
  case 0
  then show ?case using assms by simp
next
  case (Suc n)
  let ?c = "fold link_front [0..<n] bs"
  have ih: "seg ?c NBUF (rev [0..<n]) NBUF" "length ?c = NBUF + 1" "\<forall>k<NBUF. buf_fresh (?c ! k) = buf_fresh (bs ! k)"
    using Suc by simp_all
  have "seg (link_front n ?c) NBUF (n # rev [0..<n]) NBUF"
    by (rule seg_link_front [OF ih(1)]) (use Suc.prems ih(2) in auto)
  then show ?case using ih(2,3) by (simp add: buf_fresh_def)
qed

lemma bufs_binit: "bufs (binit s) = fold link_front [0..<NBUF] (upd_ix NBUF (\<lambda>b. b\<lparr>b_prev := NBUF, b_next := NBUF\<rparr>) (bufs s))"
proof -
  have "bufs (fold (\<lambda>i s. initsleeplock (L_bufsleep i) ''buffer'' (s\<lparr>bufs := link_front i (bufs s)\<rparr>)) is u) =
      fold link_front is (bufs u)" for "is" and u :: "'a kbio_scheme"
    by (induction "is" arbitrary: u) (simp_all add: initsleeplock_def Let_def)
  then show ?thesis by (simp add: binit_def Let_def)
qed

lemma slocks_binit:
  assumes "i < NBUF"
  shows "sl_locked (slocks (binit s) (L_bufsleep i)) = 0"
proof -
  have "i \<in> set is \<Longrightarrow> sl_locked (slocks (fold (\<lambda>i s. initsleeplock (L_bufsleep i) ''buffer'' (s\<lparr>bufs := link_front i (bufs s)\<rparr>)) is u) (L_bufsleep i)) = 0
    \<and> True" for "is" and u :: "'a kbio_scheme"
  proof (induction "is" rule: rev_induct)
    case (snoc x xs)
    then show ?case by (auto simp: initsleeplock_def Let_def)
  qed simp
  then show ?thesis using assms by (simp add: binit_def Let_def)
qed

lemma bio_inv_binit:
  assumes "length (bufs s) = NBUF + 1" "\<forall>i<NBUF. buf_fresh (bufs s ! i)"
  shows "bio_inv (binit s)"
proof -
  let ?bs = "upd_ix NBUF (\<lambda>b. b\<lparr>b_prev := NBUF, b_next := NBUF\<rparr>) (bufs s)"
  have l: "seg (bufs (binit s)) NBUF (rev [0..<NBUF]) NBUF" "length (bufs (binit s)) = NBUF + 1"
    "\<forall>k<NBUF. buf_fresh (bufs (binit s) ! k) = buf_fresh (?bs ! k)"
    unfolding bufs_binit using link_loop [of NBUF ?bs] assms(1) by simp_all
  then have f: "buf_fresh (bufs (binit s) ! k)" if "k < NBUF" for k using assms that by simp
  have "lru (bufs (binit s)) (rev [0..<NBUF])" using l(1,2) by (auto simp: lru_def)
  moreover have "buf_ok (binit s) k" if "k < NBUF" for k
    using f [OF that] slocks_binit [OF that, of s] by (simp add: buf_ok_def buf_fresh_def)
  moreover have "b_dev (bufs (binit s) ! k) \<noteq> 1" if "k < NBUF" for k using f [OF that] by (simp add: buf_fresh_def)
  ultimately show ?thesis unfolding bio_inv_def by blast
qed

section \<open>Properties\<close>

definition kbio0 :: kbio where
  "kbio0 = (binit (kslp.extend kslp0 (kbio.fields
     (replicate (NBUF + 1) \<lparr>b_flags = 0, b_dev = 0, b_blockno = 0, b_refcnt = 0, b_prev = 0, b_next = 0, b_data = []\<rparr>)
     (\<lambda>_. replicate 512 0) 1000 [])))\<lparr>lk := lk0\<rparr>"

lemma binit_frame: "cur (binit s) = cur s" "disksize (binit s) = disksize s" "memdisk (binit s) = memdisk s"
  "dtrace (binit s) = dtrace s"
proof -
  have "cur (fold (\<lambda>i s. initsleeplock (L_bufsleep i) ''buffer'' (s\<lparr>bufs := link_front i (bufs s)\<rparr>)) is u) = cur u \<and>
    disksize (fold (\<lambda>i s. initsleeplock (L_bufsleep i) ''buffer'' (s\<lparr>bufs := link_front i (bufs s)\<rparr>)) is u) = disksize u \<and>
    memdisk (fold (\<lambda>i s. initsleeplock (L_bufsleep i) ''buffer'' (s\<lparr>bufs := link_front i (bufs s)\<rparr>)) is u) = memdisk u \<and>
    dtrace (fold (\<lambda>i s. initsleeplock (L_bufsleep i) ''buffer'' (s\<lparr>bufs := link_front i (bufs s)\<rparr>)) is u) = dtrace u"
    for "is" and u :: "'a kbio_scheme"
    by (induction "is" arbitrary: u) (simp_all add: initsleeplock_def Let_def)
  then show "cur (binit s) = cur s" "disksize (binit s) = disksize s" "memdisk (binit s) = memdisk s"
    "dtrace (binit s) = dtrace s" by (simp_all add: binit_def Let_def)
qed

lemma kbio0_ok: "quiet kbio0" "bio_inv kbio0" "\<not> cached kbio0 i b" "disksize kbio0 = 1000" "\<not> bheld kbio0 i b"
  "bpinned kbio0 = {}" "memdisk kbio0 = (\<lambda>_. replicate 512 0)" "dtrace kbio0 = []"
proof -
  define u :: kbio where "u = kslp.extend kslp0 (kbio.fields
     (replicate (NBUF + 1) \<lparr>b_flags = 0, b_dev = 0, b_blockno = 0, b_refcnt = 0, b_prev = 0, b_next = 0, b_data = []\<rparr>)
     (\<lambda>_. replicate 512 0) 1000 [])"
  have k: "kbio0 = (binit u)\<lparr>lk := lk0\<rparr>" by (simp add: kbio0_def u_def)
  have u: "cur u = Some 0" "disksize u = 1000" "length (bufs u) = NBUF + 1" "\<forall>i<NBUF. buf_fresh (bufs u ! i)"
    "memdisk u = (\<lambda>_. replicate 512 0)" "dtrace u = []"
    by (simp_all add: u_def kslp.defs kbio.defs kslp0_def kproc.defs kproc0_def kmem.defs buf_fresh_def
        del: replicate.simps)
  show "quiet kbio0" using u(1) by (simp add: quiet_def k binit_frame)
  have b: "bio_inv (binit u)" using u(3,4) by (rule bio_inv_binit)
  then show "bio_inv kbio0" by (simp add: k bio_inv_def buf_ok_def)
  have "buf_fresh (bufs (binit u) ! i)" if "i < NBUF" for i
    unfolding bufs_binit using link_loop [of NBUF "upd_ix NBUF (\<lambda>b. b\<lparr>b_prev := NBUF, b_next := NBUF\<rparr>) (bufs u)"] u(3,4) that by simp
  then show c: "\<not> cached kbio0 i b" for i b by (auto simp: k cached_def buf_fresh_def)
  then show "\<not> bheld kbio0 i b" "bpinned kbio0 = {}" by (simp_all add: bheld_def bpinned_def)
  show "disksize kbio0 = 1000" "memdisk kbio0 = (\<lambda>_. replicate 512 0)" "dtrace kbio0 = []"
    using u by (simp_all add: k binit_frame)
qed

text \<open>
  C35. Coherence of the buffer cache: reading block \<open>b\<close>, changing the buffer, writing it and
  releasing it puts the new contents on the disk, and a later read of any block \<open>c\<close>
  returns the contents last given to it, whether from the cache or from the disk.
\<close>

theorem buffer_cache_coherence:
  assumes "quiet s" "bio_inv s" "\<And>i b. \<not> bheld s i b" "b < disksize s" "c < disksize s" "b \<notin> bpinned s"
    "card (bpinned s) < NBUF"
  shows "\<exists>i s1 s2 s3 j s4. bread 1 b s = Ok (i, s1) \<and> b_data (bufs s1 ! i) = blk s b \<and>
    bwrite i (upd_buf i (\<lambda>x. x\<lparr>b_data := d\<rparr>) s1) = Ok s2 \<and> brelse i s2 = Ok s3 \<and>
    memdisk s3 = (memdisk s)(b := d) \<and> bread 1 c s3 = Ok (j, s4) \<and> bio_inv s4 \<and>
    b_data (bufs s4 ! j) = (if c = b then d else blk s c)"
proof -
  have idle: "bcache.idle s" using assms(1-3) by (simp add: bcache.idle_def)
  from bcache.modify_block [OF idle assms(4,6,7), of "\<lambda>_. d"] obtain s3 where
    m: "rbind (bread 1 b s) (\<lambda>(i, s). rbind (bwrite i (upd_buf i (\<lambda>x. x\<lparr>b_data := d\<rparr>) s)) (brelse i)) = Ok s3"
      "bcache.idle s3" "bio_same s s3" "blk s3 = (blk s)(b := d)" "memdisk s3 = (memdisk s)(b := d)" "bpinned s3 = bpinned s"
    by auto
  from m(1) obtain i s1 s2 where r: "bread 1 b s = Ok (i, s1)"
    "bwrite i (upd_buf i (\<lambda>x. x\<lparr>b_data := d\<rparr>) s1) = Ok s2" "brelse i s2 = Ok s3"
    by (auto simp: rbind_Ok_iff)
  have "b \<notin> heldset s" "heldset s = {}" using assms(3) by (simp_all add: heldset_def)
  from bread_spec [OF assms(1,2,4) this(1)] this(2) assms(7) r(1)
  have s1: "bio_inv s1" "blk s1 = blk s" "bheld s1 i b" by auto
  have i3: "quiet s3" "bio_inv s3" "\<And>i b. \<not> bheld s3 i b"
    using m(2) by (auto simp: bcache.idle_def)
  have "c \<notin> heldset s3" "heldset s3 = {}" "c < disksize s3"
    using i3(3) bio_sameD(3) [OF m(3)] assms(5) by (simp_all add: heldset_def)
  from bread_spec [OF i3(1,2) this(3,1)] this(2) assms(7) m(6) obtain j s4 where
    s4: "bread 1 c s3 = Ok (j, s4)" "bio_inv s4" "blk s4 = blk s3" "bheld s4 j c" by auto
  have "b_data (bufs s4 ! j) = (if c = b then d else blk s c)"
    using bheldD(9) [OF s4(2,4)] s4(3) m(4) by simp
  moreover have "b_data (bufs s1 ! i) = blk s b" using bheldD(9) [OF s1(1,3)] s1(2) by simp
  ultimately show ?thesis using r m(5) s4 by blast
qed

theorem buffer_cache_coherence_witness:
  "\<exists>i s1. bread 1 7 kbio0 = Ok (i, s1) \<and> b_data (bufs s1 ! i) = replicate 512 0"
proof -
  have z: "blk kbio0 7 = replicate 512 0"
    using blk_uncached [OF bio_invD(2) [OF kbio0_ok(2)], of 7] kbio0_ok(3,7) by simp
  have k: "(7::u32) < disksize kbio0" "7 \<notin> bpinned kbio0" "card (bpinned kbio0) < NBUF"
    by (simp_all add: kbio0_ok NBUF_def)
  from buffer_cache_coherence [OF kbio0_ok(1,2) kbio0_ok(5) k(1,1,2,3)] z show ?thesis by metis
qed



end
