(* ===== verification/Layout.thy ===== *)
theory Layout
  imports Strings
begin

text \<open>
  Little-endian fields of on-disk structures, which the C code reads and writes through
  pointers into the data of a block, and loops over the outcome type.
\<close>

section \<open>Definitions\<close>

definition get16 :: "u8 list \<Rightarrow> nat \<Rightarrow> u16" where
  "get16 d k = ucast (d ! k) OR push_bit 8 (ucast (d ! (k + 1)))"

definition put16 :: "u8 list \<Rightarrow> nat \<Rightarrow> u16 \<Rightarrow> u8 list" where
  "put16 d k v = d[k := ucast v, k + 1 := ucast (drop_bit 8 v)]"

definition get32 :: "u8 list \<Rightarrow> nat \<Rightarrow> u32" where
  "get32 d k = ucast (d ! k) OR push_bit 8 (ucast (d ! (k + 1))) OR
     push_bit 16 (ucast (d ! (k + 2))) OR push_bit 24 (ucast (d ! (k + 3)))"

definition put32 :: "u8 list \<Rightarrow> nat \<Rightarrow> u32 \<Rightarrow> u8 list" where
  "put32 d k v = d[k := ucast v, k + 1 := ucast (drop_bit 8 v), k + 2 := ucast (drop_bit 16 v),
     k + 3 := ucast (drop_bit 24 v)]"

text \<open>An array of words at an offset, element by element as the copying loops do.\<close>

definition get32s :: "u8 list \<Rightarrow> nat \<Rightarrow> nat \<Rightarrow> u32 list" where
  "get32s d k n = map (\<lambda>i. get32 d (k + 4 * i)) [0..<n]"

fun put32s :: "u8 list \<Rightarrow> nat \<Rightarrow> u32 list \<Rightarrow> u8 list" where
  "put32s d k [] = d"
| "put32s d k (v # vs) = put32s (put32 d k v) (k + 4) vs"

text \<open>The bytes of a block from \<open>k\<close> on replaced by \<open>xs\<close> (\<open>memmove\<close> into a block).\<close>

definition splice :: "u8 list \<Rightarrow> nat \<Rightarrow> u8 list \<Rightarrow> u8 list" where
  "splice d k xs = take k d @ xs @ drop (k + length xs) d"

text \<open>\<open>for\<close> loops over an index range, with early exit on a panic.\<close>

fun rfold :: "('a \<Rightarrow> 's \<Rightarrow> 's res) \<Rightarrow> 'a list \<Rightarrow> 's \<Rightarrow> 's res" where
  "rfold f [] s = Ok s"
| "rfold f (x # xs) s = rbind (f x s) (rfold f xs)"

section \<open>Lemmas\<close>

lemma length_puts [simp]: "length (put16 d k v16) = length d" "length (put32 d k v) = length d"
  "length (put32s d k vs) = length d"
proof -
  show "length (put16 d k v16) = length d" "length (put32 d k v) = length d"
    by (simp_all add: put16_def put32_def)
  show "length (put32s d k vs) = length d" by (induction vs arbitrary: d k) (simp_all add: put32_def)
qed

lemma length_get32s [simp]: "length (get32s d k n) = n"
  by (simp add: get32s_def)

lemma le32: "ucast (ucast v :: u8) OR push_bit 8 (ucast (ucast (drop_bit 8 v) :: u8)) OR
  push_bit 16 (ucast (ucast (drop_bit 16 v) :: u8)) OR push_bit 24 (ucast (ucast (drop_bit 24 v) :: u8)) = (v :: u32)"
  using load32_store32_same [of "\<lambda>_. 0" 0 v] by (simp add: load32_def store32_def)

lemma le16: "ucast (ucast v :: u8) OR push_bit 8 (ucast (ucast (drop_bit 8 v) :: u8)) = (v :: u16)"
proof (rule bit_word_eqI)
  fix n
  assume "n < LENGTH(16)"
  then consider "n < 8" | "8 \<le> n" "n < 16" by fastforce
  then show "bit (ucast (ucast v :: u8) OR push_bit 8 (ucast (ucast (drop_bit 8 v) :: u8)) :: u16) n = bit v n"
    by cases (auto simp: bit_simps)
qed

lemma get32_put32_same [simp]: "k + 4 \<le> length d \<Longrightarrow> get32 (put32 d k v) k = v"
  using le32 [of v] by (simp add: get32_def put32_def)

lemma get32_put32_diff [simp]: "j + 4 \<le> k \<or> k + 4 \<le> j \<Longrightarrow> get32 (put32 d k v) j = get32 d j"
  by (auto simp: get32_def put32_def)

lemma get16_put16_same [simp]: "k + 2 \<le> length d \<Longrightarrow> get16 (put16 d k v) k = v"
  using le16 [of v] by (simp add: get16_def put16_def)

lemma get16_put16_diff [simp]: "j + 2 \<le> k \<or> k + 2 \<le> j \<Longrightarrow> get16 (put16 d k v) j = get16 d j"
  by (auto simp: get16_def put16_def)

lemma get16_put32_diff [simp]: "j + 2 \<le> k \<or> k + 4 \<le> j \<Longrightarrow> get16 (put32 d k v) j = get16 d j"
  by (auto simp: get16_def put32_def)

lemma get32_put16_diff [simp]: "j + 4 \<le> k \<or> k + 2 \<le> j \<Longrightarrow> get32 (put16 d k v) j = get32 d j"
  by (auto simp: get32_def put16_def)

lemma get32_put32s_before: "j + 4 \<le> k \<Longrightarrow> get32 (put32s d k vs) j = get32 d j"
  by (induction vs arbitrary: d k) simp_all

lemma get16_put32s_before: "j + 2 \<le> k \<Longrightarrow> get16 (put32s d k vs) j = get16 d j"
  by (induction vs arbitrary: d k) simp_all

lemma get32_put32s_after: "k + 4 * length vs \<le> j \<Longrightarrow> get32 (put32s d k vs) j = get32 d j"
  by (induction vs arbitrary: d k) simp_all

lemma get16_put32s_after: "k + 4 * length vs \<le> j \<Longrightarrow> get16 (put32s d k vs) j = get16 d j"
  by (induction vs arbitrary: d k) simp_all

lemma get32_put32s:
  "k + 4 * length vs \<le> length d \<Longrightarrow> i < length vs \<Longrightarrow> get32 (put32s d k vs) (k + 4 * i) = vs ! i"
proof (induction vs arbitrary: d k i)
  case (Cons v vs)
  show ?case
  proof (cases i)
    case 0
    then show ?thesis using Cons.prems by (simp add: get32_put32s_before)
  next
    case (Suc j)
    then show ?thesis using Cons.IH [of "k + 4" "put32 d k v" j] Cons.prems by (simp add: add.assoc)
  qed
qed simp

lemma get32s_put32s [simp]: "k + 4 * length vs \<le> length d \<Longrightarrow> get32s (put32s d k vs) k (length vs) = vs"
  by (rule nth_equalityI) (simp_all add: get32s_def get32_put32s)

lemma get32s_cong: "(\<And>i. i < n \<Longrightarrow> get32 d (k + 4 * i) = get32 e (k + 4 * i)) \<Longrightarrow> get32s d k n = get32s e k n"
  by (simp add: get32s_def)

lemma length_splice [simp]: "k + length xs \<le> length d \<Longrightarrow> length (splice d k xs) = length d"
  by (simp add: splice_def)

lemma nth_splice:
  "k + length xs \<le> length d \<Longrightarrow> j < length d \<Longrightarrow>
   splice d k xs ! j = (if k \<le> j \<and> j < k + length xs then xs ! (j - k) else d ! j)"
  by (auto simp: splice_def nth_append min_def)

lemma rfold_append: "rfold f (xs @ ys) s = rbind (rfold f xs s) (rfold f ys)"
  by (induction xs arbitrary: s) (auto simp: rbind_assoc intro!: rbind_cong)

lemma rfold_cong: "(\<And>x s. x \<in> set xs \<Longrightarrow> f x s = g x s) \<Longrightarrow> rfold f xs s = rfold g xs s"
proof (induction xs arbitrary: s)
  case (Cons x xs)
  have "rfold f xs = rfold g xs" using Cons by auto
  then show ?case using Cons.prems by simp
qed simp

text \<open>An invariant of a loop, indexed by the number of rounds done.\<close>

lemma rfold_upt:
  assumes "I 0 s" "\<And>k s. k < n \<Longrightarrow> I k s \<Longrightarrow> \<exists>t. f k s = Ok t \<and> I (Suc k) t"
  shows "\<exists>t. rfold f [0..<n] s = Ok t \<and> I n t"
  using assms
proof (induction n)
  case (Suc n)
  then obtain t where t: "rfold f [0..<n] s = Ok t" "I n t" by (metis less_Suc_eq)
  from Suc.prems(2) [of n t] t(2) obtain u where "f n t = Ok u" "I (Suc n) u" by blast
  then show ?case using t(1) by (simp add: rfold_append)
qed simp

end
