(* ===== verification/Log.thy ===== *)
theory Log
  imports Bio Layout
begin

text \<open>
  log.c: the redo log that makes file system calls atomic, and \<open>readsb\<close> of fs.c, which
  \<open>initlog\<close> calls. Loops that copy header entries stop with a panic of the model where the
  C code would write past the array \<open>log.lh.block\<close> (a corrupt header on the disk). The
  wait loop of \<open>begin_op\<close> takes a bound on the number of sleeps, as in Sleeplock.
\<close>

section \<open>Data (log.c, fs.h, param.h)\<close>

definition MAXOPBLOCKS :: nat where "MAXOPBLOCKS = 10"

definition LOGSIZE :: nat where "LOGSIZE = MAXOPBLOCKS * 3"

record logheader =
  lh_n :: cint
  lh_block :: "u32 list"

record log =
  log_start :: u32
  log_size :: cint
  log_outstanding :: cint
  log_committing :: bool
  log_dev :: u32
  log_lh :: logheader

record superblock =
  sb_size :: u32
  sb_nblocks :: u32
  sb_ninodes :: u32
  sb_nlog :: u32
  sb_logstart :: u32
  sb_inodestart :: u32
  sb_bmapstart :: u32

record klog = kbio +
  log_st :: log

definition upd_log :: "(log \<Rightarrow> log) \<Rightarrow> 'a klog_scheme \<Rightarrow> 'a klog_scheme" where
  "upd_log f s = s\<lparr>log_st := f (log_st s)\<rparr>"

abbreviation lh :: "'a klog_scheme \<Rightarrow> logheader" where
  "lh s \<equiv> log_lh (log_st s)"

definition set_n :: "cint \<Rightarrow> 'a klog_scheme \<Rightarrow> 'a klog_scheme" where
  "set_n n = upd_log (\<lambda>l. l\<lparr>log_lh := (log_lh l)\<lparr>lh_n := n\<rparr>\<rparr>)"

definition set_block :: "nat \<Rightarrow> u32 \<Rightarrow> 'a klog_scheme \<Rightarrow> 'a klog_scheme res" where
  "set_block i v s =
     (if i < length (lh_block (lh s))
      then Ok (upd_log (\<lambda>l. l\<lparr>log_lh := (log_lh l)\<lparr>lh_block := (lh_block (log_lh l))[i := v]\<rparr>\<rparr>) s)
      else Panic ''log.lh.block overrun'')"

text \<open>\<open>for (i = 0; i < log.lh.n; i++)\<close>\<close>

abbreviation upto_n :: "cint \<Rightarrow> nat list" where
  "upto_n n \<equiv> [0..<nat (sint n)]"

section \<open>Operations\<close>

definition sb_of :: "block \<Rightarrow> superblock" where
  "sb_of d = \<lparr>sb_size = get32 d 0, sb_nblocks = get32 d 4, sb_ninodes = get32 d 8, sb_nlog = get32 d 12,
     sb_logstart = get32 d 16, sb_inodestart = get32 d 20, sb_bmapstart = get32 d 24\<rparr>"

definition readsb :: "u32 \<Rightarrow> 'a kbio_scheme \<Rightarrow> (superblock \<times> 'a kbio_scheme) res" where
  "readsb dev s =
     rbind (bread dev 1 s) (\<lambda>(bp, s).
     let sb = sb_of (b_data (bufs s ! bp))
     in rbind (brelse bp s) (\<lambda>s. Ok (sb, s)))"

definition install_one :: "nat \<Rightarrow> 'a klog_scheme \<Rightarrow> 'a klog_scheme res" where
  "install_one tail s =
     rbind (bread (log_dev (log_st s)) (log_start (log_st s) + of_nat tail + 1) s) (\<lambda>(lbuf, s).
     rbind (bread (log_dev (log_st s)) (lh_block (lh s) ! tail) s) (\<lambda>(dbuf, s).
     rbind (bwrite dbuf (upd_buf dbuf (\<lambda>b. b\<lparr>b_data := b_data (bufs s ! lbuf)\<rparr>) s)) (\<lambda>s.
     rbind (brelse lbuf s) (brelse dbuf))))"

definition install_trans :: "'a klog_scheme \<Rightarrow> 'a klog_scheme res" where
  "install_trans s = rfold install_one (upto_n (lh_n (lh s))) s"

definition read_head :: "'a klog_scheme \<Rightarrow> 'a klog_scheme res" where
  "read_head s =
     rbind (bread (log_dev (log_st s)) (log_start (log_st s)) s) (\<lambda>(buf, s).
     let d = b_data (bufs s ! buf);
         s = set_n (get32 d 0) s
     in rbind (rfold (\<lambda>i. set_block i (get32 d (4 + 4 * i))) (upto_n (lh_n (lh s))) s) (brelse buf))"

text \<open>The header block with the entries of the header in memory stored into it.\<close>

definition put_head :: "logheader \<Rightarrow> block \<Rightarrow> block" where
  "put_head h d = put32s (put32 d 0 (lh_n h)) 4 (take (nat (sint (lh_n h))) (lh_block h))"

definition write_head :: "'a klog_scheme \<Rightarrow> 'a klog_scheme res" where
  "write_head s =
     rbind (bread (log_dev (log_st s)) (log_start (log_st s)) s) (\<lambda>(buf, s).
     rbind (bwrite buf (upd_buf buf (\<lambda>b. b\<lparr>b_data := put_head (lh s) (b_data (bufs s ! buf))\<rparr>) s)) (brelse buf))"

definition recover_from_log :: "'a klog_scheme \<Rightarrow> 'a klog_scheme res" where
  "recover_from_log s =
     rbind (read_head s) (\<lambda>s. rbind (install_trans s) (\<lambda>s. write_head (set_n 0 s)))"

text \<open>\<open>sizeof(struct logheader)\<close> is 4 * (LOGSIZE + 1).\<close>

definition initlog :: "u32 \<Rightarrow> 'a klog_scheme \<Rightarrow> 'a klog_scheme res" where
  "initlog dev s =
     (if BSIZE \<le> 4 * (LOGSIZE + 1) then Panic ''initlog: too big logheader''
      else let s = s\<lparr>lk := initlock L_log ''log'' (lk s)\<rparr>
           in rbind (readsb dev s) (\<lambda>(sb, s).
              recover_from_log (upd_log (\<lambda>l. l\<lparr>log_start := sb_logstart sb, log_size := sb_nlog sb, log_dev := dev\<rparr>) s)))"

text \<open>C ints: \<open>log.lh.n + (log.outstanding+1)*MAXOPBLOCKS > LOGSIZE\<close>.\<close>

definition log_full :: "log \<Rightarrow> bool" where
  "log_full l \<longleftrightarrow> of_nat LOGSIZE <s lh_n (log_lh l) + (log_outstanding l + 1) * of_nat MAXOPBLOCKS"

fun begin_wait :: "nat \<Rightarrow> ('a klog_scheme \<Rightarrow> 'a klog_scheme) \<Rightarrow> 'a klog_scheme \<Rightarrow> 'a klog_scheme res" where
  "begin_wait fuel resume s =
     (if log_committing (log_st s) \<or> log_full (log_st s)
      then case fuel of
             0 \<Rightarrow> Blocked
           | Suc fuel' \<Rightarrow> rbind (sleep resume C_log (Some L_log) s) (begin_wait fuel' resume)
      else krelease L_log (upd_log (\<lambda>l. l\<lparr>log_outstanding := log_outstanding l + 1\<rparr>) s))"

declare begin_wait.simps [simp del]

definition begin_op :: "nat \<Rightarrow> ('a klog_scheme \<Rightarrow> 'a klog_scheme) \<Rightarrow> 'a klog_scheme \<Rightarrow> 'a klog_scheme res" where
  "begin_op fuel resume s = rbind (kacquire L_log s) (begin_wait fuel resume)"

abbreviation begin_op_now :: "'a klog_scheme \<Rightarrow> 'a klog_scheme res" where
  "begin_op_now \<equiv> begin_op 0 id"

definition write_log_one :: "nat \<Rightarrow> 'a klog_scheme \<Rightarrow> 'a klog_scheme res" where
  "write_log_one tail s =
     rbind (bread (log_dev (log_st s)) (log_start (log_st s) + of_nat tail + 1) s) (\<lambda>(to, s).
     rbind (bread (log_dev (log_st s)) (lh_block (lh s) ! tail) s) (\<lambda>(from, s).
     rbind (bwrite to (upd_buf to (\<lambda>b. b\<lparr>b_data := b_data (bufs s ! from)\<rparr>) s)) (\<lambda>s.
     rbind (brelse from s) (brelse to))))"

definition write_log :: "'a klog_scheme \<Rightarrow> 'a klog_scheme res" where
  "write_log s = rfold write_log_one (upto_n (lh_n (lh s))) s"

definition commit :: "'a klog_scheme \<Rightarrow> 'a klog_scheme res" where
  "commit s =
     (if 0 <s lh_n (lh s)
      then rbind (write_log s) (\<lambda>s.
           rbind (write_head s) (\<lambda>s.
           rbind (install_trans s) (\<lambda>s.
           write_head (set_n 0 s))))
      else Ok s)"

definition end_op :: "'a klog_scheme \<Rightarrow> 'a klog_scheme res" where
  "end_op s =
     rbind (kacquire L_log s) (\<lambda>s.
     let s = upd_log (\<lambda>l. l\<lparr>log_outstanding := log_outstanding l - 1\<rparr>) s
     in if log_committing (log_st s) then Panic ''log.committing''
        else if log_outstanding (log_st s) = 0
        then rbind (krelease L_log (upd_log (\<lambda>l. l\<lparr>log_committing := True\<rparr>) s)) (\<lambda>s.
             rbind (commit s) (\<lambda>s.
             rbind (kacquire L_log s) (\<lambda>s.
             rbind (wakeup C_log (upd_log (\<lambda>l. l\<lparr>log_committing := False\<rparr>) s)) (krelease L_log))))
        else rbind (wakeup C_log s) (krelease L_log))"

text \<open>The index at which \<open>log_write\<close> stores the block number (log absorption).\<close>

definition log_slot :: "logheader \<Rightarrow> u32 \<Rightarrow> nat" where
  "log_slot h b = (case first_ix (\<lambda>x. x = b) (take (nat (sint (lh_n h))) (lh_block h)) of
     Some i \<Rightarrow> i | None \<Rightarrow> nat (sint (lh_n h)))"

definition log_write :: "nat \<Rightarrow> 'a klog_scheme \<Rightarrow> 'a klog_scheme res" where
  "log_write i s =
     (if of_nat LOGSIZE \<le>s lh_n (lh s) \<or> log_size (log_st s) - 1 \<le>s lh_n (lh s)
      then Panic ''too big a transaction''
      else if log_outstanding (log_st s) <s 1 then Panic ''log_write outside of trans''
      else
        rbind (kacquire L_log s) (\<lambda>s.
        let b = b_blockno (bufs s ! i); k = log_slot (lh s) b
        in rbind (set_block k b s) (\<lambda>s.
           let s = (if int k = sint (lh_n (lh s)) then set_n (lh_n (lh s) + 1) s else s);
               s = upd_buf i (\<lambda>b. b\<lparr>b_flags := b_flags b OR B_DIRTY\<rparr>) s
           in krelease L_log s)))"

section \<open>The disk during a commit and a recovery\<close>

text \<open>Successive block writes, oldest first.\<close>

definition apply_writes :: "(u32 \<Rightarrow> block) \<Rightarrow> (u32 \<times> block) list \<Rightarrow> u32 \<Rightarrow> block" where
  "apply_writes d ws = fold (\<lambda>(b, x) d. d(b := x)) ws d"

lemma apply_writes_simps [simp]:
  "apply_writes d [] = d" "apply_writes d ((b, x) # ws) = apply_writes (d(b := x)) ws"
  "apply_writes d (ws @ vs) = apply_writes (apply_writes d ws) vs"
  by (simp_all add: apply_writes_def)

lemma apply_writes_other: "c \<notin> fst ` set ws \<Longrightarrow> apply_writes d ws c = d c"
  by (induction ws arbitrary: d) auto

lemma apply_writes_take_other: "c \<notin> fst ` set ws \<Longrightarrow> apply_writes d (take k ws) c = d c"
  by (rule apply_writes_other) (auto dest: in_set_takeD)

lemma apply_writes_same: "(\<And>b x. (b, x) \<in> set ws \<Longrightarrow> b = c \<Longrightarrow> x = v) \<Longrightarrow> c \<in> fst ` set ws \<Longrightarrow> apply_writes d ws c = v"
proof (induction ws arbitrary: d)
  case (Cons w ws)
  obtain b x where w: "w = (b, x)" by fastforce
  show ?case
  proof (cases "c \<in> fst ` set ws")
    case True
    moreover have "\<And>b x. (b, x) \<in> set ws \<Longrightarrow> b = c \<Longrightarrow> x = v" using Cons.prems(1) by (metis list.set_intros(2))
    ultimately have "apply_writes (d(b := x)) ws c = v" by (rule Cons.IH [rotated])
    then show ?thesis by (simp only: w apply_writes_simps)
  next
    case False
    then have "c = b" using Cons.prems(2) w by auto
    then show ?thesis using False Cons.prems(1) w by (simp add: apply_writes_other)
  qed
qed simp

text \<open>The log area: the header block and the blocks for up to LOGSIZE - 1 copies.\<close>

definition logblk :: "u32 \<Rightarrow> nat \<Rightarrow> u32" where
  "logblk start i = start + of_nat i + 1"

definition in_log :: "u32 \<Rightarrow> u32 \<Rightarrow> bool" where
  "in_log start b \<longleftrightarrow> unat start \<le> unat b \<and> unat b < unat start + LOGSIZE"

lemma unat_logblk:
  assumes "i < LOGSIZE" "unat start + LOGSIZE < 4294967296"
  shows "unat (logblk start i) = unat start + i + 1"
proof -
  have i: "unat (of_nat i :: u32) = i" using assms by simp
  have "unat (start + of_nat i) = unat start + i" using assms i by (subst unat_add_u32) simp_all
  then show ?thesis unfolding logblk_def using assms by (subst unat_add_u32) simp_all
qed

lemma logblk_in_log:
  assumes "Suc i < LOGSIZE" "unat start + LOGSIZE < 4294967296"
  shows "in_log start (logblk start i)" "logblk start i \<noteq> start"
proof -
  have u: "unat (logblk start i) = unat start + i + 1" using assms by (intro unat_logblk) linarith+
  show "in_log start (logblk start i)" unfolding in_log_def u using assms(1) by linarith
  show "logblk start i \<noteq> start" using u by (metis add.assoc less_add_same_cancel1 less_irrefl zero_less_Suc Suc_eq_plus1)
qed

lemma logblk_inj:
  assumes "i < LOGSIZE" "j < LOGSIZE" "unat start + LOGSIZE < 4294967296" "logblk start i = logblk start j"
  shows "i = j"
  using unat_logblk [OF assms(1,3)] unat_logblk [OF assms(2,3)] unfolding assms(4) by linarith

lemma in_log_start [simp]: "in_log start start"
  by (simp add: in_log_def LOGSIZE_def MAXOPBLOCKS_def)

text \<open>What a header block says, and what recovery makes of a disk.\<close>

definition head_n :: "block \<Rightarrow> nat" where
  "head_n d = nat (sint (get32 d 0))"

definition head_blocks :: "block \<Rightarrow> u32 list" where
  "head_blocks d = get32s d 4 (head_n d)"

definition install_writes :: "u32 \<Rightarrow> u32 list \<Rightarrow> (u32 \<Rightarrow> block) \<Rightarrow> (u32 \<times> block) list" where
  "install_writes start bs d = map (\<lambda>i. (bs ! i, d (logblk start i))) [0..<length bs]"

definition recover_disk :: "u32 \<Rightarrow> (u32 \<Rightarrow> block) \<Rightarrow> u32 \<Rightarrow> block" where
  "recover_disk start d =
     (let d' = apply_writes d (install_writes start (head_blocks (d start)) d)
      in d'(start := put32 (d' start) 0 0))"

text \<open>The writes of a commit of the blocks \<open>bs\<close> with the contents \<open>v\<close>.\<close>

definition commit_writes :: "u32 \<Rightarrow> logheader \<Rightarrow> (u32 \<Rightarrow> block) \<Rightarrow> (u32 \<times> block) list" where
  "commit_writes start h v =
     (let bs = take (nat (sint (lh_n h))) (lh_block h); hd1 = put_head h (v start)
      in map (\<lambda>i. (logblk start i, v (bs ! i))) [0..<length bs] @ [(start, hd1)] @
         map (\<lambda>b. (b, v b)) bs @ [(start, put32 hd1 0 0)])"

lemma put_head_n:
  assumes "length d = BSIZE" "0 \<le> sint (lh_n h)" "nat (sint (lh_n h)) \<le> length (lh_block h)"
    "length (lh_block h) = LOGSIZE"
  shows "get32 (put_head h d) 0 = lh_n h" "head_blocks (put_head h d) = take (nat (sint (lh_n h))) (lh_block h)"
    "length (put_head h d) = BSIZE"
proof -
  let ?bs = "take (nat (sint (lh_n h))) (lh_block h)"
  have l: "length ?bs = nat (sint (lh_n h))" using assms(3) by simp
  show n: "get32 (put_head h d) 0 = lh_n h"
    using assms(1) by (simp add: put_head_def get32_put32s_before BSIZE_def)
  show "length (put_head h d) = BSIZE" using assms(1) by (simp add: put_head_def)
  have "4 + 4 * length ?bs \<le> length (put32 d 0 (lh_n h))"
    using assms by (simp add: BSIZE_def LOGSIZE_def MAXOPBLOCKS_def)
  then have "get32s (put_head h d) 4 (length ?bs) = ?bs" unfolding put_head_def by (rule get32s_put32s)
  then show "head_blocks (put_head h d) = ?bs" unfolding head_blocks_def head_n_def n l .
qed

section \<open>The log operations on an idle cache\<close>

lemma card_insert_le_Suc: "card (insert a A) \<le> Suc (card A)"
  by (cases "finite A") (simp_all add: card_insert_if)

lemma bio_same_log: "bio_same s t \<Longrightarrow> log_st t = log_st s"
  unfolding bio_same_def by (drule arg_cong [where f = log_st]) simp

definition logged :: "'a klog_scheme \<Rightarrow> u32 list" where
  "logged s = take (nat (sint (lh_n (lh s)))) (lh_block (lh s))"

text \<open>The log lies on the disk, the header in memory is an array of LOGSIZE entries, and the
  logged blocks are distinct blocks of the disk outside the log, fewer than LOGSIZE.\<close>

definition log_ok :: "'a klog_scheme \<Rightarrow> bool" where
  "log_ok s \<longleftrightarrow> log_dev (log_st s) = 1 \<and> length (lh_block (lh s)) = LOGSIZE \<and>
     unat (log_start (log_st s)) + LOGSIZE \<le> unat (disksize s) \<and>
     0 \<le> sint (lh_n (lh s)) \<and> sint (lh_n (lh s)) < int LOGSIZE \<and> distinct (logged s) \<and>
     (\<forall>b\<in>set (logged s). b < disksize s \<and> \<not> in_log (log_start (log_st s)) b)"

lemma log_okD:
  assumes "log_ok s"
  shows "log_dev (log_st s) = 1" "length (lh_block (lh s)) = LOGSIZE"
    "unat (log_start (log_st s)) + LOGSIZE < 4294967296" "length (logged s) = nat (sint (lh_n (lh s)))"
    "length (logged s) < LOGSIZE" "distinct (logged s)" "log_start (log_st s) < disksize s"
    "\<And>k. k < length (logged s) \<Longrightarrow> logblk (log_start (log_st s)) k < disksize s"
    "\<And>k. k < length (logged s) \<Longrightarrow> logged s ! k < disksize s \<and> \<not> in_log (log_start (log_st s)) (logged s ! k)"
    "\<And>k. k < length (logged s) \<Longrightarrow> logged s ! k = lh_block (lh s) ! k"
proof -
  have o: "log_dev (log_st s) = 1" "length (lh_block (lh s)) = LOGSIZE"
    "unat (log_start (log_st s)) + LOGSIZE \<le> unat (disksize s)" "0 \<le> sint (lh_n (lh s))"
    "sint (lh_n (lh s)) < int LOGSIZE" "distinct (logged s)"
    "\<forall>b\<in>set (logged s). b < disksize s \<and> \<not> in_log (log_start (log_st s)) b"
    using assms unfolding log_ok_def by blast+
  show "log_dev (log_st s) = 1" "length (lh_block (lh s)) = LOGSIZE" "distinct (logged s)" by fact+
  show l: "unat (log_start (log_st s)) + LOGSIZE < 4294967296"
    using o(3) unsigned_less [of "disksize s", where ?'a = nat] by simp
  show n: "length (logged s) = nat (sint (lh_n (lh s)))" using o(2,4,5) by (simp add: logged_def)
  show n': "length (logged s) < LOGSIZE" using o(4,5) n by linarith
  have "unat (log_start (log_st s)) < unat (disksize s)" using o(3) n' by linarith
  then show "log_start (log_st s) < disksize s" by (simp add: word_less_nat_alt)
  show "logblk (log_start (log_st s)) k < disksize s" if "k < length (logged s)" for k
  proof -
    have "unat (logblk (log_start (log_st s)) k) = unat (log_start (log_st s)) + k + 1"
      using that n' l by (intro unat_logblk) linarith+
    then show ?thesis using that n' o(3) unfolding word_less_nat_alt by linarith
  qed
  show "logged s ! k < disksize s \<and> \<not> in_log (log_start (log_st s)) (logged s ! k)" if "k < length (logged s)" for k
    using o(7) nth_mem [OF that] by blast
  show "logged s ! k = lh_block (lh s) ! k" if "k < length (logged s)" for k
    using that n by (simp add: logged_def)
qed

lemma log_ok_same:
  assumes "bio_same s t"
  shows "log_ok t = log_ok s" "logged t = logged s"
  using bio_same_log [OF assms] bio_sameD(3) [OF assms] by (simp_all add: log_ok_def logged_def)

lemma logged_not_logblk:
  assumes "log_ok s" "j < length (logged s)" "k < length (logged s)"
  shows "logged s ! j \<noteq> logblk (log_start (log_st s)) k"
proof -
  have "Suc k < LOGSIZE" using log_okD(5) [OF assms(1)] assms(3) by linarith
  from logblk_in_log(1) [OF this log_okD(3) [OF assms(1)]] log_okD(9) [OF assms(1,2)] show ?thesis by metis
qed

lemma install_one_spec:
  assumes s: "bcache.idle s" "log_ok s" and k: "k < length (logged s)" "card (bpinned s) < NBUF"
    and p: "logged s ! k \<in> bpinned s \<or> card (bpinned s) < NBUF - 1"
      "logblk (log_start (log_st s)) k \<notin> bpinned s"
  shows "\<exists>t. install_one k s = Ok t \<and> bcache.idle t \<and> bio_same s t \<and>
    blk t = (blk s)(logged s ! k := blk s (logblk (log_start (log_st s)) k)) \<and>
    memdisk t = (memdisk s)(logged s ! k := blk s (logblk (log_start (log_st s)) k)) \<and>
    dtrace t = dtrace s @ [(logged s ! k, blk s (logblk (log_start (log_st s)) k))] \<and>
    bpinned t = bpinned s - {logged s ! k}"
proof -
  let ?a = "logblk (log_start (log_st s)) k" and ?b = "logged s ! k"
  have ab: "?a \<noteq> ?b" using logged_not_logblk [OF s(2) k(1) k(1)] by metis
  have c: "?b \<in> bpinned s \<or> card (insert ?a (bpinned s)) < NBUF"
    using p(1) by (rule disj_forward) (auto intro: le_less_trans [OF card_insert_le_Suc])
  obtain i s1 j s2 where r: "bread 1 ?a s = Ok (i, s1)" "bread 1 ?b s1 = Ok (j, s2)" "i \<noteq> j"
    "quiet s2 \<and> bio_inv s2" "bio_same s s1" "bio_same s s2" "blk s2 = blk s" "memdisk s2 = memdisk s"
    "dtrace s2 = dtrace s" "bpinned s2 = bpinned s" "\<And>k c. bheld s2 k c \<longleftrightarrow> k = i \<and> c = ?a \<or> k = j \<and> c = ?b"
    using bcache.two_buffers [OF s(1) log_okD(8) [OF s(2) k(1)] conjunct1 [OF log_okD(9) [OF s(2) k(1)]] ab k(2) c] by blast
  have a: "?a \<in> bpinned s2 \<or> blk s2 ?a = memdisk s2 ?a"
    using bcache.in_step [OF bcache.idleD(1) [OF s(1)] p(2) bcache.idleD(2) [OF s(1)]] r(7,8) by simp
  note w = bcache.write_and_release [OF r(4) r(11) r(3) ab a, unfolded r(7-10)]
  show ?thesis
    using w r(1,2) bio_same_trans [OF r(6)] bio_same_log [OF r(5)] log_okD(1) [OF s(2)] log_okD(10) [OF s(2) k(1)]
    by (auto simp: install_one_def logblk_def)
qed

lemma write_log_one_spec:
  assumes s: "bcache.idle s" "log_ok s" and k: "k < length (logged s)" "card (bpinned s) < NBUF"
    and p: "logged s ! k \<in> bpinned s" "logblk (log_start (log_st s)) k \<notin> bpinned s"
  shows "\<exists>t. write_log_one k s = Ok t \<and> bcache.idle t \<and> bio_same s t \<and>
    blk t = (blk s)(logblk (log_start (log_st s)) k := blk s (logged s ! k)) \<and>
    memdisk t = (memdisk s)(logblk (log_start (log_st s)) k := blk s (logged s ! k)) \<and>
    dtrace t = dtrace s @ [(logblk (log_start (log_st s)) k, blk s (logged s ! k))] \<and>
    bpinned t = bpinned s"
proof -
  let ?a = "logblk (log_start (log_st s)) k" and ?b = "logged s ! k"
  have ab: "?a \<noteq> ?b" "?b \<noteq> ?a" using logged_not_logblk [OF s(2) k(1) k(1)] by metis+
  obtain i s1 j s2 where r: "bread 1 ?a s = Ok (i, s1)" "bread 1 ?b s1 = Ok (j, s2)" "i \<noteq> j"
    "quiet s2 \<and> bio_inv s2" "bio_same s s1" "bio_same s s2" "blk s2 = blk s" "memdisk s2 = memdisk s"
    "dtrace s2 = dtrace s" "bpinned s2 = bpinned s" "\<And>k c. bheld s2 k c \<longleftrightarrow> k = i \<and> c = ?a \<or> k = j \<and> c = ?b"
    using bcache.two_buffers [OF s(1) log_okD(8) [OF s(2) k(1)] conjunct1 [OF log_okD(9) [OF s(2) k(1)]] ab(1) k(2) disjI1 [OF p(1)]]
    by blast
  have h: "bheld s2 k c \<longleftrightarrow> k = j \<and> c = ?b \<or> k = i \<and> c = ?a" for k c unfolding r(11) by (rule disj_commute)
  have "?b \<in> bpinned s2 \<or> blk s2 ?b = memdisk s2 ?b" using p(1) r(10) by simp
  note w = bcache.write_and_release [OF r(4) h r(3) [symmetric] ab(2) this, unfolded r(7-10)]
  show ?thesis
    using w r(1,2) bio_same_trans [OF r(6)] bio_same_log [OF r(5)] log_okD(1) [OF s(2)] log_okD(10) [OF s(2) k(1)] p(2)
    by (auto simp: write_log_one_def logblk_def)
qed

lemma write_head_spec:
  assumes s: "bcache.idle s" and l: "log_dev (log_st s) = 1" "log_start (log_st s) < disksize s"
    "log_start (log_st s) \<notin> bpinned s" "card (bpinned s) < NBUF"
  shows "\<exists>t. write_head s = Ok t \<and> bcache.idle t \<and> bio_same s t \<and>
    blk t = (blk s)(log_start (log_st s) := put_head (lh s) (blk s (log_start (log_st s)))) \<and>
    memdisk t = (memdisk s)(log_start (log_st s) := put_head (lh s) (blk s (log_start (log_st s)))) \<and>
    dtrace t = dtrace s @ [(log_start (log_st s), put_head (lh s) (blk s (log_start (log_st s))))] \<and>
    bpinned t = bpinned s"
proof -
  let ?b = "log_start (log_st s)"
  have nh: "\<not> bheld s i c" for i c using s by (rule bcache.idleD(2))
  have "\<exists>i t. bread 1 ?b s = Ok (i, t) \<and> bio_same s t"
    using bcache.read_ok [OF bcache.idleD(1) [OF s] l(2)] l(4) nh by auto
  then obtain i t where r: "bread 1 ?b s = Ok (i, t)" "log_st t = log_st s" using bio_same_log by blast
  show ?thesis
    using bcache.modify_block [OF s l(2-4), of "put_head (lh s)"] r l(1) unfolding write_head_def by auto
qed

text \<open>The two loops.\<close>

lemma take_Suc_map_upt: "k < n \<Longrightarrow> take (Suc k) (map f [0..<n]) = take k (map f [0..<n]) @ [f k]"
  by (simp add: take_Suc_conv_app_nth)

lemma write_log_spec:
  assumes s: "bcache.idle s" "log_ok s" and p: "bpinned s = set (logged s)"
  defines "ws \<equiv> map (\<lambda>i. (logblk (log_start (log_st s)) i, blk s (logged s ! i))) [0..<length (logged s)]"
  shows "\<exists>t. write_log s = Ok t \<and> bcache.idle t \<and> bio_same s t \<and> blk t = apply_writes (blk s) ws \<and>
    memdisk t = apply_writes (memdisk s) ws \<and> dtrace t = dtrace s @ ws \<and> bpinned t = bpinned s"
proof -
  let ?I = "\<lambda>k t. bcache.idle t \<and> bio_same s t \<and> blk t = apply_writes (blk s) (take k ws) \<and>
    memdisk t = apply_writes (memdisk s) (take k ws) \<and> dtrace t = dtrace s @ take k ws \<and> bpinned t = bpinned s"
  have c: "card (bpinned s) < NBUF"
    using card_length [of "logged s"] log_okD(5) [OF s(2)] p by (simp add: NBUF_def LOGSIZE_def MAXOPBLOCKS_def)
  have step: "\<exists>t. write_log_one k u = Ok t \<and> ?I (Suc k) t" if k: "k < length (logged s)" and u: "?I k u" for k u
  proof -
    have same: "log_st u = log_st s" "log_ok u" "logged u = logged s"
      using u s(2) bio_same_log log_ok_same by blast+
    have "logged s ! k \<notin> fst ` set ws"
      using logged_not_logblk [OF s(2) k] unfolding ws_def by fastforce
    then have v: "blk u (logged s ! k) = blk s (logged s ! k)"
      using u by (simp add: apply_writes_take_other)
    have nb: "logblk (log_start (log_st s)) k \<notin> bpinned s"
      using logged_not_logblk [OF s(2) _ k] unfolding p by (metis in_set_conv_nth)
    have mem: "logged s ! k \<in> bpinned s" using nth_mem [OF k] p by simp
    have pu: "bpinned u = bpinned s" using u by blast
    have sub: "ws = map (\<lambda>i. (logblk (log_start (log_st s)) i, blk s (logged s ! i))) [0..<length (logged s)]"
      by (simp add: ws_def)
    obtain t where t: "write_log_one k u = Ok t" "bcache.idle t" "bio_same u t"
      "blk t = (blk u)(logblk (log_start (log_st s)) k := blk u (logged s ! k))"
      "memdisk t = (memdisk u)(logblk (log_start (log_st s)) k := blk u (logged s ! k))"
      "dtrace t = dtrace u @ [(logblk (log_start (log_st s)) k, blk u (logged s ! k))]"
      "bpinned t = bpinned u"
      using write_log_one_spec [of u k, unfolded same(1,3) pu] u same(2) k c nb mem pu by auto
    show ?thesis
      using t u v bio_same_trans k unfolding sub by (auto simp: take_Suc_map_upt)
  qed
  have all: "take (length (logged s)) ws = ws" by (simp add: ws_def)
  have "?I 0 s" using s(1) by simp
  from rfold_upt [of ?I s "length (logged s)" write_log_one, OF this step] show ?thesis
    unfolding write_log_def log_okD(4) [OF s(2), symmetric] all .
qed

lemma install_trans_spec:
  assumes s: "bcache.idle s" "log_ok s" and p: "bpinned s \<subseteq> set (logged s)"
  defines "ws \<equiv> install_writes (log_start (log_st s)) (logged s) (blk s)"
  shows "\<exists>t. install_trans s = Ok t \<and> bcache.idle t \<and> bio_same s t \<and> blk t = apply_writes (blk s) ws \<and>
    memdisk t = apply_writes (memdisk s) ws \<and> dtrace t = dtrace s @ ws \<and> bpinned t = {}"
proof -
  let ?I = "\<lambda>k t. bcache.idle t \<and> bio_same s t \<and> blk t = apply_writes (blk s) (take k ws) \<and>
    memdisk t = apply_writes (memdisk s) (take k ws) \<and> dtrace t = dtrace s @ take k ws \<and>
    bpinned t = bpinned s - set (take k (logged s))"
  have sub: "ws = map (\<lambda>i. (logged s ! i, blk s (logblk (log_start (log_st s)) i))) [0..<length (logged s)]"
    by (simp add: ws_def install_writes_def)
  have step: "\<exists>t. install_one k u = Ok t \<and> ?I (Suc k) t" if k: "k < length (logged s)" and u: "?I k u" for k u
  proof -
    have same: "log_st u = log_st s" "log_ok u" "logged u = logged s"
      using u s(2) bio_same_log log_ok_same by blast+
    have nb: "logblk (log_start (log_st s)) k \<notin> set (logged s)"
      using logged_not_logblk [OF s(2) _ k] by (metis in_set_conv_nth)
    then have "logblk (log_start (log_st s)) k \<notin> fst ` set ws" unfolding sub by auto
    then have v: "blk u (logblk (log_start (log_st s)) k) = blk s (logblk (log_start (log_st s)) k)"
      using u by (simp add: apply_writes_take_other)
    have pu: "bpinned u \<subseteq> set (logged s)" using u p by blast
    have n: "card (set (logged s)) < LOGSIZE" using card_length [of "logged s"] log_okD(5) [OF s(2)] by linarith
    have c: "card (bpinned u) < NBUF" using card_mono [OF _ pu] n by (simp add: NBUF_def LOGSIZE_def MAXOPBLOCKS_def)
    have "card (bpinned u) < card (set (logged s))" if "logged s ! k \<notin> bpinned u"
      using that pu nth_mem [OF k] by (intro psubset_card_mono) auto
    then have m: "logged s ! k \<in> bpinned u \<or> card (bpinned u) < NBUF - 1"
      using n unfolding NBUF_def LOGSIZE_def MAXOPBLOCKS_def by linarith
    obtain t where t: "install_one k u = Ok t" "bcache.idle t" "bio_same u t"
      "blk t = (blk u)(logged s ! k := blk u (logblk (log_start (log_st s)) k))"
      "memdisk t = (memdisk u)(logged s ! k := blk u (logblk (log_start (log_st s)) k))"
      "dtrace t = dtrace u @ [(logged s ! k, blk u (logblk (log_start (log_st s)) k))]"
      "bpinned t = bpinned u - {logged s ! k}"
      using install_one_spec [of u k, unfolded same(1,3)] u same(2) k c nb m pu by auto
    show ?thesis
      using t u v bio_same_trans k unfolding sub by (auto simp: take_Suc_map_upt take_Suc_conv_app_nth)
  qed
  have all: "take (length (logged s)) ws = ws" "bpinned s - set (take (length (logged s)) (logged s)) = {}"
    using p by (auto simp: sub)
  have "?I 0 s" using s(1) by simp
  from rfold_upt [of ?I s "length (logged s)" install_one, OF this step] show ?thesis
    unfolding install_trans_def log_okD(4) [OF s(2), symmetric] all .
qed

lemma upd_log_bio [simp]:
  "bcache.idle (upd_log f s) = bcache.idle s" "blk (upd_log f s) = blk s" "bpinned (upd_log f s) = bpinned s"
  "memdisk (upd_log f s) = memdisk s" "dtrace (upd_log f s) = dtrace s" "disksize (upd_log f s) = disksize s"
  "log_st (upd_log f s) = f (log_st s)"
  "bcache.idle (set_n n s) = bcache.idle s" "blk (set_n n s) = blk s" "bpinned (set_n n s) = bpinned s"
  "memdisk (set_n n s) = memdisk s" "dtrace (set_n n s) = dtrace s" "disksize (set_n n s) = disksize s"
  "log_st (set_n n s) = (log_st s)\<lparr>log_lh := (lh s)\<lparr>lh_n := n\<rparr>\<rparr>"
proof -
  show a: "bcache.idle (upd_log f s) = bcache.idle s" "blk (upd_log f s) = blk s" "bpinned (upd_log f s) = bpinned s"
    for f and s :: "'a klog_scheme"
    unfolding bcache.idle_def
    by (auto simp: upd_log_def quiet_def bio_inv_def buf_ok_def bheld_def cached_def blk_def bpinned_def fun_eq_iff
      split: option.split)
  show "bcache.idle (set_n n s) = bcache.idle s" "blk (set_n n s) = blk s" "bpinned (set_n n s) = bpinned s"
    unfolding set_n_def a by simp_all
qed (simp_all add: upd_log_def set_n_def)

lemma put_head_0: "put_head (h\<lparr>lh_n := 0\<rparr>) d = put32 d 0 0"
  by (simp add: put_head_def)

lemma start_not_logged: "log_ok s \<Longrightarrow> log_start (log_st s) \<notin> set (logged s)"
  by (auto simp: log_ok_def)

lemma write_log_reads_back:
  assumes "log_ok s" "k < length (logged s)"
  shows "apply_writes d (map (\<lambda>i. (logblk (log_start (log_st s)) i, v (logged s ! i))) [0..<length (logged s)])
    (logblk (log_start (log_st s)) k) = v (logged s ! k)"
proof (rule apply_writes_same)
  let ?L = "logblk (log_start (log_st s))"
  have n: "i < LOGSIZE" if "i < length (logged s)" for i using that log_okD(5) [OF assms(1)] by linarith
  fix b x assume "(b, x) \<in> set (map (\<lambda>i. (?L i, v (logged s ! i))) [0..<length (logged s)])" "b = ?L k"
  then obtain i where i: "i < length (logged s)" "?L i = ?L k" "x = v (logged s ! i)" by auto
  have "i = k" by (rule logblk_inj [OF n [OF i(1)] n [OF assms(2)] log_okD(3) [OF assms(1)] i(2)])
  then show "x = v (logged s ! k)" using i(3) by simp
next
  show "logblk (log_start (log_st s)) k \<in>
    fst ` set (map (\<lambda>i. (logblk (log_start (log_st s)) i, v (logged s ! i))) [0..<length (logged s)])"
    using assms(2) by (auto simp: image_image)
qed

lemma start_not_logblk:
  assumes "log_ok s"
  shows "log_start (log_st s) \<notin> fst ` set (map (\<lambda>i. (logblk (log_start (log_st s)) i, v i)) [0..<length (logged s)])"
    (is "?s \<notin> _")
proof
  assume "?s \<in> fst ` set (map (\<lambda>i. (logblk ?s i, v i)) [0..<length (logged s)])"
  then obtain i where i: "i < length (logged s)" "logblk ?s i = ?s" by auto
  then have "Suc i < LOGSIZE" using log_okD(5) [OF assms] by linarith
  from logblk_in_log(2) [OF this log_okD(3) [OF assms]] i(2) show False by simp
qed

lemma commit_spec:
  assumes s: "bcache.idle s" "log_ok s" and p: "bpinned s = set (logged s)" and n: "0 <s lh_n (lh s)"
  defines "W \<equiv> commit_writes (log_start (log_st s)) (lh s) (blk s)"
  shows "\<exists>t. commit s = Ok t \<and> bcache.idle t \<and> bio_same (set_n 0 s) t \<and> blk t = apply_writes (blk s) W \<and>
    memdisk t = apply_writes (memdisk s) W \<and> dtrace t = dtrace s @ W \<and> bpinned t = {}"
proof -
  let ?st = "log_start (log_st s)" and ?h = "put_head (lh s) (blk s (log_start (log_st s)))"
  let ?W1 = "map (\<lambda>i. (logblk ?st i, blk s (logged s ! i))) [0..<length (logged s)]"
  let ?W3 = "map (\<lambda>b. (b, blk s b)) (logged s)"
  have c: "card (bpinned s) < NBUF" "?st \<notin> bpinned s"
    using card_length [of "logged s"] log_okD(5) [OF s(2)] start_not_logged [OF s(2)] p
    by (simp_all add: NBUF_def LOGSIZE_def MAXOPBLOCKS_def)
  obtain t1 where t1: "write_log s = Ok t1" "bcache.idle t1" "bio_same s t1" "blk t1 = apply_writes (blk s) ?W1"
    "memdisk t1 = apply_writes (memdisk s) ?W1" "dtrace t1 = dtrace s @ ?W1" "bpinned t1 = bpinned s"
    using write_log_spec [OF s p] by blast
  note st1 = bio_same_log [OF t1(3)] log_ok_same [OF t1(3)] bio_sameD(3) [OF t1(3)]
  have v1: "blk t1 ?st = blk s ?st"
    using apply_writes_other [OF start_not_logblk [OF s(2)]] t1(4) by simp
  obtain t2 where t2: "write_head t1 = Ok t2" "bcache.idle t2" "bio_same t1 t2" "blk t2 = (blk t1)(?st := ?h)"
    "memdisk t2 = (memdisk t1)(?st := ?h)" "dtrace t2 = dtrace t1 @ [(?st, ?h)]" "bpinned t2 = bpinned s"
    using write_head_spec [OF t1(2), unfolded st1 v1 t1(7), OF log_okD(1,7) [OF s(2)] c(2,1)] by blast
  have s2: "bio_same s t2" using t1(3) t2(3) by (rule bio_same_trans)
  note st2 = bio_same_log [OF s2] log_ok_same [OF s2] bio_sameD(3) [OF s2]
  have iw: "install_writes ?st (logged s) (blk t2) = ?W3"
  proof (rule nth_equalityI)
    fix i assume "i < length (install_writes ?st (logged s) (blk t2))"
    then have i: "i < length (logged s)" by (simp add: install_writes_def)
    then have "Suc i < LOGSIZE" using log_okD(5) [OF s(2)] by linarith
    from logblk_in_log(2) [OF this log_okD(3) [OF s(2)]]
    have "blk t2 (logblk ?st i) = blk s (logged s ! i)"
      using write_log_reads_back [OF s(2) i, of "blk s" "blk s"] t2(4) t1(4) by simp
    then show "install_writes ?st (logged s) (blk t2) ! i = ?W3 ! i" using i by (simp add: install_writes_def)
  qed (simp add: install_writes_def)
  obtain t3 where t3: "install_trans t2 = Ok t3" "bcache.idle t3" "bio_same t2 t3" "blk t3 = apply_writes (blk t2) ?W3"
    "memdisk t3 = apply_writes (memdisk t2) ?W3" "dtrace t3 = dtrace t2 @ ?W3" "bpinned t3 = {}"
    using install_trans_spec [OF t2(2), unfolded st2 t2(7) iw p, OF s(2) subset_refl] by blast
  have s3: "bio_same s t3" using s2 t3(3) by (rule bio_same_trans)
  note st3 = bio_same_log [OF s3] bio_sameD(3) [OF s3]
  have v3: "blk t3 ?st = ?h"
    using apply_writes_other [of ?st ?W3 "blk t2"] start_not_logged [OF s(2)] t3(4) t2(4) by (auto simp: image_image)
  have i0: "bcache.idle (set_n 0 t3)" using t3(2) by simp
  obtain t where t: "write_head (set_n 0 t3) = Ok t" "bcache.idle t" "bio_same (set_n 0 t3) t"
    "blk t = (blk t3)(?st := put32 ?h 0 0)" "memdisk t = (memdisk t3)(?st := put32 ?h 0 0)"
    "dtrace t = dtrace t3 @ [(?st, put32 ?h 0 0)]" "bpinned t = {}"
    using write_head_spec [OF i0] st3 log_okD(1,7) [OF s(2)] t3(7) v3 by (auto simp: put_head_0 NBUF_def)
  have "bio_same (set_n 0 s) t"
    using s3 t(3) by (cases s; cases t3; cases t) (simp add: bio_same_def set_n_def upd_log_def)
  moreover have "W = ?W1 @ [(?st, ?h)] @ ?W3 @ [(?st, put32 ?h 0 0)]"
    by (simp add: W_def commit_writes_def Let_def logged_def)
  ultimately show ?thesis
    using n t1(1,4-6) t2(1,4-6) t3(1,4-6) t by (auto simp: commit_def)
qed

lemma set_block_loop:
  "n \<le> length (lh_block (lh s)) \<Longrightarrow> rfold (\<lambda>i. set_block i (g i)) [0..<n] s =
    Ok (upd_log (\<lambda>l. l\<lparr>log_lh := (log_lh l)\<lparr>lh_block := map g [0..<n] @ drop n (lh_block (log_lh l))\<rparr>\<rparr>) s)"
proof (induction n)
  case 0
  then show ?case by (cases s) (simp add: upd_log_def)
next
  case (Suc n)
  then have "(map g [0..<n] @ drop n (lh_block (lh s)))[n := g n] = map g [0..<Suc n] @ drop (Suc n) (lh_block (lh s))"
    by (simp add: list_update_append Cons_nth_drop_Suc [symmetric])
  with Suc show ?case by (cases s) (simp add: rfold_append set_block_def upd_log_def)
qed

lemma upd_log_held [simp]:
  "quiet (upd_log f s) = quiet s" "bio_inv (upd_log f s) = bio_inv s" "bheld (upd_log f s) = bheld s"
  "bufs (upd_log f s) = bufs s"
  by (auto simp: upd_log_def quiet_def bio_inv_def buf_ok_def bheld_def cached_def fun_eq_iff)

lemma read_head_spec:
  assumes s: "bcache.idle s" "log_dev (log_st s) = 1" "log_start (log_st s) < disksize s" "card (bpinned s) < NBUF"
    and d: "d = blk s (log_start (log_st s))" "log_start (log_st s) \<notin> bpinned s" "head_n d \<le> length (lh_block (lh s))"
  shows "\<exists>t. read_head s = Ok t \<and> bcache.idle t \<and>
    bio_same (upd_log (\<lambda>l. l\<lparr>log_lh := \<lparr>lh_n = get32 d 0, lh_block = head_blocks d @ drop (head_n d) (lh_block (log_lh l))\<rparr>\<rparr>) s) t \<and>
    blk t = blk s \<and> memdisk t = memdisk s \<and> dtrace t = dtrace s \<and> bpinned t = bpinned s"
proof -
  let ?b = "log_start (log_st s)"
  have nh: "\<not> bheld s i c" for i c using s(1) by (rule bcache.idleD(2))
  obtain i s1 where r: "bread 1 ?b s = Ok (i, s1)" "quiet s1 \<and> bio_inv s1" "bio_same s s1" "blk s1 = blk s"
    "memdisk s1 = memdisk s" "dtrace s1 = dtrace s" "bpinned s1 = bpinned s" "\<And>j c. bheld s1 j c \<longleftrightarrow> j = i \<and> c = ?b"
    using bcache.read_ok [OF bcache.idleD(1) [OF s(1)] s(3)] s(4) nh by auto
  have h: "bheld s1 i ?b" using r(8) by simp
  have dv: "b_data (bufs s1 ! i) = d" using bcache.data_view [OF r(2) h] r(4) d(1) by simp
  note l1 = bio_same_log [OF r(3)]
  let ?f = "\<lambda>l. l\<lparr>log_lh := \<lparr>lh_n = get32 d 0, lh_block = head_blocks d @ drop (head_n d) (lh_block (log_lh l))\<rparr>\<rparr>"
  let ?g = "\<lambda>i. get32 d (4 + 4 * i)"
  have loop: "rfold (\<lambda>i. set_block i (?g i)) [0..<head_n d] (set_n (get32 d 0) s1) = Ok (upd_log ?f s1)"
    using set_block_loop [of "head_n d" "set_n (get32 d 0) s1" ?g] d(3) l1
    by (cases s1) (simp add: upd_log_def set_n_def head_blocks_def get32s_def)
  have "quiet (upd_log ?f s1) \<and> bio_inv (upd_log ?f s1)" "bheld (upd_log ?f s1) i ?b" using r(2) h by simp_all
  moreover have "blk (upd_log ?f s1) ?b = memdisk (upd_log ?f s1) ?b"
    using bcache.in_step [OF bcache.idleD(1) [OF s(1)] d(2) nh] r(4,5) by simp
  ultimately obtain t where t: "brelse i (upd_log ?f s1) = Ok t" "quiet t \<and> bio_inv t" "bio_same (upd_log ?f s1) t"
    "blk t = blk s" "memdisk t = memdisk s" "dtrace t = dtrace s" "bpinned t = bpinned s" "\<forall>j c. bheld t j c \<longleftrightarrow> bheld s1 j c \<and> j \<noteq> i"
    using bcache.release_ok [of "upd_log ?f s1" i ?b] r(4-7) by auto
  have "bcache.idle t" using t(2,8) r(8) unfolding bcache.idle_def by blast
  moreover have "read_head s = Ok t"
    unfolding read_head_def s(2) r(1) using loop t(1) by (simp add: dv head_n_def)
  moreover have "bio_same (upd_log ?f s) t"
    using r(3) t(3) by (cases s; cases s1; cases t) (simp add: bio_same_def upd_log_def)
  ultimately show ?thesis using t(4-7) by blast
qed

text \<open>A state in which recovery may start: nothing cached is dirty or in use, and the header
  block on the disk lists blocks of the file system.\<close>

definition head_ok :: "u32 \<Rightarrow> u32 \<Rightarrow> block \<Rightarrow> bool" where
  "head_ok start nblk d \<longleftrightarrow> 0 \<le> sint (get32 d 0) \<and> sint (get32 d 0) < int LOGSIZE \<and> distinct (head_blocks d) \<and>
     (\<forall>b\<in>set (head_blocks d). b < nblk \<and> \<not> in_log start b)"

definition boot_ok :: "'a klog_scheme \<Rightarrow> bool" where
  "boot_ok s \<longleftrightarrow> bcache.idle s \<and> bpinned s = {} \<and> log_dev (log_st s) = 1 \<and> length (lh_block (lh s)) = LOGSIZE \<and>
     unat (log_start (log_st s)) + LOGSIZE \<le> unat (disksize s)"

definition recover_writes :: "u32 \<Rightarrow> (u32 \<Rightarrow> block) \<Rightarrow> (u32 \<times> block) list" where
  "recover_writes start d =
     (let ws = install_writes start (head_blocks (d start)) d
      in ws @ [(start, put32 (apply_writes d ws start) 0 0)])"

lemma recover_disk_writes: "recover_disk start d = apply_writes d (recover_writes start d)"
  by (simp add: recover_disk_def recover_writes_def Let_def)

lemma boot_disk: "boot_ok s \<Longrightarrow> blk s = memdisk s"
  using bcache.in_step [OF bcache.idleD(1) _ bcache.idleD(2)] by (auto simp: boot_ok_def)

lemma length_head_blocks [simp]: "length (head_blocks d) = head_n d"
  by (simp add: head_blocks_def get32s_def)

lemma recover_spec:
  assumes b: "boot_ok s" and h: "head_ok (log_start (log_st s)) (disksize s) (memdisk s (log_start (log_st s)))"
  shows "\<exists>t. recover_from_log s = Ok t \<and> boot_ok t \<and> lh_n (lh t) = 0 \<and>
    memdisk t = recover_disk (log_start (log_st s)) (memdisk s) \<and>
    dtrace t = dtrace s @ recover_writes (log_start (log_st s)) (memdisk s) \<and>
    log_start (log_st t) = log_start (log_st s) \<and> log_size (log_st t) = log_size (log_st s) \<and> disksize t = disksize s"
proof -
  let ?st = "log_start (log_st s)"
  define d where "d = memdisk s ?st"
  have s: "bcache.idle s" "bpinned s = {}" "log_dev (log_st s) = 1" "length (lh_block (lh s)) = LOGSIZE"
    "unat ?st + LOGSIZE \<le> unat (disksize s)" using b by (simp_all add: boot_ok_def)
  have hn: "head_n d < LOGSIZE" using h by (simp add: head_ok_def head_n_def d_def nat_less_iff)
  have "unat ?st < unat (disksize s)" using s(5) hn by linarith
  then have lt: "?st < disksize s" by (simp add: word_less_nat_alt)
  have dv: "d = blk s ?st" using boot_disk [OF b] by (simp add: d_def)
  let ?f = "\<lambda>l. l\<lparr>log_lh := \<lparr>lh_n = get32 d 0, lh_block = head_blocks d @ drop (head_n d) (lh_block (log_lh l))\<rparr>\<rparr>"
  obtain t1 where t1: "read_head s = Ok t1" "bcache.idle t1" "bio_same (upd_log ?f s) t1" "blk t1 = memdisk s"
    "memdisk t1 = memdisk s" "dtrace t1 = dtrace s" "bpinned t1 = {}"
    using read_head_spec [OF s(1,3) lt _ dv] s(2,4) hn boot_disk [OF b] by (auto simp: NBUF_def)
  have l1: "log_st t1 = ?f (log_st s)" "disksize t1 = disksize s"
    using bio_same_log [OF t1(3)] bio_sameD(3) [OF t1(3)] by simp_all
  have lg: "logged t1 = head_blocks d" by (simp add: logged_def l1(1) head_n_def [symmetric])
  have ok: "log_ok t1"
    using h s(3-5) hn unfolding log_ok_def lg by (simp add: l1 head_ok_def d_def)
  let ?W = "install_writes ?st (head_blocks d) (memdisk s)"
  obtain t2 where t2: "install_trans t1 = Ok t2" "bcache.idle t2" "bio_same t1 t2" "blk t2 = apply_writes (memdisk s) ?W"
    "memdisk t2 = apply_writes (memdisk s) ?W" "bpinned t2 = {}" "dtrace t2 = dtrace s @ ?W"
    using install_trans_spec [OF t1(2) ok] t1(4-7) by (auto simp: lg l1)
  have l2: "log_st t2 = ?f (log_st s)" "disksize t2 = disksize s"
    using bio_same_log [OF t2(3)] bio_sameD(3) [OF t2(3)] l1 by simp_all
  let ?d2 = "apply_writes (memdisk s) ?W"
  have i0: "bcache.idle (set_n 0 t2)" using t2(2) by simp
  obtain t where t: "write_head (set_n 0 t2) = Ok t" "bcache.idle t" "bio_same (set_n 0 t2) t"
    "memdisk t = ?d2(?st := put32 (?d2 ?st) 0 0)" "bpinned t = {}"
    "dtrace t = dtrace t2 @ [(?st, put32 (?d2 ?st) 0 0)]"
    using write_head_spec [OF i0] t2(4-6) l2 s(3) lt
      put_head_0 [of "\<lparr>lh_n = get32 d 0, lh_block = head_blocks d @ drop (head_n d) (lh_block (lh s))\<rparr>"]
    by (auto simp: NBUF_def)
  have "log_st t = (?f (log_st s))\<lparr>log_lh := (log_lh (?f (log_st s)))\<lparr>lh_n := 0\<rparr>\<rparr>" "disksize t = disksize s"
    using bio_same_log [OF t(3)] bio_sameD(3) [OF t(3)] l2 by simp_all
  moreover have "recover_from_log s = Ok t" using t1(1) t2(1) t(1) by (simp add: recover_from_log_def)
  ultimately show ?thesis
    using t(2,4-6) t2(7) s hn by (simp add: boot_ok_def recover_disk_def recover_writes_def Let_def d_def)
qed


section \<open>Crashes\<close>

lemma install_writes_fst [simp]: "fst ` set (install_writes start bs d) = set bs"
  by (force simp: install_writes_def image_image set_conv_nth)

lemma install_writes_listed:
  assumes "distinct bs" "i < length bs"
  shows "apply_writes d (install_writes start bs f) (bs ! i) = f (logblk start i)"
proof (rule apply_writes_same)
  fix b x assume "(b, x) \<in> set (install_writes start bs f)" "b = bs ! i"
  then show "x = f (logblk start i)" using assms by (auto simp: install_writes_def nth_eq_iff_index_eq)
qed (use assms in simp)

lemma recover_disk_listed:
  assumes "distinct (head_blocks (d start))" "i < head_n (d start)" "head_blocks (d start) ! i \<noteq> start"
  shows "recover_disk start d (head_blocks (d start) ! i) = d (logblk start i)"
  using assms install_writes_listed [of "head_blocks (d start)" i] by (simp add: recover_disk_def Let_def)

lemma recover_disk_unlisted:
  "b \<notin> set (head_blocks (d start)) \<Longrightarrow> \<not> in_log start b \<Longrightarrow> recover_disk start d b = d b"
  by (cases "b = start") (simp_all add: recover_disk_def Let_def apply_writes_other)

text \<open>Recovery depends on the log and the unlisted blocks only.\<close>

lemma recover_disk_cong:
  assumes "head_ok start nblk (d start)" "unat start + LOGSIZE < 4294967296"
    and e: "e start = d start" "\<And>i. i < head_n (d start) \<Longrightarrow> e (logblk start i) = d (logblk start i)"
      "b \<notin> set (head_blocks (d start)) \<Longrightarrow> e b = d b" and b: "\<not> in_log start b"
  shows "recover_disk start e b = recover_disk start d b"
proof -
  have h: "distinct (head_blocks (d start))" using assms(1) by (simp add: head_ok_def)
  have ne: "b \<noteq> start" using b by auto
  show ?thesis
  proof (cases "b \<in> set (head_blocks (d start))")
    case True
    then obtain i where i: "i < head_n (d start)" "b = head_blocks (d start) ! i"
      by (auto simp: in_set_conv_nth)
    then show ?thesis
      using recover_disk_listed [of d start i] recover_disk_listed [of e start i] h ne e(1,2) by simp
  next
    case False
    then show ?thesis using recover_disk_unlisted [of b _ start] b e(1,3) by simp
  qed
qed

lemma head_n_cleared: "4 \<le> length d \<Longrightarrow> head_n (put32 d 0 0) = 0" "4 \<le> length d \<Longrightarrow> head_blocks (put32 d 0 0) = []"
  by (simp_all add: head_blocks_def head_n_def get32s_def)

lemma head_ok_cleared: "4 \<le> length d \<Longrightarrow> head_ok start nblk (put32 d 0 0)"
  by (simp add: head_ok_def head_n_cleared(2) LOGSIZE_def MAXOPBLOCKS_def)

lemma head_ok_other:
  assumes "head_ok start nblk h" "unat start + LOGSIZE < 4294967296"
  shows "start \<notin> set (head_blocks h)" "\<And>i. i < head_n h \<Longrightarrow> logblk start i \<notin> set (head_blocks h)"
proof -
  have n: "head_n h < LOGSIZE" and o: "\<forall>b\<in>set (head_blocks h). \<not> in_log start b"
    using assms(1) by (simp_all add: head_ok_def head_n_def nat_less_iff)
  show "start \<notin> set (head_blocks h)" using o in_log_start by blast
  show "logblk start i \<notin> set (head_blocks h)" if "i < head_n h" for i
    using o logblk_in_log(1) [OF _ assms(2), of i] that n by (metis Suc_lessI not_less_eq order.strict_trans)
qed

lemma recover_interrupted:
  assumes h: "head_ok start nblk (d start)" "unat start + LOGSIZE < 4294967296" "4 \<le> length (d start)"
  defines "e \<equiv> \<lambda>k. apply_writes d (take k (recover_writes start d))"
  shows "head_ok start nblk (e k start)" "4 \<le> length (e k start)"
    "\<And>b. \<not> in_log start b \<Longrightarrow> recover_disk start (e k) b = recover_disk start d b"
proof -
  let ?W = "install_writes start (head_blocks (d start)) d" and ?n = "head_n (d start)"
  note o = head_ok_other [OF h(1,2)]
  have same: "apply_writes d (take j ?W) c = d c" if "c \<notin> set (head_blocks (d start))" for j c
    using that by (intro apply_writes_take_other) simp
  have lW: "length ?W = ?n" by (simp add: install_writes_def)
  have "head_ok start nblk (e k start) \<and> 4 \<le> length (e k start) \<and>
    (\<forall>b. \<not> in_log start b \<longrightarrow> recover_disk start (e k) b = recover_disk start d b)"
  proof (cases "k \<le> ?n")
    case True
    then have "e k = apply_writes d (take k ?W)" by (simp add: e_def recover_writes_def Let_def lW)
    then have e: "e k c = d c" if "c \<notin> set (head_blocks (d start))" for c using same [OF that] by simp
    have "recover_disk start (e k) b = recover_disk start d b" if "\<not> in_log start b" for b
      by (rule recover_disk_cong [where nblk = nblk]) (simp_all add: h e o that)
    then show ?thesis using h(1,3) e [OF o(1)] by simp
  next
    case False
    then have e: "e k = (apply_writes d ?W)(start := put32 (apply_writes d ?W start) 0 0)"
      by (simp add: e_def recover_writes_def Let_def lW)
    then have "e k = recover_disk start d" by (simp add: recover_disk_def Let_def)
    moreover have "e k start = put32 (d start) 0 0" using same [OF o(1), of ?n] lW e by simp
    ultimately show ?thesis
      using h(3) head_ok_cleared head_n_cleared recover_disk_unlisted [of _ "e k" start] by auto
  qed
  then show "head_ok start nblk (e k start)" "4 \<le> length (e k start)"
    "\<And>b. \<not> in_log start b \<Longrightarrow> recover_disk start (e k) b = recover_disk start d b" by blast+
qed

lemma apply_writes_graph: "b \<in> set bs \<Longrightarrow> apply_writes d (map (\<lambda>b. (b, v b)) bs) b = v b"
  by (rule apply_writes_same) (auto simp: image_image)

lemma three_phases: "k \<le> n \<or> (\<exists>j. k = Suc (n + j) \<and> j \<le> n) \<or> Suc (2 * n) < (k :: nat)"
  by presburger

lemma commit_interrupted:
  assumes s: "log_ok s" and v: "\<And>c. c \<notin> set (logged s) \<Longrightarrow> v c = d c"
    and l: "length (d (log_start (log_st s))) = BSIZE" "get32 (d (log_start (log_st s))) 0 = 0"
  defines "st \<equiv> log_start (log_st s)"
  defines "e \<equiv> \<lambda>k. apply_writes d (take k (commit_writes st (lh s) v))"
  shows "head_ok st (disksize s) (e k st) \<and>
    (\<forall>b. \<not> in_log st b \<longrightarrow> recover_disk st (e k) b = (if k \<le> length (logged s) then d b else v b)) \<and>
    (\<forall>b. Suc (2 * length (logged s)) < k \<longrightarrow> \<not> in_log st b \<longrightarrow> e k b = v b)"
proof -
  let ?bs = "logged s" and ?n = "length (logged s)" and ?h = "put_head (lh s) (v st)"
  let ?W1 = "map (\<lambda>i. (logblk st i, v (?bs ! i))) [0..<?n]" and ?W3 = "map (\<lambda>b. (b, v b)) ?bs"
  let ?d2 = "(apply_writes d ?W1)(st := ?h)"
  have W: "commit_writes st (lh s) v = ?W1 @ (st, ?h) # ?W3 @ [(st, put32 ?h 0 0)]"
    by (simp add: commit_writes_def Let_def logged_def)
  have ib: "\<forall>b\<in>set ?bs. \<not> in_log st b" using s by (simp add: log_ok_def st_def)
  have stb: "st \<notin> set ?bs" and st1: "st \<notin> fst ` set ?W1"
    using start_not_logged [OF s] start_not_logblk [OF s] by (simp_all add: st_def)
  have li: "in_log st (logblk st i)" "logblk st i \<noteq> st" if "i < ?n" for i
    using logblk_in_log [of i st] log_okD(3,5) [OF s] that unfolding st_def by linarith+
  have out1: "apply_writes d (take k ?W1) b = d b" if "\<not> in_log st b" for b k
    using that li(1) by (intro apply_writes_take_other) auto
  have out2: "?d2 b = d b" if "\<not> in_log st b" for b
    using out1 [OF that, of ?n] that by auto
  have hl: "length (v st) = BSIZE" using v [OF stb] l(1) by (simp add: st_def)
  have n0: "0 \<le> sint (lh_n (lh s))" "sint (lh_n (lh s)) < int LOGSIZE" using s by (simp_all add: log_ok_def)
  have nl: "nat (sint (lh_n (lh s))) \<le> length (lh_block (lh s))"
    using n0 log_okD(2) [OF s] by linarith
  note ph = put_head_n [OF hl n0(1) nl log_okD(2) [OF s], folded logged_def]
  have hh: "head_ok st (disksize s) ?h"
    using s n0 unfolding head_ok_def ph by (simp add: log_ok_def st_def)
  have cl: "head_ok st (disksize s) (put32 ?h 0 0)" "head_blocks (put32 ?h 0 0) = []"
    using head_ok_cleared head_n_cleared(2) ph(3) by (simp_all add: BSIZE_def)
  consider "k \<le> ?n" | j where "k = Suc (?n + j)" "j \<le> ?n" | "Suc (2 * ?n) < k"
    using three_phases [of k ?n] by blast
  then show ?thesis
  proof cases
    case 1
    then have e: "e k = apply_writes d (take k ?W1)" by (simp add: e_def W)
    have est: "e k st = d st" unfolding e using st1 by (rule apply_writes_take_other)
    have hb: "head_blocks (d st) = []" using l(2) by (simp add: head_blocks_def head_n_def get32s_def st_def)
    have "recover_disk st (e k) b = d b" if "\<not> in_log st b" for b
      using recover_disk_unlisted [of b "e k" st] est hb that out1 [OF that, of k] e by auto
    then show ?thesis using 1 est hb l(2) by (simp add: head_ok_def st_def LOGSIZE_def MAXOPBLOCKS_def)
  next
    case 2
    then have e: "e k = apply_writes ?d2 (take j ?W3)" by (simp add: e_def W)
    have eo: "e k c = ?d2 c" if "c \<notin> set ?bs" for c
      unfolding e using that by (intro apply_writes_take_other) (simp add: image_image)
    have est: "e k st = ?h" using eo [OF stb] by simp
    have el: "e k (logblk st i) = v (?bs ! i)" if "i < ?n" for i
      using eo [of "logblk st i"] li [OF that] ib write_log_reads_back [OF s that, of d v] by (auto simp: st_def)
    have "recover_disk st (e k) b = v b" if b: "\<not> in_log st b" for b
    proof (cases "b \<in> set ?bs")
      case True
      then obtain i where i: "i < ?n" "b = ?bs ! i" by (auto simp: in_set_conv_nth)
      have hn: "head_n ?h = ?n" using arg_cong [OF ph(2), of length] by simp
      have "b \<noteq> st" using b by auto
      then have "recover_disk st (e k) (?bs ! i) = e k (logblk st i)"
        using recover_disk_listed [of "e k" st i] i hn log_okD(6) [OF s] by (simp add: est ph(2))
      then show ?thesis using el [OF i(1)] i(2) by simp
    next
      case False
      then show ?thesis
        using recover_disk_unlisted [of b "e k" st] eo [OF False] out2 [OF b] v b by (auto simp: est ph(2))
    qed
    then show ?thesis using 2 est hh by simp
  next
    case 3
    then have e: "e k = (apply_writes ?d2 ?W3)(st := put32 ?h 0 0)" by (simp add: e_def W)
    have "recover_disk st (e k) b = v b \<and> e k b = v b" if b: "\<not> in_log st b" for b
    proof -
      have "b \<noteq> st" using b by auto
      then have "recover_disk st (e k) b = apply_writes ?d2 ?W3 b" "e k b = apply_writes ?d2 ?W3 b"
        using recover_disk_unlisted [of b "e k" st] cl(2) b by (simp_all add: e)
      then show ?thesis
        using apply_writes_graph [of b ?bs ?d2 v] apply_writes_other [of b ?W3 ?d2] out2 [OF b] v [of b]
        by (cases "b \<in> set ?bs") (auto simp: image_image)
    qed
    then show ?thesis using 3 cl(1) e by simp
  qed
qed

section \<open>Transactions\<close>

text \<open>What \<open>log_write\<close> does to the header.\<close>

definition log_add :: "u32 \<Rightarrow> logheader \<Rightarrow> logheader" where
  "log_add b h =
     h\<lparr>lh_block := (lh_block h)[log_slot h b := b],
       lh_n := (if int (log_slot h b) = sint (lh_n h) then lh_n h + 1 else lh_n h)\<rparr>"

lemma log_write_eq:
  assumes q: "quiet s" and n: "sint (lh_n (lh s)) < int LOGSIZE" "sint (lh_n (lh s)) < sint (log_size (log_st s) - 1)"
    and o: "1 \<le> sint (log_outstanding (log_st s))" and k: "log_slot (lh s) (b_blockno (bufs s ! i)) < length (lh_block (lh s))"
  shows "log_write i s = Ok (upd_buf i (\<lambda>b. b\<lparr>b_flags := b_flags b OR B_DIRTY\<rparr>)
    (upd_log (\<lambda>l. l\<lparr>log_lh := log_add (b_blockno (bufs s ! i)) (log_lh l)\<rparr>) s))"
proof -
  have g: "\<not> of_nat LOGSIZE \<le>s lh_n (lh s)" "\<not> log_size (log_st s) - 1 \<le>s lh_n (lh s)" "\<not> log_outstanding (log_st s) <s 1"
    using n o by (simp_all add: word_sle_eq word_sless_alt LOGSIZE_def MAXOPBLOCKS_def)
  define u where "u = s\<lparr>lk := acquired L_log (lk s)\<rparr>"
  define v where "v = upd_buf i (\<lambda>b. b\<lparr>b_flags := b_flags b OR B_DIRTY\<rparr>)
    (upd_log (\<lambda>l. l\<lparr>log_lh := log_add (b_blockno (bufs s ! i)) (log_lh l)\<rparr>) s)"
  let ?b = "b_blockno (bufs s ! i)"
  let ?f = "\<lambda>l. l\<lparr>log_lh := (log_lh l)\<lparr>lh_block := (lh_block (log_lh l))[log_slot (lh s) ?b := ?b]\<rparr>\<rparr>"
  have ub: "bufs u = bufs s" "log_st u = log_st s" by (simp_all add: u_def)
  have sb: "set_block (log_slot (lh s) ?b) ?b u = Ok (upd_log ?f u)" using k by (simp add: set_block_def u_def)
  have up: "upd_buf i (\<lambda>b. b\<lparr>b_flags := b_flags b OR B_DIRTY\<rparr>)
      (if int (log_slot (lh s) ?b) = sint (lh_n (lh (upd_log ?f u))) then set_n (lh_n (lh (upd_log ?f u)) + 1) (upd_log ?f u)
       else upd_log ?f u) = v\<lparr>lk := acquired L_log (lk s)\<rparr>"
    by (cases s) (simp add: u_def v_def set_n_def upd_log_def upd_buf_def log_add_def)
  have kr: "krelease L_log (v\<lparr>lk := acquired L_log (lk s)\<rparr>) = Ok v"
    using quiet_krelease [OF q, of L_log v] lk_update_id [of v "lk s"] by (simp add: v_def upd_buf_def upd_log_def)
  show ?thesis
    by (simp only: log_write_def g simp_thms if_False quiet_kacquire [OF q] rbind.simps u_def [symmetric] Let_def ub sb up kr
      v_def [symmetric])
qed

lemma log_slot_cases:
  assumes "0 \<le> sint (lh_n h)" "nat (sint (lh_n h)) \<le> length (lh_block h)"
  defines "bs \<equiv> take (nat (sint (lh_n h))) (lh_block h)"
  shows "b \<in> set bs \<Longrightarrow> log_slot h b < length bs \<and> bs ! log_slot h b = b"
    "b \<notin> set bs \<Longrightarrow> log_slot h b = length bs" "length bs = nat (sint (lh_n h))"
proof -
  show l: "length bs = nat (sint (lh_n h))" using assms(2) by (simp add: bs_def)
  show "log_slot h b < length bs \<and> bs ! log_slot h b = b" if "b \<in> set bs"
  proof (cases "first_ix (\<lambda>x. x = b) bs")
    case None
    then show ?thesis using that by (auto simp: first_ix_None_iff)
  next
    case (Some i)
    then show ?thesis using first_ix_SomeD [OF Some] by (simp add: log_slot_def bs_def)
  qed
  show "log_slot h b = length bs" if "b \<notin> set bs"
  proof -
    have "first_ix (\<lambda>x. x = b) bs = None" using that by (auto simp: first_ix_None_iff)
    then show ?thesis using l by (simp add: log_slot_def bs_def)
  qed
qed

lemma log_add_logged:
  assumes "0 \<le> sint (lh_n h)" "sint (lh_n h) < int (length (lh_block h))" "length (lh_block h) = LOGSIZE"
  defines "bs \<equiv> take (nat (sint (lh_n h))) (lh_block h)"
  shows "take (nat (sint (lh_n (log_add b h)))) (lh_block (log_add b h)) = (if b \<in> set bs then bs else bs @ [b])"
    "sint (lh_n (log_add b h)) = sint (lh_n h) + (if b \<in> set bs then 0 else 1)" "length (lh_block (log_add b h)) = LOGSIZE"
proof -
  have n: "nat (sint (lh_n h)) < length (lh_block h)" "nat (sint (lh_n h)) \<le> length (lh_block h)" using assms by linarith+
  note c = log_slot_cases [OF assms(1) n(2), folded bs_def]
  show "length (lh_block (log_add b h)) = LOGSIZE" using assms(3) by (simp add: log_add_def)
  have inc: "sint (lh_n h + 1) = sint (lh_n h) + 1"
    using sint_add_cint [of "lh_n h" 1] assms(1-3) by (simp add: LOGSIZE_def MAXOPBLOCKS_def)
  show N: "sint (lh_n (log_add b h)) = sint (lh_n h) + (if b \<in> set bs then 0 else 1)"
  proof (cases "b \<in> set bs")
    case True
    then have "int (log_slot h b) \<noteq> sint (lh_n h)" using c(1) [OF True] c(3) assms(1) by linarith
    then show ?thesis using True by (simp add: log_add_def)
  next
    case False
    then show ?thesis using c(2) [OF False] c(3) inc assms(1) by (simp add: log_add_def)
  qed
  show "take (nat (sint (lh_n (log_add b h)))) (lh_block (log_add b h)) = (if b \<in> set bs then bs else bs @ [b])"
  proof (cases "b \<in> set bs")
    case True
    then have "bs[log_slot h b := b] = bs" using c(1) by (metis list_update_id)
    then show ?thesis using True N by (simp add: log_add_def take_update_swap bs_def)
  next
    case False
    then have k: "log_slot h b = nat (sint (lh_n h))" using c by simp
    have "nat (sint (lh_n (log_add b h))) = Suc (nat (sint (lh_n h)))" using N False assms(1) by simp
    then show ?thesis using False n(1) k by (simp add: log_add_def take_Suc_conv_app_nth take_update_swap bs_def list_update_append min_def)
  qed
qed

lemma quiet_upd_buf: "quiet (upd_buf i f s) = quiet s"
  by (simp add: quiet_def)

lemma upd_log_kern [simp]: "lk (upd_log f s) = lk s" "cur (upd_log f s) = cur s" "procs (upd_log f s) = procs s"
  by (simp_all add: upd_log_def)

lemma log_ok_add:
  assumes s: "log_ok s" "sint (lh_n (lh s)) < int LOGSIZE - 1" "b < disksize s" "\<not> in_log (log_start (log_st s)) b"
    and t: "log_st t = (log_st s)\<lparr>log_lh := log_add b (lh s)\<rparr>" "disksize t = disksize s"
  shows "log_ok t" "logged t = (if b \<in> set (logged s) then logged s else logged s @ [b])"
proof -
  have n: "0 \<le> sint (lh_n (lh s))" "sint (lh_n (lh s)) < int (length (lh_block (lh s)))"
    using s(1) by (simp_all add: log_ok_def)
  note a = log_add_logged [OF n log_okD(2) [OF s(1)], of b, folded logged_def]
  show l: "logged t = (if b \<in> set (logged s) then logged s else logged s @ [b])"
    using a(1) by (simp add: logged_def t(1))
  have m: "0 \<le> sint (lh_n (lh t))" "sint (lh_n (lh t)) < int LOGSIZE"
    using a(2) n(1) s(2) by (simp_all add: t(1))
  have d: "distinct (logged t)" "\<forall>c\<in>set (logged t). c < disksize s \<and> \<not> in_log (log_start (log_st s)) c"
    using s(1,3,4) unfolding l log_ok_def by auto
  show "log_ok t"
    using s(1) m d a(3) unfolding log_ok_def by (simp add: t)
qed

lemma txn_write_spec:
  assumes s: "bcache.idle s" "log_ok s" "bpinned s = set (logged s)" "1 \<le> sint (log_outstanding (log_st s))"
    and b: "b < disksize s" "\<not> in_log (log_start (log_st s)) b"
    and n: "sint (lh_n (lh s)) < int LOGSIZE - 1" "sint (lh_n (lh s)) < sint (log_size (log_st s) - 1)"
  shows "\<exists>i s1 s2 t. bread 1 b s = Ok (i, s1) \<and> b_data (bufs s1 ! i) = blk s b \<and>
    log_write i (upd_buf i (\<lambda>x. x\<lparr>b_data := d\<rparr>) s1) = Ok s2 \<and> brelse i s2 = Ok t \<and>
    bcache.idle t \<and> log_ok t \<and> bpinned t = set (logged t) \<and>
    logged t = (if b \<in> set (logged s) then logged s else logged s @ [b]) \<and>
    blk t = (blk s)(b := d) \<and> memdisk t = memdisk s \<and> dtrace t = dtrace s \<and>
    bio_same (upd_log (\<lambda>l. l\<lparr>log_lh := log_add b (log_lh l)\<rparr>) s) t"
proof -
  have nh: "\<not> bheld s i c" for i c using s(1) by (rule bcache.idleD(2))
  have c: "card (bpinned s) < NBUF"
    using card_length [of "logged s"] log_okD(5) [OF s(2)] s(3) by (simp add: NBUF_def LOGSIZE_def MAXOPBLOCKS_def)
  obtain i s1 where r: "bread 1 b s = Ok (i, s1)" "quiet s1 \<and> bio_inv s1" "bio_same s s1" "blk s1 = blk s"
    "memdisk s1 = memdisk s" "dtrace s1 = dtrace s" "bpinned s1 = bpinned s" "\<And>j c. bheld s1 j c \<longleftrightarrow> j = i \<and> c = b"
    using bcache.read_ok [OF bcache.idleD(1) [OF s(1)] b(1)] c nh by auto
  have h1: "bheld s1 i b" using r(8) by simp
  have dv: "b_data (bufs s1 ! i) = blk s b" using bcache.data_view [OF r(2) h1] r(4) by simp
  let ?u = "upd_buf i (\<lambda>x. x\<lparr>b_data := d\<rparr>) s1"
  have u: "quiet ?u" "bio_inv ?u" "bio_same s1 ?u" "blk ?u = (blk s)(b := d)" "memdisk ?u = memdisk s" "dtrace ?u = dtrace s"
    "bpinned ?u = bpinned s" "bheld ?u = bheld s1"
    using bcache.setdata_ok [OF r(2) h1, of d] r(4-7) by auto
  have su: "bio_same s ?u" using r(3) u(3) by (rule bio_same_trans)
  note lu = bio_same_log [OF su] bio_sameD(3) [OF su]
  have hu: "bheld ?u i b" using h1 u(8) by simp
  have bu: "b_blockno (bufs ?u ! i) = b" using bheldD(4) [OF u(2) hu] .
  have n0: "0 \<le> sint (lh_n (lh s))" using s(2) by (simp add: log_ok_def)
  have n1: "nat (sint (lh_n (lh s))) \<le> length (lh_block (lh s))" using log_okD(2,4,5) [OF s(2)] by linarith
  note k = log_slot_cases(1,2) [OF n0 n1, of b, folded logged_def]
  have "log_slot (lh s) b \<le> length (logged s)" using k(1,2) by fastforce
  then have slot: "log_slot (lh s) b < length (lh_block (lh s))" using log_okD(2,5) [OF s(2)] by linarith
  let ?g = "\<lambda>l. l\<lparr>log_lh := log_add b (log_lh l)\<rparr>" and ?p = "\<lambda>x. x\<lparr>b_flags := b_flags x OR B_DIRTY\<rparr>"
  let ?v = "upd_log ?g ?u" and ?w = "upd_buf i ?p (upd_log ?g ?u)"
  have lw: "log_write i ?u = Ok ?w"
    using n s(4) slot by (intro log_write_eq [OF u(1), of i, unfolded bu lu]) simp_all
  have v: "bio_inv ?v" "bheld ?v i b" using u(2) hu by simp_all
  note w = bpin_spec [OF v]
  have w': "quiet ?w \<and> bio_inv ?w" "bheld ?w i b" "b \<in> bpinned ?w \<or> blk ?w b = memdisk ?w b"
    using w u(1) v(2) unfolding quiet_upd_buf by simp_all
  obtain t where t: "brelse i ?w = Ok t" "quiet t \<and> bio_inv t" "bio_same ?w t" "blk t = blk ?w" "memdisk t = memdisk ?w"
    "dtrace t = dtrace ?w" "bpinned t = bpinned ?w" "\<forall>j c. bheld t j c \<longleftrightarrow> bheld ?w j c \<and> j \<noteq> i"
    using bcache.release_ok [OF w'] by blast
  have idle: "bcache.idle t" using t(2,8) w(3) u(8) r(8) unfolding bcache.idle_def by auto
  have lt: "log_st t = (log_st s)\<lparr>log_lh := log_add b (lh s)\<rparr>" "disksize t = disksize s"
    using bio_same_log [OF t(3)] bio_sameD(3) [OF t(3)] lu by (simp_all add: upd_buf_def)
  note lo = log_ok_add [OF s(2) n(1) b lt]
  have pin: "bpinned t = set (logged t)" using t(7) w(4) u(7) s(3) lo(2) by auto
  have same: "bio_same (upd_log ?g s) t"
    using su t(3) by (cases s; cases s1; cases t) (simp add: bio_same_def upd_log_def upd_buf_def)
  have vals: "blk t = (blk s)(b := d)" "memdisk t = memdisk s" "dtrace t = dtrace s"
    using t(4-6) w(2) u(4-6) by (simp_all add: upd_buf_def)
  show ?thesis using r(1) dv lw t(1) idle lo pin vals same by blast
qed

lemma sint_of_int_cint: "- 2147483648 \<le> x \<Longrightarrow> x < 2147483648 \<Longrightarrow> sint (word_of_int x :: cint) = x"
  unfolding sint_sbintrunc' by (rule signed_take_bit_int_eq_self) simp_all

lemma log_full_iff:
  assumes "0 \<le> sint (lh_n (log_lh l))" "sint (lh_n (log_lh l)) \<le> int LOGSIZE" "0 \<le> sint (log_outstanding l)"
    "sint (log_outstanding l) < 1000000"
  shows "log_full l \<longleftrightarrow> int LOGSIZE < sint (lh_n (log_lh l)) + (sint (log_outstanding l) + 1) * int MAXOPBLOCKS"
proof -
  let ?x = "sint (lh_n (log_lh l)) + (sint (log_outstanding l) + 1) * int MAXOPBLOCKS"
  have "lh_n (log_lh l) + (log_outstanding l + 1) * of_nat MAXOPBLOCKS = word_of_int ?x"
    by (simp add: MAXOPBLOCKS_def)
  moreover have "sint (word_of_int ?x :: cint) = ?x"
    using assms by (intro sint_of_int_cint) (simp_all add: MAXOPBLOCKS_def LOGSIZE_def)
  moreover have "sint (of_nat LOGSIZE :: cint) = int LOGSIZE" by (simp add: LOGSIZE_def MAXOPBLOCKS_def)
  ultimately show ?thesis unfolding log_full_def word_sless_alt by simp
qed

lemma begin_op_eq:
  assumes q: "quiet s"
  shows "begin_op_now s = (if log_committing (log_st s) \<or> log_full (log_st s) then Blocked
    else Ok (upd_log (\<lambda>l. l\<lparr>log_outstanding := log_outstanding l + 1\<rparr>) s))"
proof -
  let ?v = "upd_log (\<lambda>l. l\<lparr>log_outstanding := log_outstanding l + 1\<rparr>) s"
  have "krelease L_log (?v\<lparr>lk := acquired L_log (lk s)\<rparr>) = Ok ?v"
    using quiet_krelease [OF q, of L_log ?v] lk_update_id [of ?v "lk s"] by simp
  moreover have "upd_log (\<lambda>l. l\<lparr>log_outstanding := log_outstanding l + 1\<rparr>) (s\<lparr>lk := acquired L_log (lk s)\<rparr>) =
    ?v\<lparr>lk := acquired L_log (lk s)\<rparr>" by (cases s) (simp add: upd_log_def)
  ultimately show ?thesis
    by (simp add: begin_op_def quiet_kacquire [OF q] begin_wait.simps)
qed

lemma idle_procs [simp]:
  "bcache.idle (s\<lparr>procs := ps\<rparr>) = bcache.idle s" "blk (s\<lparr>procs := ps\<rparr>) = blk s" "bpinned (s\<lparr>procs := ps\<rparr>) = bpinned s"
  unfolding bcache.idle_def
  by (auto simp: quiet_def bio_inv_def buf_ok_def bheld_def cached_def blk_def bpinned_def fun_eq_iff split: option.split)

lemma log_ok_log: "log_st t = (log_st s)\<lparr>log_outstanding := m, log_committing := c\<rparr> \<Longrightarrow> disksize t = disksize s \<Longrightarrow>
    log_ok t = log_ok s \<and> logged t = logged s"
  by (simp add: log_ok_def logged_def)

lemma end_op_commits:
  assumes s: "bcache.idle s" "log_ok s" "bpinned s = set (logged s)" "0 <s lh_n (lh s)"
    and o: "log_outstanding (log_st s) = 1" "\<not> log_committing (log_st s)"
  defines "W \<equiv> commit_writes (log_start (log_st s)) (lh s) (blk s)"
  shows "\<exists>t. end_op s = Ok t \<and> bcache.idle t \<and> blk t = apply_writes (blk s) W \<and>
    memdisk t = apply_writes (memdisk s) W \<and> dtrace t = dtrace s @ W \<and> bpinned t = {} \<and> disksize t = disksize s \<and>
    log_st t = (log_st s)\<lparr>log_outstanding := 0, log_lh := (lh s)\<lparr>lh_n := 0\<rparr>\<rparr>"
proof -
  have q: "quiet s" using bcache.idleD(1) [OF s(1)] by blast
  let ?a = "acquired L_log (lk s)"
  let ?s1 = "upd_log (\<lambda>l. l\<lparr>log_outstanding := 0, log_committing := True\<rparr>) s"
  have e1: "upd_log (\<lambda>l. l\<lparr>log_committing := True\<rparr>) (upd_log (\<lambda>l. l\<lparr>log_outstanding := log_outstanding l - 1\<rparr>) (s\<lparr>lk := ?a\<rparr>)) =
    ?s1\<lparr>lk := ?a\<rparr>"
    using o by (cases s) (simp add: upd_log_def)
  have kr: "krelease L_log (?s1\<lparr>lk := ?a\<rparr>) = Ok ?s1"
    using quiet_krelease [OF q, of L_log ?s1] lk_update_id [of ?s1 "lk s"] by simp
  have i1: "bcache.idle ?s1" using s(1) by simp
  have l1: "log_ok ?s1" "logged ?s1 = logged s" using log_ok_log [where t = ?s1 and s = s and m = 0 and c = True] s(2) by simp_all
  obtain t where t: "commit ?s1 = Ok t" "bcache.idle t" "bio_same (set_n 0 ?s1) t" "blk t = apply_writes (blk s) W"
    "memdisk t = apply_writes (memdisk s) W" "dtrace t = dtrace s @ W" "bpinned t = {}"
    using commit_spec [OF i1 l1(1)] s(3,4) l1(2) by (auto simp: W_def)
  have qt: "quiet t" using bcache.idleD(1) [OF t(2)] by blast
  let ?t1 = "upd_log (\<lambda>l. l\<lparr>log_committing := False\<rparr>) t"
  let ?t2 = "wakeup1 (Some C_log) ?t1"
  have e2: "upd_log (\<lambda>l. l\<lparr>log_committing := False\<rparr>) (t\<lparr>lk := acquired L_log (lk t)\<rparr>) = ?t1\<lparr>lk := acquired L_log (lk t)\<rparr>"
    by (cases t) (simp add: upd_log_def)
  have kr2: "krelease L_log (?t2\<lparr>lk := acquired L_log (lk t)\<rparr>) = Ok ?t2"
    using quiet_krelease [OF qt, of L_log ?t2] lk_update_id [of ?t2 "lk t"] by simp
  have wk: "wakeup C_log (?t1\<lparr>lk := acquired L_log (lk t)\<rparr>) = Ok (?t2\<lparr>lk := acquired L_log (lk t)\<rparr>)"
    by (rule wakeup_locked [OF qt]) simp
  have "log_committing (log_st (upd_log (\<lambda>l. l\<lparr>log_outstanding := log_outstanding l - 1\<rparr>) (s\<lparr>lk := ?a\<rparr>))) = False"
    "log_outstanding (log_st (upd_log (\<lambda>l. l\<lparr>log_outstanding := log_outstanding l - 1\<rparr>) (s\<lparr>lk := ?a\<rparr>))) = 0"
    using o by simp_all
  then have "end_op s = Ok ?t2"
    by (simp only: end_op_def quiet_kacquire [OF q] quiet_kacquire [OF qt] rbind.simps Let_def if_False if_True simp_thms e1 kr t(1) e2 wk kr2)
  moreover have "log_st t = (log_st s)\<lparr>log_outstanding := 0, log_committing := True, log_lh := (lh s)\<lparr>lh_n := 0\<rparr>\<rparr>"
    "disksize t = disksize s"
    using bio_same_log [OF t(3)] bio_sameD(3) [OF t(3)] by simp_all
  ultimately show ?thesis using t(2,4-7) o(2) by (cases "log_st s") (simp add: wakeup1_def)
qed

section \<open>Properties\<close>

text \<open>A state inside a transaction: no buffer in use, and exactly the logged blocks pinned.\<close>

definition txn_state :: "'a klog_scheme \<Rightarrow> bool" where
  "txn_state s \<longleftrightarrow> quiet s \<and> bio_inv s \<and> (\<forall>i b. \<not> bheld s i b) \<and> log_ok s \<and> bpinned s = set (logged s)"

lemma txn_state_iff: "txn_state s \<longleftrightarrow> bcache.idle s \<and> log_ok s \<and> bpinned s = set (logged s)"
  unfolding bcache.idle_def by (auto simp: txn_state_def)

definition klog0 :: klog where
  "klog0 = kbio.extend kbio0 (klog.fields \<lparr>log_start = 2, log_size = 30, log_outstanding = 1, log_committing = False,
     log_dev = 1, log_lh = \<lparr>lh_n = 0, lh_block = replicate LOGSIZE 0\<rparr>\<rparr>)"

lemma klog0_ok: "txn_state klog0" "disksize klog0 = 1000" "memdisk klog0 = (\<lambda>_. replicate 512 0)" "boot_ok klog0"
  "blk klog0 = (\<lambda>_. replicate 512 0)" "log_st klog0 = \<lparr>log_start = 2, log_size = 30, log_outstanding = 1, log_committing = False,
     log_dev = 1, log_lh = \<lparr>lh_n = 0, lh_block = replicate LOGSIZE 0\<rparr>\<rparr>"
proof -
  show l: "log_st klog0 = \<lparr>log_start = 2, log_size = 30, log_outstanding = 1, log_committing = False,
     log_dev = 1, log_lh = \<lparr>lh_n = 0, lh_block = replicate LOGSIZE 0\<rparr>\<rparr>"
    by (simp add: klog0_def klog.defs kbio.defs)
  have q: "quiet klog0" using kbio0_ok(1) by (simp add: klog0_def kbio.defs quiet_def)
  have b: "bio_inv klog0" using kbio0_ok(2) by (simp add: klog0_def kbio.defs bio_inv_def buf_ok_def)
  have c: "\<not> cached klog0 i b" for i b using kbio0_ok(3) [of i b] by (simp add: klog0_def kbio.defs cached_def)
  show d: "disksize klog0 = 1000" "memdisk klog0 = (\<lambda>_. replicate 512 0)"
    using kbio0_ok by (simp_all add: klog0_def kbio.defs)
  have h: "\<not> bheld klog0 i b" "bpinned klog0 = {}" for i b using c by (simp_all add: bheld_def bpinned_def)
  have lg: "logged klog0 = []" by (simp add: logged_def l)
  have ok: "log_ok klog0" unfolding log_ok_def lg by (simp add: l d LOGSIZE_def MAXOPBLOCKS_def)
  show "txn_state klog0" using q b h ok lg by (simp add: txn_state_def)
  show "boot_ok klog0" using q b h l d by (simp add: boot_ok_def bcache.idle_def LOGSIZE_def MAXOPBLOCKS_def)
  from boot_disk [OF this] show "blk klog0 = (\<lambda>_. replicate 512 0)" unfolding d(2) .
qed

text \<open>
  C10. A write inside a transaction: reading block \<open>b\<close>, changing the buffer, passing it to
  \<open>log_write\<close> and releasing it changes what every later read of \<open>b\<close> returns, writes nothing
  to the disk, pins the block in the cache, and records its number once however often it is
  written (log absorption).
\<close>

theorem log_write_transaction:
  assumes "txn_state s" "1 \<le> sint (log_outstanding (log_st s))" "b < disksize s" "\<not> in_log (log_start (log_st s)) b"
    "sint (lh_n (lh s)) < int LOGSIZE - 1" "sint (lh_n (lh s)) < sint (log_size (log_st s) - 1)"
  shows "\<exists>i s1 s2 t. bread 1 b s = Ok (i, s1) \<and> b_data (bufs s1 ! i) = blk s b \<and>
    log_write i (upd_buf i (\<lambda>x. x\<lparr>b_data := d\<rparr>) s1) = Ok s2 \<and> brelse i s2 = Ok t \<and> txn_state t \<and>
    logged t = (if b \<in> set (logged s) then logged s else logged s @ [b]) \<and>
    blk t = (blk s)(b := d) \<and> memdisk t = memdisk s \<and> dtrace t = dtrace s"
  using txn_write_spec [OF _ _ _ assms(2-6), of d] assms(1) unfolding txn_state_iff by blast

theorem log_write_transaction_witness:
  "\<exists>i s1 s2 t. bread 1 100 klog0 = Ok (i, s1) \<and> log_write i (upd_buf i (\<lambda>x. x\<lparr>b_data := [7]\<rparr>) s1) = Ok s2 \<and>
    brelse i s2 = Ok t \<and> logged t = [100] \<and> blk t 100 = [7] \<and> memdisk t 100 = replicate 512 0"
proof -
  have "\<not> in_log 2 100" by (simp add: in_log_def LOGSIZE_def MAXOPBLOCKS_def)
  then show ?thesis
    using log_write_transaction [of klog0 100 "[7]"] klog0_ok(1-3) klog0_ok(6)
    by (force simp: LOGSIZE_def MAXOPBLOCKS_def logged_def)
qed

text \<open>
  C3. Crash safety of a commit. When the last outstanding operation ends, \<open>end_op\<close> returns
  with every block of the transaction at its home location. If the machine stops after any
  number \<open>k\<close> of the disk writes this makes, recovery at the next boot succeeds, and
  the file system is as before the transaction when the header had not been written, and
  as after the whole transaction when it had: never a part of it.
\<close>

theorem commit_crash_atomic:
  assumes "txn_state s" "0 <s lh_n (lh s)" "log_outstanding (log_st s) = 1" "\<not> log_committing (log_st s)"
    and "length (memdisk s (log_start (log_st s))) = BSIZE" "get32 (memdisk s (log_start (log_st s))) 0 = 0"
  shows "\<exists>t ws. end_op s = Ok t \<and> txn_state t \<and> dtrace t = dtrace s @ ws \<and> memdisk t = apply_writes (memdisk s) ws \<and>
    (\<forall>b. \<not> in_log (log_start (log_st s)) b \<longrightarrow> memdisk t b = blk s b) \<and>
    (\<forall>k u :: 'a klog_scheme. boot_ok u \<and> log_start (log_st u) = log_start (log_st s) \<and> disksize u = disksize s \<and>
       memdisk u = apply_writes (memdisk s) (take k ws) \<longrightarrow>
       (\<exists>v. recover_from_log u = Ok v \<and> (\<forall>b. \<not> in_log (log_start (log_st s)) b \<longrightarrow>
         memdisk v b = (if k \<le> length (logged s) then memdisk s b else blk s b))))"
proof -
  let ?st = "log_start (log_st s)" and ?W = "commit_writes (log_start (log_st s)) (lh s) (blk s)"
  have s: "bcache.idle s" "log_ok s" "bpinned s = set (logged s)" using assms(1) by (simp_all add: txn_state_iff)
  obtain t where t: "end_op s = Ok t" "bcache.idle t" "memdisk t = apply_writes (memdisk s) ?W" "dtrace t = dtrace s @ ?W"
    "bpinned t = {}" "disksize t = disksize s" "log_st t = (log_st s)\<lparr>log_outstanding := 0, log_lh := (lh s)\<lparr>lh_n := 0\<rparr>\<rparr>"
    using end_op_commits [OF s assms(2-4)] by blast
  have "blk s c = memdisk s c" if "c \<notin> set (logged s)" for c
    using bcache.in_step [OF bcache.idleD(1) [OF s(1)] _ bcache.idleD(2) [OF s(1)]] that s(3) by simp
  note C = commit_interrupted [of s "blk s" "memdisk s", OF s(2) this assms(5,6)]
  have lg: "logged t = []" by (simp add: logged_def t(7))
  have "txn_state t"
    using s(2) t(2,5,6) unfolding txn_state_iff log_ok_def lg by (simp add: t(7) LOGSIZE_def MAXOPBLOCKS_def)
  moreover have "Suc (2 * length (logged s)) < length ?W" by (simp add: commit_writes_def Let_def logged_def)
  then have "\<forall>b. \<not> in_log ?st b \<longrightarrow> memdisk t b = blk s b" using C [of "length ?W"] t(3) by simp
  moreover have "\<exists>v. recover_from_log u = Ok v \<and> (\<forall>b. \<not> in_log ?st b \<longrightarrow>
      memdisk v b = (if k \<le> length (logged s) then memdisk s b else blk s b))"
    if "boot_ok u \<and> log_start (log_st u) = ?st \<and> disksize u = disksize s \<and> memdisk u = apply_writes (memdisk s) (take k ?W)"
    for k and u :: "'a klog_scheme"
    using recover_spec [of u] that C [of k] by fastforce
  ultimately show ?thesis using t(1,3,4) by blast
qed

theorem commit_crash_atomic_witness:
  "\<exists>s :: klog. txn_state s \<and> logged s = [100] \<and> memdisk s 100 = replicate 512 0 \<and> blk s 100 = replicate 512 7 \<and>
     (\<exists>t. end_op s = Ok t \<and> memdisk t 100 = replicate 512 7)"
proof -
  have il: "\<not> in_log 2 100" by (simp add: in_log_def LOGSIZE_def MAXOPBLOCKS_def)
  have i0: "bcache.idle klog0" "log_ok klog0" "bpinned klog0 = set (logged klog0)"
    using klog0_ok(1) by (simp_all add: txn_state_iff)
  have o0: "1 \<le> sint (log_outstanding (log_st klog0))" "(100 :: u32) < disksize klog0" "\<not> in_log (log_start (log_st klog0)) 100"
    "sint (lh_n (lh klog0)) < int LOGSIZE - 1" "sint (lh_n (lh klog0)) < sint (log_size (log_st klog0) - 1)"
    using il klog0_ok(2) unfolding klog0_ok(6) by (simp_all add: LOGSIZE_def MAXOPBLOCKS_def)
  obtain s where s: "bcache.idle s" "log_ok s" "bpinned s = set (logged s)"
    "logged s = (if 100 \<in> set (logged klog0) then logged klog0 else logged klog0 @ [100])"
    "blk s = (blk klog0)(100 := replicate 512 7)" "memdisk s = memdisk klog0"
    and same: "bio_same (upd_log (\<lambda>l. l\<lparr>log_lh := log_add 100 (log_lh l)\<rparr>) klog0) s"
    using txn_write_spec [OF i0 o0] by blast
  have "logged klog0 = []" unfolding logged_def klog0_ok(6) by simp
  then have lg: "logged s = [100]" using s(4) by simp
  have st: "log_st s = (log_st klog0)\<lparr>log_lh := log_add 100 (lh klog0)\<rparr>" using bio_same_log [OF same] by simp
  have m: "memdisk s = (\<lambda>_. replicate 512 0)" unfolding s(6) by (rule klog0_ok(3))
  have n: "length (logged s) = nat (sint (lh_n (lh s)))" using log_okD(4) [OF s(2)] .
  then have pos: "0 <s lh_n (lh s)" using lg by (simp add: word_sless_alt)
  have o: "log_outstanding (log_st s) = 1" "\<not> log_committing (log_st s)" "log_start (log_st s) = 2"
    using st klog0_ok(6) by simp_all
  have txn: "txn_state s" using s(1-3) by (simp add: txn_state_iff)
  have len: "length (memdisk s (log_start (log_st s))) = BSIZE" by (simp add: m BSIZE_def)
  have hd: "get32 (memdisk s (log_start (log_st s))) 0 = 0" unfolding m by (simp add: get32_def)
  from commit_crash_atomic [OF txn pos o(1,2) len hd] obtain t where
    "end_op s = Ok t" "\<forall>b. \<not> in_log 2 b \<longrightarrow> memdisk t b = blk s b" unfolding o(3) by blast
  then show ?thesis using txn lg s(5) m il by (intro exI [of _ s]) simp
qed

text \<open>Disks that a sequence of crashes in the middle of recovery can leave.\<close>

inductive crashed :: "u32 \<Rightarrow> u32 \<Rightarrow> (u32 \<Rightarrow> block) \<Rightarrow> (u32 \<Rightarrow> block) \<Rightarrow> bool" for start nblk d where
  crash_none: "crashed start nblk d d"
| crash_in_recovery: "crashed start nblk d (memdisk u) \<Longrightarrow> boot_ok (u :: klog) \<Longrightarrow> log_start (log_st u) = start \<Longrightarrow>
    disksize u = nblk \<Longrightarrow> recover_from_log u = Ok v \<Longrightarrow> dtrace v = dtrace u @ ws \<Longrightarrow>
    crashed start nblk d (apply_writes (memdisk u) (take k ws))"

lemma crashed_recovers:
  assumes "crashed start nblk d e" "head_ok start nblk (d start)" "unat start + LOGSIZE < 4294967296" "4 \<le> length (d start)"
  shows "head_ok start nblk (e start) \<and> 4 \<le> length (e start) \<and>
    (\<forall>b. \<not> in_log start b \<longrightarrow> recover_disk start e b = recover_disk start d b)"
  using assms
proof (induction rule: crashed.induct)
  case (crash_in_recovery u v ws k)
  then have h: "head_ok start nblk (memdisk u start)" "4 \<le> length (memdisk u start)"
    "\<And>b. \<not> in_log start b \<Longrightarrow> recover_disk start (memdisk u) b = recover_disk start d b" by blast+
  have "ws = recover_writes start (memdisk u)"
    using recover_spec [OF crash_in_recovery.hyps(2)] h(1) crash_in_recovery.hyps(3-6) by auto
  then show ?case using recover_interrupted [where start = start and nblk = nblk and d = "memdisk u" and k = k] h crash_in_recovery.prems(2) by simp
qed simp

text \<open>
  C4. Recovery may itself be interrupted, any number of times and anywhere: when it at last
  runs to its end it returns, the log is empty, and the file system is what one undisturbed
  recovery would have made of the disk.
\<close>

theorem recovery_restartable:
  assumes "crashed start nblk d (memdisk u)" "head_ok start nblk (d start)" "4 \<le> length (d start)"
    and "boot_ok (u :: klog)" "log_start (log_st u) = start" "disksize u = nblk"
  shows "\<exists>v. recover_from_log u = Ok v \<and> boot_ok v \<and> lh_n (lh v) = 0 \<and>
    (\<forall>b. \<not> in_log start b \<longrightarrow> memdisk v b = recover_disk start d b)"
proof -
  have "unat start + LOGSIZE < 4294967296"
    using assms(4,5) unsigned_less [of "disksize u", where ?'a = nat] by (simp add: boot_ok_def)
  from crashed_recovers [OF assms(1,2) this assms(3)] recover_spec [OF assms(4)] assms(5,6) show ?thesis by auto
qed

theorem recovery_restartable_witness:
  "\<exists>v. recover_from_log klog0 = Ok v \<and> lh_n (lh v) = 0 \<and> memdisk v 100 = replicate 512 0"
proof -
  let ?d = "\<lambda>_ :: u32. replicate 512 (0 :: u8)"
  have c: "crashed 2 1000 ?d (memdisk klog0)" unfolding klog0_ok(3) by (rule crash_none)
  have g: "get32 (replicate 512 0) 0 = 0" by (simp add: get32_def)
  then have hb: "head_blocks (replicate 512 0) = []" by (simp add: head_blocks_def head_n_def get32s_def)
  have h: "head_ok 2 1000 (replicate 512 0)" unfolding head_ok_def hb g by (simp add: LOGSIZE_def MAXOPBLOCKS_def)
  have "\<not> in_log 2 100" by (simp add: in_log_def LOGSIZE_def MAXOPBLOCKS_def)
  moreover from this have "recover_disk 2 ?d 100 = replicate 512 0" using recover_disk_unlisted [of 100 ?d 2] hb by simp
  ultimately show ?thesis
    using recovery_restartable [OF c h _ klog0_ok(4)] klog0_ok(2,6) by auto
qed





end
