(* ===== verification/Fs.thy ===== *)
theory Fs
  imports Log
begin

text \<open>
  fs.c: the block allocator, the inode cache, file contents, directories and path names, with
  the on-disk structures of fs.h and the in-memory inode of file.h. An inode pointer is an index
  of the inode cache. A buffer that the code passes as \<open>char *dst\<close> or \<open>char *src\<close> is the list
  of bytes delivered to it or taken from it. The device switch table of file.c, whose entries
  point into other files, is the parameter \<open>dsw\<close>. A sleep lock or buffer that another
  process holds makes the caller sleep: here the operation is \<open>Blocked\<close>. Loops over block
  numbers and directory offsets carry a bound that the sizes on the disk determine.
\<close>

section \<open>Data (fs.h, file.h, stat.h, param.h)\<close>

definition ROOTINO :: u32 where "ROOTINO = 1"

definition ROOTDEV :: u32 where "ROOTDEV = 1"

definition NINODE :: nat where "NINODE = 50"

definition NDEV :: nat where "NDEV = 10"

definition NDIRECT :: nat where "NDIRECT = 12"

definition NINDIRECT :: nat where "NINDIRECT = BSIZE div 4"

definition MAXFILE :: nat where "MAXFILE = NDIRECT + NINDIRECT"

definition DIRSIZ :: nat where "DIRSIZ = 14"

definition T_DIR :: u16 where "T_DIR = 1"

definition T_FILE :: u16 where "T_FILE = 2"

definition T_DEV :: u16 where "T_DEV = 3"

definition I_VALID :: u32 where "I_VALID = 2"

record inode =
  i_dev :: u32
  i_inum :: u32
  i_ref :: cint
  i_flags :: u32
  i_type :: u16
  i_major :: u16
  i_minor :: u16
  i_nlink :: u16
  i_size :: u32
  i_addrs :: "u32 list"

text \<open>\<open>struct dinode\<close> is 64 bytes: four shorts, the size and NDIRECT + 1 addresses.\<close>

definition dinode_size :: nat where "dinode_size = 12 + 4 * (NDIRECT + 1)"

definition IPB :: nat where "IPB = BSIZE div dinode_size"

definition IBLOCK :: "u32 \<Rightarrow> superblock \<Rightarrow> u32" where
  "IBLOCK i sb = i div of_nat IPB + sb_inodestart sb"

definition BPB :: nat where "BPB = BSIZE * 8"

definition BBLOCK :: "u32 \<Rightarrow> superblock \<Rightarrow> u32" where
  "BBLOCK b sb = b div of_nat BPB + sb_bmapstart sb"

record stat =
  st_type :: u16
  st_dev :: u32
  st_ino :: u32
  st_nlink :: u16
  st_size :: u32

record 's devsw =
  d_read :: "(nat \<Rightarrow> cint \<Rightarrow> 's \<Rightarrow> (cint \<times> u8 list \<times> 's) res) option"
  d_write :: "(nat \<Rightarrow> u8 list \<Rightarrow> cint \<Rightarrow> 's \<Rightarrow> (cint \<times> 's) res) option"

record kfs = klog +
  inodes :: "inode list"
  sb :: superblock

definition upd_inode :: "nat \<Rightarrow> (inode \<Rightarrow> inode) \<Rightarrow> 'a kfs_scheme \<Rightarrow> 'a kfs_scheme" where
  "upd_inode i f s = s\<lparr>inodes := upd_ix i f (inodes s)\<rparr>"

abbreviation bdata :: "nat \<Rightarrow> 'a kbio_scheme \<Rightarrow> block" where
  "bdata bp s \<equiv> b_data (bufs s ! bp)"

abbreviation set_bdata :: "nat \<Rightarrow> block \<Rightarrow> 'a kbio_scheme \<Rightarrow> 'a kbio_scheme" where
  "set_bdata bp d s \<equiv> upd_buf bp (\<lambda>x. x\<lparr>b_data := d\<rparr>) s"

text \<open>The inode cache entry read from, and written to, the disk inode at offset \<open>k\<close> of a block.\<close>

definition get_dinode :: "block \<Rightarrow> nat \<Rightarrow> inode \<Rightarrow> inode" where
  "get_dinode d k ip = ip\<lparr>i_type := get16 d k, i_major := get16 d (k + 2), i_minor := get16 d (k + 4),
     i_nlink := get16 d (k + 6), i_size := get32 d (k + 8), i_addrs := get32s d (k + 12) (NDIRECT + 1)\<rparr>"

definition put_dinode :: "inode \<Rightarrow> nat \<Rightarrow> block \<Rightarrow> block" where
  "put_dinode ip k d =
     (let d = put16 d k (i_type ip);
          d = put16 d (k + 2) (i_major ip);
          d = put16 d (k + 4) (i_minor ip);
          d = put16 d (k + 6) (i_nlink ip);
          d = put32 d (k + 8) (i_size ip)
      in put32s d (k + 12) (i_addrs ip))"

definition dinode_off :: "u32 \<Rightarrow> nat" where
  "dinode_off inum = dinode_size * (unat inum mod IPB)"

section \<open>Blocks\<close>

definition bzero :: "u32 \<Rightarrow> u32 \<Rightarrow> 'a klog_scheme \<Rightarrow> 'a klog_scheme res" where
  "bzero dev bno s =
     rbind (bread dev bno s) (\<lambda>(bp, s).
     rbind (log_write bp (set_bdata bp (replicate BSIZE 0) s)) (brelse bp))"

definition bmask :: "nat \<Rightarrow> u8" where
  "bmask bi = push_bit (bi mod 8) 1"

fun balloc_loop :: "nat \<Rightarrow> u32 \<Rightarrow> u32 \<Rightarrow> 'a kfs_scheme \<Rightarrow> (u32 \<times> 'a kfs_scheme) res" where
  "balloc_loop 0 dev b s = Blocked"
| "balloc_loop (Suc f) dev b s =
     (if b < sb_size (sb s) then
        rbind (bread dev (BBLOCK b (sb s)) s) (\<lambda>(bp, s).
          let d = bdata bp s
          in case first_ix (\<lambda>bi. d ! (bi div 8) AND bmask bi = 0) [0..<min BPB (unat (sb_size (sb s) - b))] of
               Some bi \<Rightarrow>
                 rbind (log_write bp (set_bdata bp (d[bi div 8 := d ! (bi div 8) OR bmask bi]) s)) (\<lambda>s.
                 rbind (brelse bp s) (\<lambda>s.
                 rbind (bzero dev (b + of_nat bi) s) (\<lambda>s. Ok (b + of_nat bi, s))))
             | None \<Rightarrow> rbind (brelse bp s) (balloc_loop f dev (b + of_nat BPB)))
      else Panic ''balloc: out of blocks'')"

definition balloc :: "u32 \<Rightarrow> 'a kfs_scheme \<Rightarrow> (u32 \<times> 'a kfs_scheme) res" where
  "balloc dev s = balloc_loop (unat (sb_size (sb s)) div BPB + 2) dev 0 s"

definition bfree :: "u32 \<Rightarrow> u32 \<Rightarrow> 'a kfs_scheme \<Rightarrow> 'a kfs_scheme res" where
  "bfree dev b s =
     rbind (readsb dev s) (\<lambda>(sb', s).
     let s = s\<lparr>sb := sb'\<rparr>
     in rbind (bread dev (BBLOCK b (sb s)) s) (\<lambda>(bp, s).
        let bi = unat b mod BPB; d = bdata bp s
        in if d ! (bi div 8) AND bmask bi = 0 then Panic ''freeing free block''
           else rbind (log_write bp (set_bdata bp (d[bi div 8 := d ! (bi div 8) AND NOT (bmask bi)]) s)) (brelse bp)))"

section \<open>The inode cache\<close>

definition iinit :: "u32 \<Rightarrow> 'a kfs_scheme \<Rightarrow> 'a kfs_scheme res" where
  "iinit dev s =
     (let s = s\<lparr>lk := initlock L_icache ''icache'' (lk s)\<rparr>;
          s = fold (\<lambda>i. initsleeplock (L_inodesleep i) ''inode'') [0..<NINODE] s
      in rbind (readsb dev s) (\<lambda>(sb', s).
         cprintf ''sb: size %d nblocks %d ninodes %d nlog %d logstart %d inodestart %d bmap start %d\<newline>''
           (va [(sb_size sb', []), (sb_nblocks sb', []), (sb_ninodes sb', []), (sb_nlog sb', []),
                (sb_logstart sb', []), (sb_inodestart sb', []), (sb_bmapstart sb', [])])
           (s\<lparr>sb := sb'\<rparr>)))"

definition iget :: "u32 \<Rightarrow> u32 \<Rightarrow> 'a kfs_scheme \<Rightarrow> (nat \<times> 'a kfs_scheme) res" where
  "iget dev inum s =
     rbind (kacquire L_icache s) (\<lambda>s.
     case first_ix (\<lambda>ip. 0 <s i_ref ip \<and> i_dev ip = dev \<and> i_inum ip = inum) (inodes s) of
       Some i \<Rightarrow>
         rbind (krelease L_icache (upd_inode i (\<lambda>ip. ip\<lparr>i_ref := i_ref ip + 1\<rparr>) s)) (\<lambda>s. Ok (i, s))
     | None \<Rightarrow>
         (case first_ix (\<lambda>ip. i_ref ip = 0) (inodes s) of
            None \<Rightarrow> Panic ''iget: no inodes''
          | Some i \<Rightarrow>
              rbind (krelease L_icache (upd_inode i (\<lambda>ip. ip\<lparr>i_dev := dev, i_inum := inum, i_ref := 1, i_flags := 0\<rparr>) s))
                (\<lambda>s. Ok (i, s))))"

fun ialloc_loop :: "nat \<Rightarrow> u32 \<Rightarrow> u16 \<Rightarrow> u32 \<Rightarrow> 'a kfs_scheme \<Rightarrow> (nat \<times> 'a kfs_scheme) res" where
  "ialloc_loop 0 dev type inum s = Blocked"
| "ialloc_loop (Suc f) dev type inum s =
     (if inum < sb_ninodes (sb s) then
        rbind (bread dev (IBLOCK inum (sb s)) s) (\<lambda>(bp, s).
          let d = bdata bp s; k = dinode_off inum
          in if get16 d k = 0
             then rbind (log_write bp (set_bdata bp (put16 (splice d k (replicate dinode_size 0)) k type) s)) (\<lambda>s.
                  rbind (brelse bp s) (iget dev inum))
             else rbind (brelse bp s) (ialloc_loop f dev type (inum + 1)))
      else Panic ''ialloc: no inodes'')"

definition ialloc :: "u32 \<Rightarrow> u16 \<Rightarrow> 'a kfs_scheme \<Rightarrow> (nat \<times> 'a kfs_scheme) res" where
  "ialloc dev type s = ialloc_loop (unat (sb_ninodes (sb s)) + 1) dev type 1 s"

definition iupdate :: "nat \<Rightarrow> 'a kfs_scheme \<Rightarrow> 'a kfs_scheme res" where
  "iupdate i s =
     (let ip = inodes s ! i
      in rbind (bread (i_dev ip) (IBLOCK (i_inum ip) (sb s)) s) (\<lambda>(bp, s).
         rbind (log_write bp (set_bdata bp (put_dinode ip (dinode_off (i_inum ip)) (bdata bp s)) s)) (brelse bp)))"

definition idup :: "nat \<Rightarrow> 'a kfs_scheme \<Rightarrow> (nat \<times> 'a kfs_scheme) res" where
  "idup i s =
     rbind (kacquire L_icache s) (\<lambda>s.
     rbind (krelease L_icache (upd_inode i (\<lambda>ip. ip\<lparr>i_ref := i_ref ip + 1\<rparr>) s)) (\<lambda>s. Ok (i, s)))"

definition ilock :: "nat option \<Rightarrow> 'a kfs_scheme \<Rightarrow> 'a kfs_scheme res" where
  "ilock p s =
     (case p of
        None \<Rightarrow> Panic ''ilock''
      | Some i \<Rightarrow>
          if i_ref (inodes s ! i) <s 1 then Panic ''ilock''
          else rbind (acquiresleep_now (L_inodesleep i) s) (\<lambda>s.
            if i_flags (inodes s ! i) AND I_VALID = 0
            then let ip = inodes s ! i
                 in rbind (bread (i_dev ip) (IBLOCK (i_inum ip) (sb s)) s) (\<lambda>(bp, s).
                    let s = upd_inode i (get_dinode (bdata bp s) (dinode_off (i_inum ip))) s
                    in rbind (brelse bp s) (\<lambda>s.
                       let s = upd_inode i (\<lambda>ip. ip\<lparr>i_flags := i_flags ip OR I_VALID\<rparr>) s
                       in if i_type (inodes s ! i) = 0 then Panic ''ilock: no type'' else Ok s))
            else Ok s))"

definition iunlock :: "nat option \<Rightarrow> 'a kfs_scheme \<Rightarrow> 'a kfs_scheme res" where
  "iunlock p s =
     (case p of
        None \<Rightarrow> Panic ''iunlock''
      | Some i \<Rightarrow>
          rbind (holdingsleep (L_inodesleep i) s) (\<lambda>(h, s).
            if \<not> h \<or> i_ref (inodes s ! i) <s 1 then Panic ''iunlock''
            else releasesleep (L_inodesleep i) s))"

section \<open>Inode content\<close>

definition bmap :: "nat \<Rightarrow> u32 \<Rightarrow> 'a kfs_scheme \<Rightarrow> (u32 \<times> 'a kfs_scheme) res" where
  "bmap i bn s =
     (let dev = i_dev (inodes s ! i);
          slot = (\<lambda>k s. if i_addrs (inodes s ! i) ! k = 0
                    then rbind (balloc dev s) (\<lambda>(a, s).
                         Ok (a, upd_inode i (\<lambda>ip. ip\<lparr>i_addrs := (i_addrs ip)[k := a]\<rparr>) s))
                    else Ok (i_addrs (inodes s ! i) ! k, s))
      in if bn < of_nat NDIRECT then slot (unat bn) s
         else let bn = bn - of_nat NDIRECT
              in if bn < of_nat NINDIRECT
                 then rbind (slot NDIRECT s) (\<lambda>(addr, s).
                      rbind (bread dev addr s) (\<lambda>(bp, s).
                      let addr = get32 (bdata bp s) (4 * unat bn)
                      in rbind (if addr = 0
                                then rbind (balloc dev s) (\<lambda>(addr, s).
                                     rbind (log_write bp (set_bdata bp (put32 (bdata bp s) (4 * unat bn) addr) s)) (\<lambda>s.
                                     Ok (addr, s)))
                                else Ok (addr, s)) (\<lambda>(addr, s).
                         rbind (brelse bp s) (\<lambda>s. Ok (addr, s)))))
                 else Panic ''bmap: out of range'')"

definition itrunc :: "nat \<Rightarrow> 'a kfs_scheme \<Rightarrow> 'a kfs_scheme res" where
  "itrunc i s =
     rbind (rfold (\<lambda>k s. if i_addrs (inodes s ! i) ! k \<noteq> 0
                    then rbind (bfree (i_dev (inodes s ! i)) (i_addrs (inodes s ! i) ! k) s) (\<lambda>s.
                         Ok (upd_inode i (\<lambda>ip. ip\<lparr>i_addrs := (i_addrs ip)[k := 0]\<rparr>) s))
                    else Ok s) [0..<NDIRECT] s) (\<lambda>s.
     rbind (if i_addrs (inodes s ! i) ! NDIRECT \<noteq> 0
            then rbind (bread (i_dev (inodes s ! i)) (i_addrs (inodes s ! i) ! NDIRECT) s) (\<lambda>(bp, s).
                 rbind (rfold (\<lambda>j s. if get32 (bdata bp s) (4 * j) \<noteq> 0
                                then bfree (i_dev (inodes s ! i)) (get32 (bdata bp s) (4 * j)) s
                                else Ok s) [0..<NINDIRECT] s) (\<lambda>s.
                 rbind (brelse bp s) (\<lambda>s.
                 rbind (bfree (i_dev (inodes s ! i)) (i_addrs (inodes s ! i) ! NDIRECT) s) (\<lambda>s.
                 Ok (upd_inode i (\<lambda>ip. ip\<lparr>i_addrs := (i_addrs ip)[NDIRECT := 0]\<rparr>) s)))))
            else Ok s) (\<lambda>s.
     iupdate i (upd_inode i (\<lambda>ip. ip\<lparr>i_size := 0\<rparr>) s)))"

definition iput :: "nat \<Rightarrow> 'a kfs_scheme \<Rightarrow> 'a kfs_scheme res" where
  "iput i s =
     rbind (kacquire L_icache s) (\<lambda>s.
     let ip = inodes s ! i
     in rbind (if i_ref ip = 1 \<and> i_flags ip AND I_VALID \<noteq> 0 \<and> i_nlink ip = 0
               then rbind (krelease L_icache s) (\<lambda>s.
                    rbind (itrunc i s) (\<lambda>s.
                    rbind (iupdate i (upd_inode i (\<lambda>ip. ip\<lparr>i_type := 0\<rparr>) s)) (\<lambda>s.
                    rbind (kacquire L_icache s) (\<lambda>s.
                    Ok (upd_inode i (\<lambda>ip. ip\<lparr>i_flags := 0\<rparr>) s)))))
               else Ok s) (\<lambda>s.
        krelease L_icache (upd_inode i (\<lambda>ip. ip\<lparr>i_ref := i_ref ip - 1\<rparr>) s)))"

definition iunlockput :: "nat \<Rightarrow> 'a kfs_scheme \<Rightarrow> 'a kfs_scheme res" where
  "iunlockput i s = rbind (iunlock (Some i) s) (iput i)"

definition stati :: "nat \<Rightarrow> 'a kfs_scheme \<Rightarrow> stat" where
  "stati i s = (let ip = inodes s ! i in
     \<lparr>st_type = i_type ip, st_dev = i_dev ip, st_ino = i_inum ip, st_nlink = i_nlink ip, st_size = i_size ip\<rparr>)"

text \<open>\<open>min(n - tot, BSIZE - off%BSIZE)\<close>\<close>

definition chunk :: "u32 \<Rightarrow> u32 \<Rightarrow> u32 \<Rightarrow> u32" where
  "chunk n tot off = (let k = of_nat BSIZE - off mod of_nat BSIZE in if n - tot < k then n - tot else k)"

lemma chunk_step:
  assumes "tot < n"
  shows "unat (n - (tot + chunk n tot off)) < unat (n - tot)" "0 < unat (chunk n tot off)" "chunk n tot off \<le> n - tot"
proof -
  have p: "0 < unat (n - tot)" using assms by (simp add: word_less_nat_alt unat_sub_if_size)
  have "unat (off mod 512) < 512" by (simp add: unat_mod)
  then have b: "0 < unat (512 - off mod 512 :: u32)" by (simp add: unat_sub_if_size)
  show c: "0 < unat (chunk n tot off)" using p b by (simp add: chunk_def Let_def BSIZE_def)
  show le: "chunk n tot off \<le> n - tot" by (auto simp: chunk_def Let_def)
  have e: "n - (tot + chunk n tot off) = (n - tot) - chunk n tot off" by simp
  show "unat (n - (tot + chunk n tot off)) < unat (n - tot)"
    unfolding e using c p unat_sub [OF le] by linarith
qed

function read_loop :: "nat \<Rightarrow> u32 \<Rightarrow> u32 \<Rightarrow> u32 \<Rightarrow> u8 list \<Rightarrow> 'a kfs_scheme \<Rightarrow> (u8 list \<times> 'a kfs_scheme) res" where
  "read_loop i n tot off dst s =
     (if tot < n then
        rbind (bmap i (off div of_nat BSIZE) s) (\<lambda>(addr, s).
        rbind (bread (i_dev (inodes s ! i)) addr s) (\<lambda>(bp, s).
        let m = chunk n tot off;
            xs = take (unat m) (drop (unat (off mod of_nat BSIZE)) (bdata bp s))
        in rbind (brelse bp s) (read_loop i n (tot + m) (off + m) (dst @ xs))))
      else Ok (dst, s))"
  by pat_completeness auto
termination
  by (relation "measure (\<lambda>(i, n, tot, off, dst, s). unat (n - tot))") (simp_all add: chunk_step)

declare read_loop.simps [simp del]

definition readi ::
  "'a kfs_scheme devsw list \<Rightarrow> nat \<Rightarrow> u32 \<Rightarrow> u32 \<Rightarrow> 'a kfs_scheme \<Rightarrow> (cint \<times> u8 list \<times> 'a kfs_scheme) res" where
  "readi dsw i off n s =
     (let ip = inodes s ! i
      in if i_type ip = T_DEV
         then if i_major ip <s 0 \<or> of_nat NDEV \<le>s i_major ip then Ok (-1, [], s)
              else (case d_read (dsw ! unat (i_major ip)) of None \<Rightarrow> Ok (-1, [], s) | Some f \<Rightarrow> f i n s)
         else if i_size ip < off \<or> off + n < off then Ok (-1, [], s)
         else let n = (if i_size ip < off + n then i_size ip - off else n)
              in rbind (read_loop i n 0 off [] s) (\<lambda>(xs, s). Ok (n, xs, s)))"

function write_loop :: "nat \<Rightarrow> u8 list \<Rightarrow> u32 \<Rightarrow> u32 \<Rightarrow> u32 \<Rightarrow> 'a kfs_scheme \<Rightarrow> (u32 \<times> 'a kfs_scheme) res" where
  "write_loop i src n tot off s =
     (if tot < n then
        rbind (bmap i (off div of_nat BSIZE) s) (\<lambda>(addr, s).
        rbind (bread (i_dev (inodes s ! i)) addr s) (\<lambda>(bp, s).
        let m = chunk n tot off;
            d = splice (bdata bp s) (unat (off mod of_nat BSIZE)) (take (unat m) (drop (unat tot) src))
        in rbind (log_write bp (set_bdata bp d s)) (\<lambda>s.
           rbind (brelse bp s) (write_loop i src n (tot + m) (off + m)))))
      else Ok (off, s))"
  by pat_completeness auto
termination
  by (relation "measure (\<lambda>(i, src, n, tot, off, s). unat (n - tot))") (simp_all add: chunk_step)

declare write_loop.simps [simp del]

definition writei ::
  "'a kfs_scheme devsw list \<Rightarrow> nat \<Rightarrow> u8 list \<Rightarrow> u32 \<Rightarrow> u32 \<Rightarrow> 'a kfs_scheme \<Rightarrow> (cint \<times> 'a kfs_scheme) res" where
  "writei dsw i src off n s =
     (let ip = inodes s ! i
      in if i_type ip = T_DEV
         then if i_major ip <s 0 \<or> of_nat NDEV \<le>s i_major ip then Ok (-1, s)
              else (case d_write (dsw ! unat (i_major ip)) of None \<Rightarrow> Ok (-1, s) | Some f \<Rightarrow> f i src n s)
         else if i_size ip < off \<or> off + n < off then Ok (-1, s)
         else if of_nat (MAXFILE * BSIZE) < off + n then Ok (-1, s)
         else rbind (write_loop i src n 0 off s) (\<lambda>(off, s).
              if 0 < n \<and> i_size (inodes s ! i) < off
              then rbind (iupdate i (upd_inode i (\<lambda>ip. ip\<lparr>i_size := off\<rparr>) s)) (\<lambda>s. Ok (n, s))
              else Ok (n, s)))"

section \<open>Directories\<close>

text \<open>\<open>struct dirent\<close>: a 16-bit inode number and DIRSIZ bytes of name.\<close>

definition dirent_size :: nat where "dirent_size = 2 + DIRSIZ"

definition de_inum :: "u8 list \<Rightarrow> u16" where "de_inum de = get16 de 0"

definition de_name :: "u8 list \<Rightarrow> u8 list" where "de_name de = take DIRSIZ (drop 2 de)"

definition mk_dirent :: "u16 \<Rightarrow> u8 list \<Rightarrow> u8 list" where
  "mk_dirent inum name = put16 (replicate 2 0 @ strncpy name DIRSIZ) 0 inum"

definition namecmp :: "u8 list \<Rightarrow> u8 list \<Rightarrow> int" where
  "namecmp s t = strncmp s t DIRSIZ"

fun dirlookup_loop ::
  "nat \<Rightarrow> 'a kfs_scheme devsw list \<Rightarrow> nat \<Rightarrow> u8 list \<Rightarrow> u32 \<Rightarrow> 'a kfs_scheme \<Rightarrow> ((nat \<times> u32) option \<times> 'a kfs_scheme) res" where
  "dirlookup_loop 0 dsw dp name off s = Blocked"
| "dirlookup_loop (Suc f) dsw dp name off s =
     (if off < i_size (inodes s ! dp) then
        rbind (readi dsw dp off (of_nat dirent_size) s) (\<lambda>(r, de, s).
          if r \<noteq> of_nat dirent_size then Panic ''dirlink read''
          else if de_inum de \<noteq> 0 \<and> namecmp name (de_name de) = 0
          then rbind (iget (i_dev (inodes s ! dp)) (ucast (de_inum de)) s) (\<lambda>(ip, s). Ok (Some (ip, off), s))
          else dirlookup_loop f dsw dp name (off + of_nat dirent_size) s)
      else Ok (None, s))"

text \<open>The bound on the loop: one round per directory entry of the directory, and one to end.\<close>

definition dir_rounds :: "nat \<Rightarrow> 'a kfs_scheme \<Rightarrow> nat" where
  "dir_rounds dp s = unat (i_size (inodes s ! dp)) div dirent_size + 2"

definition dirlookup ::
  "'a kfs_scheme devsw list \<Rightarrow> nat \<Rightarrow> u8 list \<Rightarrow> 'a kfs_scheme \<Rightarrow> ((nat \<times> u32) option \<times> 'a kfs_scheme) res" where
  "dirlookup dsw dp name s =
     (if i_type (inodes s ! dp) \<noteq> T_DIR then Panic ''dirlookup not DIR''
      else dirlookup_loop (dir_rounds dp s) dsw dp name 0 s)"

fun empty_dirent :: "nat \<Rightarrow> 'a kfs_scheme devsw list \<Rightarrow> nat \<Rightarrow> u32 \<Rightarrow> 'a kfs_scheme \<Rightarrow> (u32 \<times> 'a kfs_scheme) res" where
  "empty_dirent 0 dsw dp off s = Blocked"
| "empty_dirent (Suc f) dsw dp off s =
     (if off < i_size (inodes s ! dp) then
        rbind (readi dsw dp off (of_nat dirent_size) s) (\<lambda>(r, de, s).
          if r \<noteq> of_nat dirent_size then Panic ''dirlink read''
          else if de_inum de = 0 then Ok (off, s)
          else empty_dirent f dsw dp (off + of_nat dirent_size) s)
      else Ok (off, s))"

definition dirlink ::
  "'a kfs_scheme devsw list \<Rightarrow> nat \<Rightarrow> u8 list \<Rightarrow> u32 \<Rightarrow> 'a kfs_scheme \<Rightarrow> (cint \<times> 'a kfs_scheme) res" where
  "dirlink dsw dp name inum s =
     rbind (dirlookup dsw dp name s) (\<lambda>(r, s).
     case r of
       Some (ip, _) \<Rightarrow> rbind (iput ip s) (\<lambda>s. Ok (-1, s))
     | None \<Rightarrow>
         rbind (empty_dirent (dir_rounds dp s) dsw dp 0 s) (\<lambda>(off, s).
         rbind (writei dsw dp (mk_dirent (ucast inum) name) off (of_nat dirent_size) s) (\<lambda>(r, s).
         if r \<noteq> of_nat dirent_size then Panic ''dirlink'' else Ok (0, s))))"

section \<open>Paths\<close>

text \<open>The array \<open>name\<close> keeps its old bytes behind the terminating NUL.\<close>

definition skipelem :: "u8 list \<Rightarrow> u8 list \<Rightarrow> (u8 list \<times> u8 list) option" where
  "skipelem path name =
     (let path = dropWhile (\<lambda>c. c = 47) path
      in if hd0 path = 0 then None
         else let el = takeWhile (\<lambda>c. c \<noteq> 47 \<and> c \<noteq> 0) path;
                  path = drop (length el) path;
                  name = (if DIRSIZ \<le> length el then take DIRSIZ el @ drop DIRSIZ name
                          else el @ [0] @ drop (length el + 1) name)
              in Some (dropWhile (\<lambda>c. c = 47) path, name))"

lemma skipelem_shorter:
  assumes "skipelem path name = Some (p, n)"
  shows "length p < length path"
proof -
  let ?p = "dropWhile (\<lambda>c. c = 47) path"
  let ?e = "takeWhile (\<lambda>c. c \<noteq> 47 \<and> c \<noteq> 0) ?p"
  have nz: "hd0 ?p \<noteq> 0" and p: "p = dropWhile (\<lambda>c. c = 47) (drop (length ?e) ?p)"
    using assms by (simp_all add: skipelem_def Let_def split: if_splits)
  have "?p \<noteq> []"
  proof
    assume "?p = []"
    then show False using nz unfolding hd0_def by (simp only: list.case)
  qed
  then obtain c q where q: "?p = c # q" by (meson neq_Nil_conv)
  have "c \<noteq> 47" using hd_dropWhile [OF \<open>?p \<noteq> []\<close>] q by simp
  then have "?e \<noteq> []" using nz q by (simp add: hd0_def)
  then have "length (drop (length ?e) ?p) < length ?p" using q by simp
  then show ?thesis
    using length_dropWhile_le [of "\<lambda>c. c = 47" "drop (length ?e) ?p"] length_dropWhile_le [of "\<lambda>c. c = 47" path] unfolding p by linarith
qed

function namex_loop ::
  "'a kfs_scheme devsw list \<Rightarrow> bool \<Rightarrow> u8 list \<Rightarrow> u8 list \<Rightarrow> nat \<Rightarrow> 'a kfs_scheme \<Rightarrow>
   (nat option \<times> u8 list \<times> 'a kfs_scheme) res" where
  "namex_loop dsw par path name ip s =
     (case skipelem path name of
        None \<Rightarrow> if par then rbind (iput ip s) (\<lambda>s. Ok (None, name, s)) else Ok (Some ip, name, s)
      | Some (path, name) \<Rightarrow>
          rbind (ilock (Some ip) s) (\<lambda>s.
          if i_type (inodes s ! ip) \<noteq> T_DIR then rbind (iunlockput ip s) (\<lambda>s. Ok (None, name, s))
          else if par \<and> hd0 path = 0 then rbind (iunlock (Some ip) s) (\<lambda>s. Ok (Some ip, name, s))
          else rbind (dirlookup dsw ip name s) (\<lambda>(r, s).
               case r of
                 None \<Rightarrow> rbind (iunlockput ip s) (\<lambda>s. Ok (None, name, s))
               | Some (next, _) \<Rightarrow> rbind (iunlockput ip s) (namex_loop dsw par path name next))))"
  by pat_completeness auto
termination
  by (relation "measure (\<lambda>(dsw, par, path, name, ip, s). length path)") (auto dest: skipelem_shorter)

declare namex_loop.simps [simp del]

definition namex ::
  "'a kfs_scheme devsw list \<Rightarrow> u8 list \<Rightarrow> bool \<Rightarrow> u8 list \<Rightarrow> 'a kfs_scheme \<Rightarrow> (nat option \<times> u8 list \<times> 'a kfs_scheme) res" where
  "namex dsw path par name s =
     rbind (if hd0 path = 47 then iget ROOTDEV ROOTINO s
            else with_cur s (\<lambda>c. case p_cwd (procs s ! c) of None \<Rightarrow> Panic ''trap'' | Some ip \<Rightarrow> idup ip s))
       (\<lambda>(ip, s). namex_loop dsw par path name ip s)"

definition namei :: "'a kfs_scheme devsw list \<Rightarrow> u8 list \<Rightarrow> 'a kfs_scheme \<Rightarrow> (nat option \<times> 'a kfs_scheme) res" where
  "namei dsw path s = rbind (namex dsw path False (replicate DIRSIZ 0) s) (\<lambda>(ip, _, s). Ok (ip, s))"

definition nameiparent ::
  "'a kfs_scheme devsw list \<Rightarrow> u8 list \<Rightarrow> u8 list \<Rightarrow> 'a kfs_scheme \<Rightarrow> (nat option \<times> u8 list \<times> 'a kfs_scheme) res" where
  "nameiparent dsw path name s = namex dsw path True name s"

section \<open>Blocks inside a transaction\<close>

text \<open>Nothing above the log changes.\<close>

definition fs_frame :: "'a klog_scheme \<Rightarrow> 'a klog_scheme \<Rightarrow> bool" where
  "fs_frame s t \<longleftrightarrow> t = s\<lparr>procs := procs t, slocks := slocks t, bufs := bufs t, memdisk := memdisk t,
     dtrace := dtrace t, log_st := log_st t\<rparr>"

lemma fs_frame_refl [simp]: "fs_frame s s"
  by (simp add: fs_frame_def)

lemma fs_frame_trans [trans]: "fs_frame s t \<Longrightarrow> fs_frame t u \<Longrightarrow> fs_frame s u"
  by (cases s; cases t; cases u) (simp add: fs_frame_def)

lemma bio_same_frame: "bio_same s t \<Longrightarrow> fs_frame s t"
  by (cases s; cases t) (simp add: fs_frame_def bio_same_def)

lemma bio_same_log_frame: "bio_same (upd_log f s) t \<Longrightarrow> fs_frame s t"
  by (cases s; cases t) (simp add: fs_frame_def bio_same_def upd_log_def)

lemma fs_frameD:
  assumes "fs_frame s t"
  shows "inodes t = inodes s" "sb t = sb s" "cur t = cur s" "disksize t = disksize s" "lk t = lk s"
  using arg_cong [OF assms [unfolded fs_frame_def], of inodes] arg_cong [OF assms [unfolded fs_frame_def], of sb]
    arg_cong [OF assms [unfolded fs_frame_def], of cur] arg_cong [OF assms [unfolded fs_frame_def], of disksize]
    arg_cong [OF assms [unfolded fs_frame_def], of lk]
  by simp_all

text \<open>A transaction is open, and the log has room for \<open>k\<close> more blocks.\<close>

definition txn :: "nat \<Rightarrow> 'a klog_scheme \<Rightarrow> bool" where
  "txn k s \<longleftrightarrow> txn_state s \<and> 1 \<le> sint (log_outstanding (log_st s)) \<and>
     sint (lh_n (lh s)) + int k < int LOGSIZE \<and> sint (lh_n (lh s)) + int k \<le> sint (log_size (log_st s) - 1)"

lemma txn_mono: "txn k s \<Longrightarrow> j \<le> k \<Longrightarrow> txn j s"
  by (simp add: txn_def)

lemma txn_read:
  assumes s: "txn k s" and b: "b < disksize s"
  shows "\<exists>i s1 t. bread 1 b s = Ok (i, s1) \<and> bdata i s1 = blk s b \<and> brelse i s1 = Ok t \<and> txn k t \<and>
    fs_frame s s1 \<and> fs_frame s t \<and> blk t = blk s \<and> log_st t = log_st s"
proof -
  have x: "bcache.idle s" "log_ok s" "bpinned s = set (logged s)" using s by (simp_all add: txn_def txn_state_iff)
  have nh: "\<not> bheld s i c" for i c using x(1) by (rule bcache.idleD(2))
  have c: "card (bpinned s) < NBUF"
    using card_length [of "logged s"] log_okD(5) [OF x(2)] x(3) by (simp add: NBUF_def LOGSIZE_def MAXOPBLOCKS_def)
  obtain i s1 where r: "bread 1 b s = Ok (i, s1)" "quiet s1 \<and> bio_inv s1" "bio_same s s1" "blk s1 = blk s"
    "memdisk s1 = memdisk s" "bpinned s1 = bpinned s" "\<And>j c. bheld s1 j c \<longleftrightarrow> j = i \<and> c = b"
    using bcache.read_ok [OF bcache.idleD(1) [OF x(1)] b] c nh by auto
  have h1: "bheld s1 i b" using r(7) by simp
  have clean: "b \<in> bpinned s1 \<or> blk s1 b = memdisk s1 b"
    using bcache.in_step [OF bcache.idleD(1) [OF x(1)], of b] nh r(4-6) by auto
  obtain t where t: "brelse i s1 = Ok t" "quiet t \<and> bio_inv t" "bio_same s1 t" "blk t = blk s1" "bpinned t = bpinned s1"
    "\<forall>j c. bheld t j c \<longleftrightarrow> bheld s1 j c \<and> j \<noteq> i"
    using bcache.release_ok [OF r(2) h1 clean] by blast
  have st: "bio_same s t" using r(3) t(3) by (rule bio_same_trans)
  have l: "log_st t = log_st s" "disksize t = disksize s" using bio_same_log [OF st] bio_sameD(3) [OF st] by simp_all
  have "bcache.idle t" using t(2,6) r(7) by (auto simp: bcache.idle_def)
  moreover have "log_ok t" "logged t = logged s" using x(2) by (simp_all add: log_ok_def logged_def l)
  ultimately have "txn_state t" using x(3) t(5) r(6) by (simp add: txn_state_iff)
  then have "txn k t" using s by (simp add: txn_def l)
  then show ?thesis
    using r(1) bcache.data_view [OF r(2) h1] r(4) t(1,4) bio_same_frame [OF r(3)] bio_same_frame [OF st] l(1) by auto
qed

lemma txn_write:
  assumes s: "txn (Suc k) s" and b: "b < disksize s" "\<not> in_log (log_start (log_st s)) b"
  shows "\<exists>i s1. bread 1 b s = Ok (i, s1) \<and> bdata i s1 = blk s b \<and> fs_frame s s1 \<and>
    (\<forall>d. \<exists>s2 t. log_write i (set_bdata i d s1) = Ok s2 \<and> brelse i s2 = Ok t \<and> txn k t \<and> fs_frame s t \<and>
      blk t = (blk s)(b := d) \<and> log_start (log_st t) = log_start (log_st s))"
proof -
  have x: "bcache.idle s" "log_ok s" "bpinned s = set (logged s)" "1 \<le> sint (log_outstanding (log_st s))"
    using s by (simp_all add: txn_def txn_state_iff)
  have n: "sint (lh_n (lh s)) < int LOGSIZE - 1" "sint (lh_n (lh s)) < sint (log_size (log_st s) - 1)"
    using s by (simp_all add: txn_def)
  note W = txn_write_spec [OF x b n]
  obtain i s1 where r: "bread 1 b s = Ok (i, s1)" "bdata i s1 = blk s b" using W [of "[]"] by blast
  obtain i' s1' t' where r': "bread 1 b s = Ok (i', s1')" "fs_frame s s1'" using txn_read [OF s b(1)] by blast
  have "\<exists>s2 t. log_write i (set_bdata i d s1) = Ok s2 \<and> brelse i s2 = Ok t \<and> txn k t \<and> fs_frame s t \<and>
      blk t = (blk s)(b := d) \<and> log_start (log_st t) = log_start (log_st s)" for d
  proof -
    obtain s2 t where t: "log_write i (set_bdata i d s1) = Ok s2" "brelse i s2 = Ok t" "bcache.idle t" "log_ok t"
      "bpinned t = set (logged t)" "logged t = (if b \<in> set (logged s) then logged s else logged s @ [b])"
      "blk t = (blk s)(b := d)" "bio_same (upd_log (\<lambda>l. l\<lparr>log_lh := log_add b (log_lh l)\<rparr>) s) t"
      using W [of d] r(1) by auto
    have l: "log_st t = (log_st s)\<lparr>log_lh := log_add b (lh s)\<rparr>" using bio_same_log [OF t(8)] by simp
    have "0 \<le> sint (lh_n (lh s))" "sint (lh_n (lh s)) < int (length (lh_block (lh s)))" using x(2) by (simp_all add: log_ok_def)
    from log_add_logged(2) [OF this log_okD(2) [OF x(2)], of b]
    have "sint (lh_n (log_add b (lh s))) \<le> sint (lh_n (lh s)) + 1" by simp
    then have "txn k t" using s t(3-5) by (simp add: txn_def txn_state_iff l)
    then show ?thesis using t(1,2,7) bio_same_log_frame [OF t(8)] l by auto
  qed
  then show ?thesis using r r' by auto
qed

section \<open>The block allocator\<close>

lemma bmask_test: "(x AND bmask bi = 0) = (\<not> bit x (bi mod 8))"
  by (simp add: bmask_def push_bit_eq_mult and_exp_eq_0_iff_not_bit)

lemma bit_OR_bmask: "j < 8 \<Longrightarrow> bit (x OR bmask bi) j = (bit x j \<or> j = bi mod 8)"
  by (auto simp: bmask_def bit_simps)

text \<open>The bit of block \<open>b\<close> in the bitmap.\<close>

definition bused :: "'a kfs_scheme \<Rightarrow> u32 \<Rightarrow> bool" where
  "bused s b \<longleftrightarrow> bit (blk s (BBLOCK b (sb s)) ! (unat b mod BPB div 8)) (unat b mod 8)"

text \<open>The bitmap lies on the disk outside the log, and what it calls free is neither in the log nor
  in the bitmap itself (mkfs marks those blocks as in use).\<close>

definition bitmap_ok :: "'a kfs_scheme \<Rightarrow> bool" where
  "bitmap_ok s \<longleftrightarrow> sb_size (sb s) \<le> disksize s \<and> unat (sb_size (sb s)) < 2 ^ 31 \<and>
     (\<forall>b < sb_size (sb s). BBLOCK b (sb s) < disksize s \<and> \<not> in_log (log_start (log_st s)) (BBLOCK b (sb s)) \<and>
        length (blk s (BBLOCK b (sb s))) = BSIZE) \<and>
     (\<forall>b < sb_size (sb s). \<not> bused s b \<longrightarrow> \<not> in_log (log_start (log_st s)) b \<and> (\<forall>c < sb_size (sb s). b \<noteq> BBLOCK c (sb s)))"

lemma block_in_base:
  assumes "unat B mod 4096 = 0" "k < 4096" "unat B + k < 2 ^ 31"
  shows "unat (B + of_nat k :: u32) = unat B + k" "BBLOCK (B + of_nat k) sb0 = BBLOCK B sb0"
    "unat (B + of_nat k) mod BPB = k" "unat (B + of_nat k) mod 8 = k mod 8"
proof -
  have "unat (of_nat k :: u32) = k" using assms(2) by (intro unat_of_nat_u32) simp
  then show u: "unat (B + of_nat k :: u32) = unat B + k" using assms(3) by (simp add: unat_word_ariths)
  have m: "(unat B + k) mod 4096 = k" using assms(1,2) by (simp add: mod_add_eq [symmetric])
  have d: "(unat B + k) div 4096 = unat B div 4096" using assms(1,2) by (simp add: div_add1_eq)
  have "unat ((B + of_nat k) div 4096 :: u32) = unat (B div 4096)" using d by (simp add: unat_div u)
  then have "(B + of_nat k) div 4096 = B div 4096" by (simp only: word_unat_eq_iff)
  then show "BBLOCK (B + of_nat k) sb0 = BBLOCK B sb0" by (simp add: BBLOCK_def BPB_def BSIZE_def)
  show "unat (B + of_nat k) mod BPB = k" using u m by (simp add: BPB_def BSIZE_def)
  have "(unat B + k) mod 8 = (unat B + k) mod 4096 mod 8" by (rule mod_mod_cancel [symmetric]) simp
  then show "unat (B + of_nat k) mod 8 = k mod 8" using u m by simp
qed

text \<open>Setting one bit.\<close>

lemma bused_set:
  assumes ok: "bitmap_ok s" and b: "b < sb_size (sb s)" "\<not> bused s b"
    and d: "d = blk s (BBLOCK b (sb s))" "k = unat b mod BPB"
    and t: "blk t = (blk s)(BBLOCK b (sb s) := d[k div 8 := d ! (k div 8) OR bmask k], b := z)" "sb t = sb s"
    and c: "c < sb_size (sb s)"
  shows "bused t c = (bused s c \<or> c = b)"
proof -
  have nb: "BBLOCK c (sb s) \<noteq> b" using ok b c unfolding bitmap_ok_def by metis
  have l: "length d = 512" using ok b(1) d(1) unfolding bitmap_ok_def BSIZE_def by blast
  have k: "k div 8 < 512" using d(2) by (simp add: BPB_def BSIZE_def div_less_iff_less_mult)
  have k8: "k mod 8 = unat b mod 8" unfolding d(2) BPB_def BSIZE_def by (rule mod_mod_cancel) simp
  show ?thesis
  proof (cases "BBLOCK c (sb s) = BBLOCK b (sb s)")
    case False
    then have "c \<noteq> b" by auto
    then show ?thesis using False nb by (simp add: bused_def t)
  next
    case True
    have eq: "c = b" if "unat c mod BPB = k"
    proof -
      have "c div 4096 = b div 4096" using True by (simp add: BBLOCK_def BPB_def BSIZE_def)
      from arg_cong [OF this, of unat] have q: "unat c div 4096 = unat b div 4096" by (simp add: unat_div)
      have m: "unat c mod 4096 = unat b mod 4096" using that d(2) by (simp add: BPB_def BSIZE_def)
      have "unat c = unat c div 4096 * 4096 + unat c mod 4096" by (rule div_mult_mod_eq [symmetric])
      also have "\<dots> = unat b" unfolding q m by (rule div_mult_mod_eq)
      finally show ?thesis by (simp only: word_unat_eq_iff)
    qed
    have c8: "unat c mod BPB mod 8 = unat c mod 8" unfolding BPB_def BSIZE_def by (rule mod_mod_cancel) simp
    have "bused t c = bit (d[k div 8 := d ! (k div 8) OR bmask k] ! (unat c mod BPB div 8)) (unat c mod 8)"
      using nb True by (simp add: bused_def t)
    also have "\<dots> = (bused s c \<or> c = b)"
    proof (cases "unat c mod BPB div 8 = k div 8")
      case True': True
      have cb: "unat c mod 8 = k mod 8 \<longleftrightarrow> c = b"
      proof
        assume a: "unat c mod 8 = k mod 8"
        have "unat c mod BPB = unat c mod BPB div 8 * 8 + unat c mod BPB mod 8" by (rule div_mult_mod_eq [symmetric])
        also have "\<dots> = k" unfolding True' c8 a by (rule div_mult_mod_eq)
        finally show "c = b" by (rule eq)
      qed (simp add: k8)
      have e1: "d[k div 8 := d ! (k div 8) OR bmask k] ! (k div 8) = d ! (k div 8) OR bmask k" using k l by simp
      have e2: "bused s c = bit (d ! (k div 8)) (unat c mod 8)" unfolding bused_def True True' d(1) ..
      show ?thesis unfolding True' e1 e2 cb [symmetric] by (rule bit_OR_bmask) simp
    next
      case False
      have cb: "c \<noteq> b"
      proof
        assume "c = b"
        then show False using False d(2) by simp
      qed
      have "d[k div 8 := d ! (k div 8) OR bmask k] ! (unat c mod BPB div 8) = d ! (unat c mod BPB div 8)"
        using False by (intro nth_list_update_neq) simp
      then show ?thesis using cb unfolding bused_def True d(1) by simp
    qed
    finally show ?thesis .
  qed
qed

definition balloc_post :: "nat \<Rightarrow> 'a kfs_scheme \<Rightarrow> u32 \<Rightarrow> 'a kfs_scheme \<Rightarrow> bool" where
  "balloc_post k s b t \<longleftrightarrow> b < sb_size (sb s) \<and> \<not> bused s b \<and> (\<forall>c<b. bused s c) \<and>
     (\<forall>c < sb_size (sb s). bused t c = (bused s c \<or> c = b)) \<and> blk t b = replicate BSIZE 0 \<and>
     (\<forall>c. c \<noteq> b \<and> c \<noteq> BBLOCK b (sb s) \<longrightarrow> blk t c = blk s c) \<and> txn k t \<and> fs_frame s t \<and>
     log_start (log_st t) = log_start (log_st s)"

lemma bused_cong: "blk t = blk s \<Longrightarrow> sb t = sb s \<Longrightarrow> bused t = bused s"
  by (simp add: bused_def fun_eq_iff)

lemma balloc_post_read:
  assumes "blk t = blk s" "fs_frame s t" "log_st t = log_st s" "balloc_post k t b u"
  shows "balloc_post k s b u"
  using assms fs_frameD [OF assms(2)] bused_cong [OF assms(1) fs_frameD(2) [OF assms(2)]] fs_frame_trans [OF assms(2)]
  unfolding balloc_post_def by auto

lemma bitmap_ok_cong: "blk t = blk s \<Longrightarrow> sb t = sb s \<Longrightarrow> disksize t = disksize s \<Longrightarrow> log_st t = log_st s \<Longrightarrow> bitmap_ok s \<Longrightarrow> bitmap_ok t"
  using bused_cong [of t s] by (simp add: bitmap_ok_def)

lemma bzero_spec:
  assumes "txn (Suc k) s" "b < disksize s" "\<not> in_log (log_start (log_st s)) b"
  shows "\<exists>t. bzero 1 b s = Ok t \<and> txn k t \<and> fs_frame s t \<and> blk t = (blk s)(b := replicate BSIZE 0) \<and>
    log_start (log_st t) = log_start (log_st s)"
proof -
  from txn_write [OF assms] obtain i s1 where r: "bread 1 b s = Ok (i, s1)"
    "\<forall>d. \<exists>s2 t. log_write i (set_bdata i d s1) = Ok s2 \<and> brelse i s2 = Ok t \<and> txn k t \<and> fs_frame s t \<and>
      blk t = (blk s)(b := d) \<and> log_start (log_st t) = log_start (log_st s)" by blast
  from r(2) [rule_format, of "replicate BSIZE 0"] obtain s2 t where
    "log_write i (set_bdata i (replicate BSIZE 0) s1) = Ok s2" "brelse i s2 = Ok t" "txn k t" "fs_frame s t"
    "blk t = (blk s)(b := replicate BSIZE 0)" "log_start (log_st t) = log_start (log_st s)" by blast
  then show ?thesis using r(1) by (simp add: bzero_def)
qed

lemma balloc_block:
  assumes s: "txn (Suc (Suc k)) s" "bitmap_ok s" and B: "unat B mod 4096 = 0" "B < sb_size (sb s)"
    and prev: "\<forall>c<B. bused s c"
  defines "d \<equiv> blk s (BBLOCK B (sb s))" and "lim \<equiv> min BPB (unat (sb_size (sb s) - B))"
  shows "\<exists>i s1. bread 1 (BBLOCK B (sb s)) s = Ok (i, s1) \<and> bdata i s1 = d \<and> sb s1 = sb s \<and>
    (case first_ix (\<lambda>bi. d ! (bi div 8) AND bmask bi = 0) [0..<lim] of
       None \<Rightarrow> (\<forall>c < sb_size (sb s). unat c < unat B + 4096 \<longrightarrow> bused s c) \<and>
         (\<exists>t. brelse i s1 = Ok t \<and> txn (Suc (Suc k)) t \<and> fs_frame s t \<and> blk t = blk s \<and> log_st t = log_st s)
     | Some bi \<Rightarrow> \<exists>s2 s3 t. log_write i (set_bdata i (d[bi div 8 := d ! (bi div 8) OR bmask bi]) s1) = Ok s2 \<and>
         brelse i s2 = Ok s3 \<and> bzero 1 (B + of_nat bi) s3 = Ok t \<and> balloc_post k s (B + of_nat bi) t)"
proof -
  have m: "sb_size (sb s) \<le> disksize s" "unat (sb_size (sb s)) < 2 ^ 31"
    "BBLOCK B (sb s) < disksize s" "\<not> in_log (log_start (log_st s)) (BBLOCK B (sb s))"
    "\<And>b. b < sb_size (sb s) \<Longrightarrow> \<not> bused s b \<Longrightarrow> \<not> in_log (log_start (log_st s)) b \<and> b \<noteq> BBLOCK B (sb s)"
    using s(2) B(2) unfolding bitmap_ok_def by blast+
  have lim: "lim \<le> 4096" "lim \<le> unat (sb_size (sb s)) - unat B"
    using B(2) by (simp_all add: lim_def BPB_def BSIZE_def unat_sub less_imp_le)
  have sz: "unat B < unat (sb_size (sb s))" using B(2) by (simp add: word_less_nat_alt)
  have bi: "unat (B + of_nat j) = unat B + j" "BBLOCK (B + of_nat j) (sb s) = BBLOCK B (sb s)" "unat (B + of_nat j) mod BPB = j"
    "unat (B + of_nat j) mod 8 = j mod 8" "B + of_nat j < sb_size (sb s)" if "j < lim" for j
    using block_in_base [OF B(1), of j] that lim sz m(2) by (simp_all add: word_less_nat_alt)
  have us: "bused s (B + of_nat j) = (d ! (j div 8) AND bmask j \<noteq> 0)" if "j < lim" for j
    using bi [OF that] by (simp add: bused_def d_def bmask_test)
  obtain i s1 where r: "bread 1 (BBLOCK B (sb s)) s = Ok (i, s1)" "bdata i s1 = d" "fs_frame s s1"
    "\<forall>d. \<exists>s2 t. log_write i (set_bdata i d s1) = Ok s2 \<and> brelse i s2 = Ok t \<and> txn (Suc k) t \<and> fs_frame s t \<and>
      blk t = (blk s)(BBLOCK B (sb s) := d) \<and> log_start (log_st t) = log_start (log_st s)"
    using txn_write [OF s(1) m(3,4)] unfolding d_def by blast
  obtain t where rl: "brelse i s1 = Ok t" "txn (Suc (Suc k)) t" "fs_frame s t" "blk t = blk s" "log_st t = log_st s"
    using txn_read [OF s(1) m(3)] r(1) by auto
  show ?thesis
  proof (cases "first_ix (\<lambda>bi. d ! (bi div 8) AND bmask bi = 0) [0..<lim]")
    case None
    have "bused s c" if c: "c < sb_size (sb s)" "unat c < unat B + 4096" for c
    proof (cases "c < B")
      case False
      then have le: "unat B \<le> unat c" by (simp add: word_less_nat_alt)
      define j where "j = unat c - unat B"
      have "unat c < unat (sb_size (sb s))" using c(1) by (simp add: word_less_nat_alt)
      then have "j < 4096" "j < unat (sb_size (sb s)) - unat B" using c(2) le unfolding j_def by linarith+
      then have j: "j < lim" using B(2) by (simp add: lim_def BPB_def BSIZE_def unat_sub less_imp_le)
      have "c = B + of_nat j" using bi(1) [OF j] le by (simp add: word_unat_eq_iff j_def)
      then show ?thesis using us [OF j] None j by (auto simp: first_ix_None_iff)
    qed (use prev in blast)
    then show ?thesis using r(1,2) fs_frameD(2) [OF r(3)] rl None by auto
  next
    case (Some bi)
    then have b: "bi < lim" "d ! (bi div 8) AND bmask bi = 0" "\<And>j. j < bi \<Longrightarrow> d ! (j div 8) AND bmask j \<noteq> 0"
      by (auto simp: first_ix_Some_iff)
    let ?b = "B + of_nat bi" and ?d = "d[bi div 8 := d ! (bi div 8) OR bmask bi]"
    have nb: "\<not> bused s ?b" using us [OF b(1)] b(2) by simp
    note mb = m(5) [OF bi(5) [OF b(1)] nb]
    obtain s2 s3 where w: "log_write i (set_bdata i ?d s1) = Ok s2" "brelse i s2 = Ok s3" "txn (Suc k) s3" "fs_frame s s3"
      "blk s3 = (blk s)(BBLOCK B (sb s) := ?d)" "log_start (log_st s3) = log_start (log_st s)"
      using r(4) [rule_format, of ?d] by blast
    have bd: "?b < disksize s3" using bi(5) [OF b(1)] m(1) fs_frameD(4) [OF w(4)] by (simp add: less_le_trans)
    obtain u where u: "bzero 1 ?b s3 = Ok u" "txn k u" "fs_frame s3 u" "blk u = (blk s3)(?b := replicate BSIZE 0)"
      "log_start (log_st u) = log_start (log_st s3)"
      using bzero_spec [OF w(3) bd] mb w(6) by auto
    have f: "fs_frame s u" using w(4) u(3) by (rule fs_frame_trans)
    have "\<forall>c<?b. bused s c"
    proof (intro allI impI)
      fix c assume c: "c < ?b"
      show "bused s c"
      proof (cases "c < B")
        case False
        define j where "j = unat c - unat B"
        have j: "j < bi" using c False bi(1) [OF b(1)] by (simp add: j_def word_less_nat_alt)
        then have jl: "j < lim" using b(1) by simp
        have "c = B + of_nat j" using bi(1) [OF jl] False by (simp add: word_unat_eq_iff j_def word_less_nat_alt)
        then show ?thesis using us [OF jl] b(3) [OF j] by simp
      qed (use prev in blast)
    qed
    moreover have "bused u c = (bused s c \<or> c = ?b)" if "c < sb_size (sb s)" for c
      using bused_set [OF s(2) bi(5) [OF b(1)] nb _ _ _ _ that, of d bi u "replicate BSIZE 0"] u(4) w(5) bi(2,3) [OF b(1)]
        fs_frameD(2) [OF f] by (simp add: d_def)
    ultimately have "balloc_post k s ?b u"
      unfolding balloc_post_def using bi(2,5) [OF b(1)] nb u(2,4,5) w(5,6) f by simp
    then show ?thesis using r(1,2) fs_frameD(2) [OF r(3)] Some w(1,2) u(1) by auto
  qed
qed

lemma balloc_loop_spec:
  assumes "txn (Suc (Suc k)) s" "bitmap_ok s" "unat B mod 4096 = 0" "\<forall>c < sb_size (sb s). c < B \<longrightarrow> bused s c"
    "unat (sb_size (sb s)) \<le> unat B + 4096 * f"
  shows "if \<exists>b < sb_size (sb s). \<not> bused s b then \<exists>b t. balloc_loop (Suc f) 1 B s = Ok (b, t) \<and> balloc_post k s b t
    else balloc_loop (Suc f) 1 B s = Panic ''balloc: out of blocks''"
  using assms
proof (induction f arbitrary: B s)
  case 0
  then have "\<not> B < sb_size (sb s)" by (simp add: word_less_nat_alt)
  then show ?case using 0(4) by auto
next
  case (Suc f)
  show ?case
  proof (cases "B < sb_size (sb s)")
    case False
    then show ?thesis using Suc.prems(4) by auto
  next
    case B: True
    have prev: "\<forall>c<B. bused s c" using Suc.prems(4) B by (meson less_trans)
    let ?d = "blk s (BBLOCK B (sb s))"
    let ?f = "first_ix (\<lambda>bi. ?d ! (bi div 8) AND bmask bi = 0) [0..<min BPB (unat (sb_size (sb s) - B))]"
    obtain i s1 where r: "bread 1 (BBLOCK B (sb s)) s = Ok (i, s1)" "bdata i s1 = ?d" "sb s1 = sb s" and
      c: "case ?f of
       None \<Rightarrow> (\<forall>c < sb_size (sb s). unat c < unat B + 4096 \<longrightarrow> bused s c) \<and>
         (\<exists>t. brelse i s1 = Ok t \<and> txn (Suc (Suc k)) t \<and> fs_frame s t \<and> blk t = blk s \<and> log_st t = log_st s)
     | Some bi \<Rightarrow> \<exists>s2 s3 t. log_write i (set_bdata i (?d[bi div 8 := ?d ! (bi div 8) OR bmask bi]) s1) = Ok s2 \<and>
         brelse i s2 = Ok s3 \<and> bzero 1 (B + of_nat bi) s3 = Ok t \<and> balloc_post k s (B + of_nat bi) t"
      using balloc_block [OF Suc.prems(1-3) B prev] by blast
    show ?thesis
    proof (cases ?f)
      case (Some bi)
      then obtain s2 s3 t where x: "log_write i (set_bdata i (?d[bi div 8 := ?d ! (bi div 8) OR bmask bi]) s1) = Ok s2"
        "brelse i s2 = Ok s3" "bzero 1 (B + of_nat bi) s3 = Ok t" "balloc_post k s (B + of_nat bi) t" using c by auto
      have "balloc_loop (Suc (Suc f)) 1 B s = Ok (B + of_nat bi, t)" using B r x(1-3) Some by (simp add: Let_def)
      moreover have "\<exists>b < sb_size (sb s). \<not> bused s b" using x(4) unfolding balloc_post_def by blast
      ultimately show ?thesis using x(4) by auto
    next
      case None
      then obtain t where t: "brelse i s1 = Ok t" "txn (Suc (Suc k)) t" "fs_frame s t" "blk t = blk s" "log_st t = log_st s"
        and us: "\<forall>c < sb_size (sb s). unat c < unat B + 4096 \<longrightarrow> bused s c" using c by auto
      note ft = fs_frameD [OF t(3)]
      have bt: "bused t = bused s" by (rule bused_cong [OF t(4) ft(2)])
      have "unat B < 2 ^ 31" using B Suc.prems(2) by (simp add: bitmap_ok_def word_less_nat_alt)
      then have ub: "unat (B + of_nat BPB) = unat B + 4096" by (simp add: BPB_def BSIZE_def unat_word_ariths)
      have step: "balloc_loop (Suc (Suc f)) 1 B s = balloc_loop (Suc f) 1 (B + of_nat BPB) t"
        using B r t(1) None by (simp add: Let_def)
      have ih: "if \<exists>b < sb_size (sb t). \<not> bused t b
        then \<exists>b u. balloc_loop (Suc f) 1 (B + of_nat BPB) t = Ok (b, u) \<and> balloc_post k t b u
        else balloc_loop (Suc f) 1 (B + of_nat BPB) t = Panic ''balloc: out of blocks''"
      proof (rule Suc.IH [OF t(2)])
        show "bitmap_ok t" using bitmap_ok_cong [OF t(4) ft(2,4) t(5) Suc.prems(2)] .
        show "unat (B + of_nat BPB) mod 4096 = 0" using ub Suc.prems(3) by simp
        show "\<forall>c < sb_size (sb t). c < B + of_nat BPB \<longrightarrow> bused t c"
          using us ub bt ft(2) by (simp add: word_less_nat_alt)
        show "unat (sb_size (sb t)) \<le> unat (B + of_nat BPB) + 4096 * f" using Suc.prems(5) ub ft(2) by simp
      qed
      show ?thesis unfolding step using ih balloc_post_read [OF t(4,3,5)] unfolding bt ft(2) by (auto split: if_splits)
    qed
  qed
qed

section \<open>Properties\<close>

text \<open>C9. Inside a transaction with room for two more blocks, and with a bitmap on the disk that does not
  give away the log or itself, \<open>balloc\<close> returns: when some block is free it returns the first free one,
  marks exactly that block as used, zeroes it, and changes no block but that one and its bitmap block;
  when none is free it panics.\<close>

theorem balloc_correct:
  assumes "txn (Suc (Suc k)) s" "bitmap_ok s"
  shows "if \<exists>b < sb_size (sb s). \<not> bused s b
    then \<exists>b t. balloc 1 s = Ok (b, t) \<and> b < sb_size (sb s) \<and> \<not> bused s b \<and> (\<forall>c<b. bused s c) \<and>
      (\<forall>c < sb_size (sb s). bused t c = (bused s c \<or> c = b)) \<and> blk t b = replicate BSIZE 0 \<and>
      (\<forall>c. c \<noteq> b \<and> c \<noteq> BBLOCK b (sb s) \<longrightarrow> blk t c = blk s c) \<and> txn k t \<and> inodes t = inodes s \<and> sb t = sb s
    else balloc 1 s = Panic ''balloc: out of blocks''"
proof -
  let ?n = "unat (sb_size (sb s))"
  have "?n < 4096 + 4096 * (?n div 4096)" by (rule dividend_less_times_div) simp
  then have "?n \<le> 4096 * (?n div 4096 + 1)" by simp
  then have "unat (sb_size (sb s)) \<le> unat (0 :: u32) + 4096 * (?n div BPB + 1)" by (simp add: BPB_def BSIZE_def)
  from balloc_loop_spec [OF assms _ _ this]
  have r: "if \<exists>b < sb_size (sb s). \<not> bused s b then \<exists>b t. balloc_loop (Suc (?n div BPB + 1)) 1 0 s = Ok (b, t) \<and> balloc_post k s b t
    else balloc_loop (Suc (?n div BPB + 1)) 1 0 s = Panic ''balloc: out of blocks''" by (simp del: balloc_loop.simps)
  have e: "?n div BPB + 2 = Suc (?n div BPB + 1)" by simp
  from r have "if \<exists>b < sb_size (sb s). \<not> bused s b then \<exists>b t. balloc 1 s = Ok (b, t) \<and> balloc_post k s b t
    else balloc 1 s = Panic ''balloc: out of blocks''" unfolding balloc_def e .
  then show ?thesis unfolding balloc_post_def using fs_frameD(1,2) by (auto split: if_splits)
qed

text \<open>A small disk: the log in blocks 2 to 31, the bitmap in block 60 with blocks 0 to 63 in use.\<close>

definition kfs0 :: kfs where
  "kfs0 = klog.extend (klog0\<lparr>memdisk := (\<lambda>_. replicate 512 0)(60 := replicate 8 255 @ replicate 504 0)\<rparr>)
     (kfs.fields (replicate NINODE \<lparr>i_dev = 0, i_inum = 0, i_ref = 0, i_flags = 0, i_type = 0, i_major = 0, i_minor = 0,
        i_nlink = 0, i_size = 0, i_addrs = replicate 13 0\<rparr>)
      \<lparr>sb_size = 100, sb_nblocks = 30, sb_ninodes = 64, sb_nlog = 30, sb_logstart = 2, sb_inodestart = 40, sb_bmapstart = 60\<rparr>)"

lemma kfs0_simps [simp]:
  "disksize kfs0 = 1000" "memdisk kfs0 = (\<lambda>_. replicate 512 0)(60 := replicate 8 255 @ replicate 504 0)"
  "log_st kfs0 = log_st klog0" "lk kfs0 = lk klog0" "cur kfs0 = cur klog0" "bufs kfs0 = bufs klog0" "slocks kfs0 = slocks klog0"
  "sb kfs0 = \<lparr>sb_size = 100, sb_nblocks = 30, sb_ninodes = 64, sb_nlog = 30, sb_logstart = 2, sb_inodestart = 40, sb_bmapstart = 60\<rparr>"
  using klog0_ok(2) by (simp_all add: kfs0_def klog.defs kfs.defs)

lemma kfs0_txn: "txn 5 kfs0" "blk kfs0 = memdisk kfs0"
proof -
  have t: "quiet klog0" "bio_inv klog0" "\<And>i b. \<not> bheld klog0 i b" "log_ok klog0" "bpinned klog0 = set (logged klog0)"
    using klog0_ok(1) unfolding txn_state_def by blast+
  have c: "\<not> cached klog0 i b" for i b using kbio0_ok(3) [of i b] by (simp add: klog0_def kbio.defs cached_def)
  have d: "i < NBUF \<Longrightarrow> b_dev (bufs klog0 ! i) \<noteq> 1" for i using c [of i] by (auto simp: cached_def)
  have b: "bio_inv kfs0" using t(2) d klog0_ok(2) unfolding bio_inv_def buf_ok_def by auto
  have c': "\<not> cached kfs0 i b" for i b using c [of i b] by (simp add: cached_def)
  show "blk kfs0 = memdisk kfs0" using blk_uncached [OF bio_invD(2) [OF b]] c' by (auto simp: fun_eq_iff)
  have q: "quiet kfs0" using t(1) by (simp add: quiet_def)
  have lg: "logged kfs0 = []" "logged klog0 = []" by (simp_all add: logged_def klog0_ok(6))
  have l: "log_ok kfs0" using t(4) klog0_ok(2) lg by (simp add: log_ok_def)
  have "bpinned kfs0 = {}" "\<not> bheld kfs0 i b" for i b using c' by (simp_all add: bpinned_def bheld_def)
  then show "txn 5 kfs0" using q b l lg(1) by (simp add: txn_def txn_state_def klog0_ok(6) LOGSIZE_def MAXOPBLOCKS_def)
qed

lemma bit_255: "n < 8 \<Longrightarrow> bit (255 :: u8) n"
  using bit_mask_iff [of 8 n, where ?'a = "8 word"] by (simp add: mask_eq_exp_minus_1)

lemma kfs0_bused: "b < 100 \<Longrightarrow> bused kfs0 b \<longleftrightarrow> b < 64"
proof -
  assume b: "b < 100"
  then have u: "unat b < 100" by (simp add: word_less_nat_alt)
  have "unat (b div 4096) = 0" using u by (simp add: unat_div)
  then have z: "b div 4096 = 0" by (simp only: unat_eq_0)
  have k: "unat b div 8 < 512" using u by simp
  have "bused kfs0 b \<longleftrightarrow> bit ((replicate 8 255 @ replicate 504 (0 :: u8)) ! (unat b div 8)) (unat b mod 8)"
    using u z by (simp add: bused_def kfs0_txn(2) BBLOCK_def BPB_def BSIZE_def)
  also have "\<dots> \<longleftrightarrow> unat b div 8 < 8" using k bit_255 [of "unat b mod 8"] by (simp add: nth_append)
  also have "\<dots> \<longleftrightarrow> b < 64" by (simp add: word_less_nat_alt div_less_iff_less_mult)
  finally show ?thesis .
qed

lemma kfs0_bitmap: "bitmap_ok kfs0"
proof -
  have z: "BBLOCK b (sb kfs0) = 60" if "b < 100" for b
  proof -
    have "unat (b div 4096) = 0" using that by (simp add: unat_div word_less_nat_alt)
    then have "b div 4096 = 0" by (simp only: unat_eq_0)
    then show ?thesis by (simp add: BBLOCK_def BPB_def BSIZE_def)
  qed
  have i: "\<not> in_log 2 b" if "\<not> b < 64 \<or> b = 60" for b using that by (auto simp: in_log_def LOGSIZE_def MAXOPBLOCKS_def word_less_nat_alt)
  show ?thesis
    unfolding bitmap_ok_def using z kfs0_bused i by (auto simp: kfs0_txn(2) klog0_ok(6) BSIZE_def)
qed

theorem balloc_correct_witness:
  "txn 5 kfs0 \<and> bitmap_ok kfs0 \<and> \<not> bused kfs0 64 \<and>
   (\<exists>b t. balloc 1 kfs0 = Ok (b, t) \<and> b < 100 \<and> \<not> bused kfs0 b \<and> bused t b \<and> blk t b = replicate BSIZE 0)"
proof -
  have t: "txn (Suc (Suc 3)) kfs0" using kfs0_txn(1) by simp
  have f: "\<exists>b < sb_size (sb kfs0). \<not> bused kfs0 b" using kfs0_bused [of 64] by (intro exI [of _ 64]) simp
  from balloc_correct [OF t kfs0_bitmap] f kfs0_txn(1) kfs0_bitmap kfs0_bused [of 64] show ?thesis by auto
qed

section \<open>File contents\<close>

text \<open>The block that holds block \<open>n\<close> of a file, and the bytes of the file.\<close>

definition faddr :: "'a kfs_scheme \<Rightarrow> nat \<Rightarrow> nat \<Rightarrow> u32" where
  "faddr s i n = (if n < NDIRECT then i_addrs (inodes s ! i) ! n
     else get32 (blk s (i_addrs (inodes s ! i) ! NDIRECT)) (4 * (n - NDIRECT)))"

definition fbyte :: "'a kfs_scheme \<Rightarrow> nat \<Rightarrow> nat \<Rightarrow> u8" where
  "fbyte s i p = blk s (faddr s i (p div BSIZE)) ! (p mod BSIZE)"

abbreviation indirect :: "'a kfs_scheme \<Rightarrow> nat \<Rightarrow> u32" where
  "indirect s i \<equiv> i_addrs (inodes s ! i) ! NDIRECT"

text \<open>The first \<open>N\<close> blocks of the file are allocated, in different blocks outside the log.\<close>

definition fblocks :: "'a kfs_scheme \<Rightarrow> nat \<Rightarrow> nat \<Rightarrow> bool" where
  "fblocks s i N \<longleftrightarrow> i_dev (inodes s ! i) = 1 \<and> N \<le> MAXFILE \<and>
     (\<forall>n<N. faddr s i n \<noteq> 0 \<and> faddr s i n < disksize s \<and> \<not> in_log (log_start (log_st s)) (faddr s i n) \<and>
        length (blk s (faddr s i n)) = BSIZE) \<and>
     inj_on (faddr s i) {..<N} \<and>
     (NDIRECT < N \<longrightarrow> indirect s i \<noteq> 0 \<and> indirect s i < disksize s \<and> (\<forall>n<N. faddr s i n \<noteq> indirect s i))"

lemma bmap_hit:
  assumes s: "txn k s" and f: "fblocks s i N" and n: "n < N"
  shows "\<exists>t. bmap i (of_nat n) s = Ok (faddr s i n, t) \<and> txn k t \<and> fs_frame s t \<and> blk t = blk s \<and> log_st t = log_st s"
proof -
  have nm: "n < 140" using f n by (simp add: fblocks_def MAXFILE_def NDIRECT_def NINDIRECT_def BSIZE_def)
  have nz: "faddr s i n \<noteq> 0" and dev: "i_dev (inodes s ! i) = 1" using f n by (simp_all add: fblocks_def)
  have u: "unat (of_nat n :: u32) = n" using nm by simp
  show ?thesis
  proof (cases "n < 12")
    case True
    then have a: "faddr s i n = i_addrs (inodes s ! i) ! n" by (simp add: faddr_def NDIRECT_def)
    have "(of_nat n :: u32) < 12" using True u by (simp add: word_less_nat_alt)
    then have "bmap i (of_nat n) s = Ok (faddr s i n, s)" using nz a u by (simp add: bmap_def Let_def NDIRECT_def)
    then show ?thesis using s by auto
  next
    case False
    have a: "faddr s i n = get32 (blk s (indirect s i)) (4 * (n - 12))" using False by (simp add: faddr_def NDIRECT_def)
    have ind: "indirect s i \<noteq> 0" "indirect s i < disksize s" using f n False by (simp_all add: fblocks_def NDIRECT_def)
    have sub: "unat (of_nat n - 12 :: u32) = n - 12" using False u unat_sub_u32 [of 12 "of_nat n"] by simp
    have c: "\<not> (of_nat n :: u32) < 12" "(of_nat n - 12 :: u32) < 128" using False nm u sub by (simp_all add: word_less_nat_alt)
    obtain j s1 t where r: "bread 1 (indirect s i) s = Ok (j, s1)" "bdata j s1 = blk s (indirect s i)" "brelse j s1 = Ok t"
      "txn k t" "fs_frame s t" "blk t = blk s" "log_st t = log_st s" using txn_read [OF s ind(2)] by blast
    have "bmap i (of_nat n) s = Ok (faddr s i n, t)"
      using c ind(1) nz r(1-3) dev a sub by (simp add: bmap_def Let_def NDIRECT_def NINDIRECT_def BSIZE_def)
    then show ?thesis using r(4-7) by auto
  qed
qed

lemma file_frame:
  assumes "blk t = blk s" "fs_frame s t" "log_st t = log_st s"
  shows "faddr t i n = faddr s i n" "fbyte t i p = fbyte s i p" "fblocks t i N = fblocks s i N"
proof -
  note d = fs_frameD [OF assms(2)]
  have a: "faddr t i = faddr s i" by (simp add: fun_eq_iff faddr_def assms(1) d)
  then show "faddr t i n = faddr s i n" by simp
  show "fbyte t i p = fbyte s i p" by (simp add: fbyte_def a assms(1))
  show "fblocks t i N = fblocks s i N" by (simp add: fblocks_def a assms d)
qed

text \<open>One step of the copying loops stays inside one block.\<close>

lemma chunk_facts:
  assumes "tot < n" "unat off + unat (n - tot) < 2 ^ 31"
  defines "m \<equiv> chunk n tot off"
  shows "unat m = min (unat (n - tot)) (512 - unat off mod 512)" "0 < unat m" "unat (off + m) = unat off + unat m"
    "unat (n - (tot + m)) = unat (n - tot) - unat m" "tot + m \<le> n" "unat (off div of_nat BSIZE) = unat off div 512"
    "unat (off mod of_nat BSIZE) = unat off mod 512" "unat off mod 512 + unat m \<le> 512" "unat (tot + m) = unat tot + unat m"
proof -
  have om: "unat (off mod 512) = unat off mod 512" by (simp add: unat_mod)
  have lt: "unat off mod 512 < 512" by simp
  have d: "unat (512 - off mod 512 :: u32) = 512 - unat off mod 512" using om unat_sub_u32 [of "off mod 512" 512] lt by simp
  show mm: "unat m = min (unat (n - tot)) (512 - unat off mod 512)"
    unfolding m_def chunk_def Let_def BSIZE_def using d by (simp add: word_less_nat_alt min_def)
  show m0: "0 < unat m" unfolding m_def by (rule chunk_step(2) [OF assms(1)])
  have le: "unat m \<le> unat (n - tot)" using mm by simp
  show "unat (off + m) = unat off + unat m" using le assms(2) by (simp add: unat_word_ariths)
  have nt: "unat (n - tot) = unat n - unat tot" "unat tot < unat n" using assms(1) by (simp_all add: unat_sub less_imp_le word_less_nat_alt)
  show e: "unat (tot + m) = unat tot + unat m" using le nt unat_u32 [of n] by (simp add: unat_word_ariths)
  show "unat (n - (tot + m)) = unat (n - tot) - unat m" using e le nt unat_sub_u32 [of "tot + m" n] by simp
  show "tot + m \<le> n" using e le nt by (simp add: word_le_nat_alt)
  show "unat (off div of_nat BSIZE) = unat off div 512" "unat (off mod of_nat BSIZE) = unat off mod 512"
    by (simp_all add: BSIZE_def unat_div unat_mod)
  show "unat off mod 512 + unat m \<le> 512" using mm lt by linarith
qed

lemma same_block: "p mod 512 + j < 512 \<Longrightarrow> (p + j) div 512 = p div 512 \<and> (p + j) mod 512 = p mod 512 + j" for p j :: nat
proof -
  assume a: "p mod 512 + j < 512"
  have "p + j = p div 512 * 512 + (p mod 512 + j)" using div_mult_mod_eq [of p 512] by linarith
  then show ?thesis using a by (metis add.commute div_mult_self3 div_less add_0_right mod_mult_self3 mod_less zero_neq_numeral)
qed

lemma block_bytes:
  assumes "p mod 512 + m \<le> 512" "length (blk s (faddr s i (p div 512))) = 512"
  shows "take m (drop (p mod 512) (blk s (faddr s i (p div 512)))) = map (fbyte s i) [p..<p + m]"
proof (rule nth_equalityI)
  show "length (take m (drop (p mod 512) (blk s (faddr s i (p div 512))))) = length (map (fbyte s i) [p..<p + m])" using assms by simp
  fix j assume "j < length (take m (drop (p mod 512) (blk s (faddr s i (p div 512)))))"
  then have j: "j < m" by simp
  have "(p + j) div 512 = p div 512" "(p + j) mod 512 = p mod 512 + j"
    using same_block [of p j] j assms(1) by simp_all
  then show "take m (drop (p mod 512) (blk s (faddr s i (p div 512)))) ! j = map (fbyte s i) [p..<p + m] ! j"
    using j assms by (simp add: fbyte_def BSIZE_def)
qed

lemma fblocksD:
  assumes "fblocks s i N"
  shows "i_dev (inodes s ! i) = 1" "512 * N < 2 ^ 31" "n < N \<Longrightarrow> faddr s i n < disksize s"
    "n < N \<Longrightarrow> \<not> in_log (log_start (log_st s)) (faddr s i n)" "n < N \<Longrightarrow> length (blk s (faddr s i n)) = 512"
    "n < N \<Longrightarrow> m < N \<Longrightarrow> faddr s i n = faddr s i m \<Longrightarrow> n = m"
  using assms by (auto simp: fblocks_def BSIZE_def MAXFILE_def NDIRECT_def NINDIRECT_def dest: inj_onD)

lemma offset_block:
  fixes off :: u32
  shows "off div of_nat BSIZE = of_nat (unat off div 512)"
proof -
  have "unat (off div of_nat BSIZE) = unat (of_nat (unat off div 512) :: u32)"
    using unat_u32 [of off] by (simp add: BSIZE_def unat_div div_le_dividend le_less_trans)
  then show ?thesis by (simp only: word_unat_eq_iff)
qed

lemma read_loop_spec:
  assumes "txn k s" "fblocks s i N" "tot \<le> n" "unat off + unat (n - tot) \<le> 512 * N"
  shows "\<exists>t. read_loop i n tot off dst s = Ok (dst @ map (fbyte s i) [unat off..<unat off + unat (n - tot)], t) \<and>
    txn k t \<and> fs_frame s t \<and> blk t = blk s \<and> log_st t = log_st s"
  using assms
proof (induction "unat (n - tot)" arbitrary: tot off dst s rule: less_induct)
  case less
  show ?case
  proof (cases "tot < n")
    case False
    then have "tot = n" using less.prems(3) by simp
    then show ?thesis using less.prems(1) by (subst read_loop.simps) simp
  next
    case True
    define m where "m = chunk n tot off"
    have small: "unat off + unat (n - tot) < 2 ^ 31" using less.prems(4) fblocksD(2) [OF less.prems(2)] by linarith
    note c = chunk_facts [OF True small, folded m_def]
    have pos: "0 < unat (n - tot)" using c(1,2) by simp
    then have "unat off < 512 * N" using less.prems(4) by linarith
    then have nb: "unat off div 512 < N" by (simp add: div_less_iff_less_mult mult.commute)
    note F = fblocksD [OF less.prems(2)]
    obtain s1 where b: "bmap i (off div of_nat BSIZE) s = Ok (faddr s i (unat off div 512), s1)" "txn k s1" "fs_frame s s1"
      "blk s1 = blk s" "log_st s1 = log_st s"
      using bmap_hit [OF less.prems(1,2) nb] unfolding offset_block by blast
    note d1 = fs_frameD [OF b(3)]
    have lt: "faddr s i (unat off div 512) < disksize s1" using F(3) [OF nb] d1(4) by simp
    obtain j s2 s3 where r: "bread 1 (faddr s i (unat off div 512)) s1 = Ok (j, s2)" "bdata j s2 = blk s1 (faddr s i (unat off div 512))"
      "brelse j s2 = Ok s3" "txn k s3" "fs_frame s1 s3" "blk s3 = blk s1" "log_st s3 = log_st s1"
      using txn_read [OF b(2) lt] by blast
    have f3: "fs_frame s s3" "blk s3 = blk s" "log_st s3 = log_st s" using fs_frame_trans [OF b(3) r(5)] r(6,7) b(4,5) by simp_all
    have xs: "take (unat m) (drop (unat (off mod of_nat BSIZE)) (bdata j s2)) = map (fbyte s i) [unat off..<unat off + unat m]"
      using block_bytes [OF c(8) F(5) [OF nb]] r(2) b(4) c(7) by simp
    have dev: "i_dev (inodes s1 ! i) = 1" using F(1) d1(1) by simp
    have step: "read_loop i n tot off dst s =
      read_loop i n (tot + m) (off + m) (dst @ map (fbyte s i) [unat off..<unat off + unat m]) s3"
      using True b(1) r(1,3) dev xs by (subst read_loop.simps) (simp add: m_def [symmetric] Let_def)
    have rest: "unat off + unat m + (unat (n - tot) - unat m) = unat off + unat (n - tot)" using c(1) by simp
    obtain t where t: "read_loop i n (tot + m) (off + m) (dst @ map (fbyte s i) [unat off..<unat off + unat m]) s3 =
        Ok ((dst @ map (fbyte s i) [unat off..<unat off + unat m]) @
          map (fbyte s3 i) [unat (off + m)..<unat (off + m) + unat (n - (tot + m))], t)"
      "txn k t" "fs_frame s3 t" "blk t = blk s3" "log_st t = log_st s3"
      using less.hyps [OF _ r(4) _ c(5), of "off + m" "dst @ map (fbyte s i) [unat off..<unat off + unat m]"]
        file_frame(3) [OF f3(2,1,3)] less.prems(2,4) c(2-4) pos rest by fastforce
    have cat: "[unat off..<unat off + unat m] @ [unat off + unat m..<unat off + unat (n - tot)] = [unat off..<unat off + unat (n - tot)]"
      using upt_add_eq_append [of "unat off" "unat off + unat m" "unat (n - tot) - unat m"] c(1) by simp
    have "fbyte s3 i = fbyte s i" using file_frame(2) [OF f3(2,1,3)] by (simp add: fun_eq_iff)
    then have "read_loop i n tot off dst s = Ok (dst @ map (fbyte s i) [unat off..<unat off + unat (n - tot)], t)"
      unfolding step t(1) c(3,4) rest cat [symmetric] by simp
    then show ?thesis using t(2-5) f3 fs_frame_trans [OF f3(1)] by auto
  qed
qed

lemma fblock_write:
  assumes f: "fblocks s i N" and n: "n < N" and t: "fs_frame s t" "blk t = (blk s)(faddr s i n := d)"
    "log_start (log_st t) = log_start (log_st s)" "length d = 512"
  shows "x < N \<Longrightarrow> faddr t i x = faddr s i x" "fblocks t i N"
    "p div 512 < N \<Longrightarrow> fbyte t i p = (if p div 512 = n then d ! (p mod 512) else fbyte s i p)"
proof -
  note D = fs_frameD [OF t(1)]
  have ind: "faddr s i n \<noteq> indirect s i" if "12 < N" using f n that by (auto simp: fblocks_def NDIRECT_def)
  show a: "faddr t i x = faddr s i x" if "x < N" for x
    using that ind by (auto simp: faddr_def D(1) t(2) NDIRECT_def)
  have inj: "inj_on (faddr t i) {..<N} = inj_on (faddr s i) {..<N}" by (rule inj_on_cong) (simp add: a)
  show "fblocks t i N"
    using f unfolding fblocks_def inj D t(3) using a t(2,4) by (auto simp: BSIZE_def)
  show "fbyte t i p = (if p div 512 = n then d ! (p mod 512) else fbyte s i p)" if "p div 512 < N"
    using fblocksD(6) [OF f that n] by (auto simp: fbyte_def BSIZE_def a [OF that] t(2))
qed

text \<open>The number of blocks that \<open>n\<close> bytes from offset \<open>p\<close> on touch.\<close>

definition nblks :: "nat \<Rightarrow> nat \<Rightarrow> nat" where
  "nblks p n = (if n = 0 then 0 else (p mod 512 + n + 511) div 512)"

lemma nblks_step:
  assumes "0 < n" "m = min n (512 - p mod 512)"
  shows "nblks p n = Suc (nblks (p + m) (n - m))"
proof (cases "n \<le> 512 - p mod 512")
  case True
  have "p mod 512 < 512" by simp
  then have "512 * 1 \<le> p mod 512 + n + 511" "p mod 512 + n + 511 < 512 * Suc 1" using True assms(1) by simp_all
  then have "(p mod 512 + n + 511) div 512 = 1" by (rule div_nat_eqI)
  then show ?thesis using True assms by (simp add: nblks_def)
next
  case False
  have l: "p mod 512 < 512" by simp
  then have m: "m = 512 - p mod 512" using False assms(2) by simp
  have "(p + m) mod 512 = (p mod 512 + m) mod 512" by (simp add: mod_simps)
  also have "\<dots> = 0" using m l by simp
  finally have z: "(p + m) mod 512 = 0" .
  have "p mod 512 + n + 511 = 512 + ((n - m) + 511)" using m l False by linarith
  then have "(p mod 512 + n + 511) div 512 = Suc (((n - m) + 511) div 512)" by simp
  moreover have "n - m \<noteq> 0" using m False by simp
  ultimately show ?thesis using assms(1) by (simp add: nblks_def z)
qed

lemma splice_block:
  assumes "length d = 512" "q + length xs \<le> 512" "j < 512"
  shows "splice d q xs ! j = (if q \<le> j \<and> j < q + length xs then xs ! (j - q) else d ! j)"
  using nth_splice [of q xs d j] assms by simp

lemma write_loop_spec:
  assumes "txn (k + nblks (unat off) (unat (n - tot))) s" "fblocks s i N" "tot \<le> n" "unat off + unat (n - tot) \<le> 512 * N"
    "unat n \<le> length src"
  shows "\<exists>t. write_loop i src n tot off s = Ok (off + (n - tot), t) \<and> txn k t \<and> fs_frame s t \<and>
    log_start (log_st t) = log_start (log_st s) \<and> fblocks t i N \<and> (\<forall>x<N. faddr t i x = faddr s i x) \<and>
    (\<forall>p<512 * N. fbyte t i p = (if unat off \<le> p \<and> p < unat off + unat (n - tot) then src ! (unat tot + (p - unat off)) else fbyte s i p)) \<and>
    (\<forall>b. b \<notin> faddr s i ` {..<N} \<longrightarrow> blk t b = blk s b)"
  using assms
proof (induction "unat (n - tot)" arbitrary: tot off s rule: less_induct)
  case less
  show ?case
  proof (cases "tot < n")
    case False
    then have "tot = n" using less.prems(3) by simp
    then show ?thesis using less.prems(1,2) by (subst write_loop.simps) (auto simp: nblks_def)
  next
    case True
    define m where "m = chunk n tot off"
    have small: "unat off + unat (n - tot) < 2 ^ 31" using less.prems(4) fblocksD(2) [OF less.prems(2)] by linarith
    note c = chunk_facts [OF True small, folded m_def]
    have pos: "0 < unat (n - tot)" using c(1,2) by simp
    then have "unat off < 512 * N" using less.prems(4) by linarith
    then have nb: "unat off div 512 < N" by (simp add: div_less_iff_less_mult mult.commute)
    define A where "A = faddr s i (unat off div 512)"
    define k' where "k' = k + nblks (unat (off + m)) (unat (n - (tot + m)))"
    have "nblks (unat off) (unat (n - tot)) = Suc (nblks (unat (off + m)) (unat (n - (tot + m))))"
      using nblks_step [OF pos c(1)] c(3,4) by simp
    then have tx: "txn (Suc k') s" using less.prems(1) by (simp add: k'_def)
    note F = fblocksD [OF less.prems(2)]
    obtain s1 where b: "bmap i (off div of_nat BSIZE) s = Ok (A, s1)" "txn (Suc k') s1" "fs_frame s s1" "blk s1 = blk s" "log_st s1 = log_st s"
      using bmap_hit [OF tx less.prems(2) nb] unfolding offset_block A_def by blast
    note d1 = fs_frameD [OF b(3)]
    have lt: "A < disksize s1" "\<not> in_log (log_start (log_st s1)) A" using F(3,4) [OF nb] d1(4) b(5) by (simp_all add: A_def)
    obtain j s2 where r: "bread 1 A s1 = Ok (j, s2)" "bdata j s2 = blk s1 A" and
      w: "\<forall>d. \<exists>s3 t. log_write j (set_bdata j d s2) = Ok s3 \<and> brelse j s3 = Ok t \<and> txn k' t \<and> fs_frame s1 t \<and>
        blk t = (blk s1)(A := d) \<and> log_start (log_st t) = log_start (log_st s1)"
      using txn_write [OF b(2) lt] by blast
    define xs where "xs = take (unat m) (drop (unat tot) src)"
    define d where "d = splice (blk s A) (unat off mod 512) xs"
    have lb: "length (blk s A) = 512" using F(5) [OF nb] by (simp add: A_def)
    have tl: "unat tot \<le> length src" using less.prems(3,5) by (simp add: word_le_nat_alt)
    have lx: "length xs = unat m" using less.prems(5) c(5,9) by (simp add: xs_def word_le_nat_alt)
    have ld: "length d = 512" using lb c(8) lx by (simp add: d_def)
    obtain s3 u where u: "log_write j (set_bdata j d s2) = Ok s3" "brelse j s3 = Ok u" "txn k' u" "fs_frame s1 u"
      "blk u = (blk s)(A := d)" "log_start (log_st u) = log_start (log_st s)"
      using w [rule_format, of d] b(4,5) by auto
    have fu: "fs_frame s u" using b(3) u(4) by (rule fs_frame_trans)
    note W = fblock_write [OF less.prems(2) nb fu u(5) [unfolded A_def] u(6) ld]
    have dev: "i_dev (inodes s1 ! i) = 1" using F(1) d1(1) by simp
    have step: "write_loop i src n tot off s = write_loop i src n (tot + m) (off + m) u"
      using True b(1,4) r u(1,2) dev c(7) by (subst write_loop.simps) (simp add: m_def [symmetric] Let_def d_def xs_def)
    have rest: "unat m \<le> unat (n - tot)" using c(1) by simp
    have ih: "\<exists>t. write_loop i src n (tot + m) (off + m) u = Ok (off + m + (n - (tot + m)), t) \<and> txn k t \<and> fs_frame u t \<and>
      log_start (log_st t) = log_start (log_st u) \<and> fblocks t i N \<and> (\<forall>x<N. faddr t i x = faddr u i x) \<and>
      (\<forall>p<512 * N. fbyte t i p = (if unat (off + m) \<le> p \<and> p < unat (off + m) + unat (n - (tot + m))
         then src ! (unat (tot + m) + (p - unat (off + m))) else fbyte u i p)) \<and>
      (\<forall>b. b \<notin> faddr u i ` {..<N} \<longrightarrow> blk t b = blk u b)"
    proof (rule less.hyps [OF _ _ W(2) c(5) _ less.prems(5)])
      show "unat (n - (tot + m)) < unat (n - tot)" using c(2,4) pos by simp
      show "txn (k + nblks (unat (off + m)) (unat (n - (tot + m)))) u" using u(3) by (simp add: k'_def)
      show "unat (off + m) + unat (n - (tot + m)) \<le> 512 * N" using c(3,4) rest less.prems(4) by simp
    qed
    then obtain t where t: "write_loop i src n (tot + m) (off + m) u = Ok (off + m + (n - (tot + m)), t)" "txn k t" "fs_frame u t"
      "log_start (log_st t) = log_start (log_st u)" "fblocks t i N" "\<forall>x<N. faddr t i x = faddr u i x"
      "\<forall>p<512 * N. fbyte t i p = (if unat (off + m) \<le> p \<and> p < unat (off + m) + unat (n - (tot + m))
         then src ! (unat (tot + m) + (p - unat (off + m))) else fbyte u i p)"
      "\<forall>b. b \<notin> faddr u i ` {..<N} \<longrightarrow> blk t b = blk u b" by blast
    have img: "faddr u i ` {..<N} = faddr s i ` {..<N}" by (rule image_cong) (simp_all add: W(1))
    have bytes: "fbyte t i p = (if unat off \<le> p \<and> p < unat off + unat (n - tot) then src ! (unat tot + (p - unat off)) else fbyte s i p)"
      if p: "p < 512 * N" for p
    proof -
      have pn: "p div 512 < N" using p by (simp add: div_less_iff_less_mult mult.commute)
      have e: "unat (off + m) = unat off + unat m" "unat off + unat m + unat (n - (tot + m)) = unat off + unat (n - tot)"
        "unat (tot + m) = unat tot + unat m" using c(3,4,9) rest by simp_all
      show ?thesis
      proof (cases "unat off + unat m \<le> p \<and> p < unat off + unat (n - tot)")
        case True
        then have "unat tot + unat m + (p - (unat off + unat m)) = unat tot + (p - unat off)" by simp
        then show ?thesis using t(7) p True unfolding e by simp
      next
        case out: False
        have tu: "fbyte t i p = fbyte u i p" using t(7) p out unfolding e by auto
        show ?thesis
        proof (cases "p div 512 = unat off div 512")
          case True
          have q: "unat off \<le> p \<longleftrightarrow> unat off mod 512 \<le> p mod 512" "p - unat off = p mod 512 - unat off mod 512"
            "p < unat off + unat m \<longleftrightarrow> p mod 512 < unat off mod 512 + unat m"
            using div_mult_mod_eq [of p 512] div_mult_mod_eq [of "unat off" 512] unfolding True by linarith+
          have "fbyte u i p = d ! (p mod 512)" using W(3) [OF pn] True by simp
          also have "\<dots> = (if unat off \<le> p \<and> p < unat off + unat m then xs ! (p - unat off) else blk s A ! (p mod 512))"
            using splice_block [OF lb, of "unat off mod 512" xs "p mod 512"] c(8) lx unfolding d_def q by simp
          also have "blk s A ! (p mod 512) = fbyte s i p" using True by (simp add: fbyte_def A_def BSIZE_def)
          finally show ?thesis using tu out rest tl unfolding xs_def by auto
        next
          case False
          have "\<not> (unat off \<le> p \<and> p < unat off + unat m)"
          proof
            assume a: "unat off \<le> p \<and> p < unat off + unat m"
            then have "unat off mod 512 + (p - unat off) < 512" using c(8) by linarith
            from same_block [OF this] a False show False by simp
          qed
          then show ?thesis using tu W(3) [OF pn] False out by auto
        qed
      qed
    qed
    have off: "off + m + (n - (tot + m)) = off + (n - tot)" by simp
    have others: "blk t b = blk s b" if "b \<notin> faddr s i ` {..<N}" for b
    proof -
      have "b \<noteq> A" using that nb by (auto simp: A_def)
      then show ?thesis using t(8) img that u(5) by simp
    qed
    show ?thesis unfolding step using t(1,2,5) t(4) u(6) t(6) W(1) fs_frame_trans [OF fu t(3)] bytes others unfolding off by auto
  qed
qed

lemma upd_inode_frame [simp]:
  "blk (upd_inode i f s) = blk s" "log_st (upd_inode i f s) = log_st s" "sb (upd_inode i f s) = sb s"
  "disksize (upd_inode i f s) = disksize s" "inodes (upd_inode i f s) = upd_ix i f (inodes s)"
  by (simp_all add: upd_inode_def blk_def fun_eq_iff split: option.split)

lemma txn_upd_inode [simp]: "txn k (upd_inode i f s) = txn k s"
  unfolding txn_def txn_state_def upd_inode_def
  by (auto simp: quiet_def bio_inv_def buf_ok_def bheld_def cached_def bpinned_def log_ok_def logged_def)

lemma iupdate_spec:
  assumes s: "txn (Suc k) s" and dev: "i_dev (inodes s ! i) = 1"
    and b: "IBLOCK (i_inum (inodes s ! i)) (sb s) < disksize s"
      "\<not> in_log (log_start (log_st s)) (IBLOCK (i_inum (inodes s ! i)) (sb s))"
  defines "b \<equiv> IBLOCK (i_inum (inodes s ! i)) (sb s)"
  shows "\<exists>t. iupdate i s = Ok t \<and> txn k t \<and> fs_frame s t \<and> log_start (log_st t) = log_start (log_st s) \<and>
    blk t = (blk s)(b := put_dinode (inodes s ! i) (dinode_off (i_inum (inodes s ! i))) (blk s b))"
proof -
  from txn_write [OF s b] obtain j s1 where r: "bread 1 b s = Ok (j, s1)" "bdata j s1 = blk s b" and
    w: "\<forall>d. \<exists>s2 t. log_write j (set_bdata j d s1) = Ok s2 \<and> brelse j s2 = Ok t \<and> txn k t \<and> fs_frame s t \<and>
      blk t = (blk s)(b := d) \<and> log_start (log_st t) = log_start (log_st s)" unfolding b_def by blast
  from w [rule_format, of "put_dinode (inodes s ! i) (dinode_off (i_inum (inodes s ! i))) (blk s b)"] show ?thesis
    using r dev by (auto simp: iupdate_def b_def [symmetric])
qed

lemma writei_spec:
  fixes off n :: u32
  assumes s: "txn (Suc k + nblks (unat off) (unat n)) s" and f: "fblocks s i N"
    and i: "i < length (inodes s)" "i_type (inodes s ! i) \<noteq> T_DEV" "off \<le> i_size (inodes s ! i)"
    and n: "unat off + unat n \<le> 512 * N" "unat n \<le> length src"
    and b: "b = IBLOCK (i_inum (inodes s ! i)) (sb s)" "b < disksize s" "\<not> in_log (log_start (log_st s)) b"
      "b \<notin> faddr s i ` {..<N}" "NDIRECT < N \<Longrightarrow> b \<noteq> indirect s i"
  shows "\<exists>t. writei dsw i src off n s = Ok (n, t) \<and> txn k t \<and> fblocks t i N \<and>
    inodes t = upd_ix i (\<lambda>ip. ip\<lparr>i_size := max (i_size ip) (off + n)\<rparr>) (inodes s) \<and>
    (\<forall>p<512 * N. fbyte t i p = (if unat off \<le> p \<and> p < unat off + unat n then src ! (p - unat off) else fbyte s i p)) \<and>
    (\<forall>c. c \<noteq> b \<and> c \<notin> faddr s i ` {..<N} \<longrightarrow> blk t c = blk s c)"
proof -
  have N: "512 * N \<le> 71680" using f by (simp add: fblocks_def MAXFILE_def NDIRECT_def NINDIRECT_def BSIZE_def)
  have un: "unat (off + n) = unat off + unat n" using n(1) N by (simp add: unat_word_ariths)
  have ov: "\<not> off + n < off" "\<not> of_nat (MAXFILE * BSIZE) < off + n"
    using un n(1) N by (simp_all add: word_less_nat_alt MAXFILE_def NDIRECT_def NINDIRECT_def BSIZE_def)
  have l0: "(0 :: u32) \<le> n" "unat off + unat (n - 0) \<le> 512 * N" using n(1) by simp_all
  have s0: "txn (Suc k + nblks (unat off) (unat (n - 0))) s" using s by simp
  obtain u where u: "write_loop i src n 0 off s = Ok (off + n, u)" "txn (Suc k) u" "fs_frame s u"
    "log_start (log_st u) = log_start (log_st s)" "fblocks u i N" "\<forall>x<N. faddr u i x = faddr s i x"
    "\<forall>p<512 * N. fbyte u i p = (if unat off \<le> p \<and> p < unat off + unat n then src ! (p - unat off) else fbyte s i p)"
    "\<forall>b. b \<notin> faddr s i ` {..<N} \<longrightarrow> blk u b = blk s b"
    using write_loop_spec [OF s0 f l0 n(2)] by auto
  note U = fs_frameD [OF u(3)]
  have w: "writei dsw i src off n s = (if 0 < n \<and> i_size (inodes s ! i) < off + n
      then rbind (iupdate i (upd_inode i (\<lambda>ip. ip\<lparr>i_size := off + n\<rparr>) u)) (\<lambda>s. Ok (n, s)) else Ok (n, u))"
    using i(2) leD [OF i(3)] ov u(1) U(1) by (simp add: writei_def Let_def)
  show ?thesis
  proof (cases "0 < n \<and> i_size (inodes s ! i) < off + n")
    case False
    have "off + n \<le> i_size (inodes s ! i)"
    proof (cases "n = 0")
      case True
      then show ?thesis using i(3) by simp
    next
      case nz: False
      then have "0 < n" by (simp add: word_neq_0_conv)
      then show ?thesis using False by (simp add: not_less)
    qed
    then have "max (i_size (inodes s ! i)) (off + n) = i_size (inodes s ! i)" by (rule max_absorb1)
    then have "upd_ix i (\<lambda>ip. ip\<lparr>i_size := max (i_size ip) (off + n)\<rparr>) (inodes s) = inodes s" by (simp add: upd_ix_def)
    then show ?thesis using w False u(2,5,7,8) txn_mono [OF u(2), of k] U(1) by auto
  next
    case True
    let ?v = "upd_inode i (\<lambda>ip. ip\<lparr>i_size := off + n\<rparr>) u"
    have vi: "inodes ?v ! i = (inodes s ! i)\<lparr>i_size := off + n\<rparr>" using i(1) U(1) by (simp add: upd_ix_def)
    have vb: "IBLOCK (i_inum (inodes ?v ! i)) (sb ?v) = b" using vi b(1) U(2) by simp
    have tv: "txn (Suc k) ?v" using u(2) by simp
    have dv: "i_dev (inodes ?v ! i) = 1" using vi fblocksD(1) [OF f] by simp
    obtain t where t: "iupdate i ?v = Ok t" "txn k t" "fs_frame ?v t" "log_start (log_st t) = log_start (log_st s)"
      "blk t = (blk u)(b := put_dinode (inodes ?v ! i) (dinode_off (i_inum (inodes ?v ! i))) (blk u b))"
      using iupdate_spec [OF tv dv, unfolded vb] b(2,3) U(4) u(4) by auto
    note T = fs_frameD [OF t(3)]
    have ti: "inodes t ! i = (inodes s ! i)\<lparr>i_size := off + n\<rparr>" using vi T(1) by simp
    have bu: "b \<notin> faddr u i ` {..<N}" using b(4) u(6) by auto
    have a: "faddr t i x = faddr u i x" if "x < N" for x
      using that b(5) U(1) ti t(5) by (auto simp: faddr_def NDIRECT_def)
    have bl: "blk t (faddr u i x) = blk u (faddr u i x)" if "x < N" for x using bu that t(5) by auto
    have inj: "inj_on (faddr t i) {..<N} = inj_on (faddr u i) {..<N}" by (rule inj_on_cong) (simp add: a)
    have fb: "fblocks t i N"
      using u(5) unfolding fblocks_def inj using a bl ti U(1) T(4) t(4) u(4) by auto
    have byt: "fbyte t i p = fbyte u i p" if "p < 512 * N" for p
    proof -
      have "p div 512 < N" using that by (simp add: div_less_iff_less_mult mult.commute)
      then show ?thesis using a bl by (simp add: fbyte_def BSIZE_def)
    qed
    have mx: "max (i_size (inodes s ! i)) (off + n) = off + n" using True less_imp_le by (intro max_absorb2) blast
    have ino: "inodes t = upd_ix i (\<lambda>ip. ip\<lparr>i_size := max (i_size ip) (off + n)\<rparr>) (inodes s)"
      using T(1) U(1) mx by (simp add: upd_ix_def)
    have "writei dsw i src off n s = Ok (n, t)" using w True t(1) by simp
    then show ?thesis using t(2,5) fb ino byt u(7,8) by auto
  qed
qed

lemma readi_spec:
  fixes off n :: u32
  assumes s: "txn k s" "fblocks s i N" and i: "i_type (inodes s ! i) \<noteq> T_DEV" "unat off + unat n \<le> unat (i_size (inodes s ! i))"
    and n: "unat off + unat n \<le> 512 * N"
  shows "\<exists>t. readi dsw i off n s = Ok (n, map (fbyte s i) [unat off..<unat off + unat n], t) \<and>
    txn k t \<and> fs_frame s t \<and> blk t = blk s \<and> log_st t = log_st s"
proof -
  have N: "512 * N \<le> 71680" using s(2) by (simp add: fblocks_def MAXFILE_def NDIRECT_def NINDIRECT_def BSIZE_def)
  have un: "unat (off + n) = unat off + unat n" using n N by (simp add: unat_word_ariths)
  have g: "\<not> i_size (inodes s ! i) < off" "\<not> off + n < off" "\<not> i_size (inodes s ! i) < off + n"
    using i(2) un by (simp_all add: word_less_nat_alt)
  have l0: "(0 :: u32) \<le> n" "unat off + unat (n - 0) \<le> 512 * N" using n by simp_all
  from read_loop_spec [OF s l0, of "[]"] show ?thesis using i(1) g by (auto simp: readi_def Let_def)
qed

text \<open>A regular file or directory whose first \<open>N\<close> blocks are allocated, with its inode block outside
  them and outside the log.\<close>

definition file_ok :: "'a kfs_scheme \<Rightarrow> nat \<Rightarrow> nat \<Rightarrow> bool" where
  "file_ok s i N \<longleftrightarrow> fblocks s i N \<and> i < length (inodes s) \<and> i_type (inodes s ! i) \<noteq> T_DEV \<and>
     (let b = IBLOCK (i_inum (inodes s ! i)) (sb s)
      in b < disksize s \<and> \<not> in_log (log_start (log_st s)) b \<and> b \<notin> faddr s i ` {..<N} \<and> (NDIRECT < N \<longrightarrow> b \<noteq> indirect s i))"

text \<open>C6. Writing \<open>n\<close> bytes at an offset within the file, where the blocks are allocated, writes exactly
  these bytes: a read of the same range returns them, every other byte of the file is as before, the size
  grows to the end of the range if that is beyond it, and no block changes but the data blocks and the
  inode block of the file. The log gets at most one block per data block touched, and the inode block.\<close>

theorem writei_readi_roundtrip:
  fixes off n :: u32
  assumes "txn (Suc k + nblks (unat off) (unat n)) s" "file_ok s i N" "off \<le> i_size (inodes s ! i)"
    "unat off + unat n \<le> 512 * N" "length src = unat n"
  shows "\<exists>t u. writei dsw i src off n s = Ok (n, t) \<and> readi dsw i off n t = Ok (n, src, u) \<and> txn k t \<and>
    i_size (inodes t ! i) = max (i_size (inodes s ! i)) (off + n) \<and>
    (\<forall>p<512 * N. \<not> (unat off \<le> p \<and> p < unat off + unat n) \<longrightarrow> fbyte t i p = fbyte s i p) \<and>
    (\<forall>c. c \<noteq> IBLOCK (i_inum (inodes s ! i)) (sb s) \<and> c \<notin> faddr s i ` {..<N} \<longrightarrow> blk t c = blk s c)"
proof -
  let ?b = "IBLOCK (i_inum (inodes s ! i)) (sb s)"
  have f: "fblocks s i N" "i < length (inodes s)" "i_type (inodes s ! i) \<noteq> T_DEV" "?b < disksize s"
    "\<not> in_log (log_start (log_st s)) ?b" "?b \<notin> faddr s i ` {..<N}" "NDIRECT < N \<Longrightarrow> ?b \<noteq> indirect s i"
    using assms(2) by (simp_all add: file_ok_def Let_def)
  have len: "unat n \<le> length src" using assms(5) by simp
  obtain t where t: "writei dsw i src off n s = Ok (n, t)" "txn k t" "fblocks t i N"
    "inodes t = upd_ix i (\<lambda>ip. ip\<lparr>i_size := max (i_size ip) (off + n)\<rparr>) (inodes s)"
    "\<forall>p<512 * N. fbyte t i p = (if unat off \<le> p \<and> p < unat off + unat n then src ! (p - unat off) else fbyte s i p)"
    "\<forall>c. c \<noteq> ?b \<and> c \<notin> faddr s i ` {..<N} \<longrightarrow> blk t c = blk s c"
    using writei_spec [OF assms(1) f(1-3) assms(3,4) len refl f(4-7)] by blast
  have ti: "inodes t ! i = (inodes s ! i)\<lparr>i_size := max (i_size (inodes s ! i)) (off + n)\<rparr>" using t(4) f(2) by (simp add: upd_ix_def)
  have "512 * N < 2 ^ 31" by (rule fblocksD(2) [OF f(1)])
  then have "unat (off + n) = unat off + unat n" using assms(4) by (simp add: unat_word_ariths)
  then have sz: "unat off + unat n \<le> unat (i_size (inodes t ! i))"
    using ti max.cobounded2 [of "off + n" "i_size (inodes s ! i)"] by (simp add: word_le_nat_alt)
  have ty: "i_type (inodes t ! i) \<noteq> T_DEV" using ti f(3) by simp
  obtain u where u: "readi dsw i off n t = Ok (n, map (fbyte t i) [unat off..<unat off + unat n], u)"
    using readi_spec [OF t(2,3) ty sz assms(4)] by blast
  have "map (fbyte t i) [unat off..<unat off + unat n] = src"
    using t(5) assms(4,5) by (intro nth_equalityI) auto
  then show ?thesis using t u ti by auto
qed

definition kfs1 :: kfs where
  "kfs1 = upd_inode 0 (\<lambda>ip. ip\<lparr>i_dev := 1, i_inum := 1, i_ref := 1, i_flags := I_VALID, i_type := T_FILE, i_nlink := 1,
     i_size := 600, i_addrs := [70, 71] @ replicate 11 0\<rparr>) kfs0"

lemma kfs1_ok: "txn 5 kfs1" "file_ok kfs1 0 2" "i_size (inodes kfs1 ! 0) = 600"
proof -
  show "txn 5 kfs1" using kfs0_txn(1) by (simp add: kfs1_def)
  have i: "inodes kfs1 ! 0 = (inodes kfs0 ! 0)\<lparr>i_dev := 1, i_inum := 1, i_ref := 1, i_flags := I_VALID, i_type := T_FILE,
     i_nlink := 1, i_size := 600, i_addrs := [70, 71] @ replicate 11 0\<rparr>" "length (inodes kfs1) = 50"
    by (simp_all add: kfs1_def kfs0_def klog.defs kfs.defs upd_ix_def NINODE_def)
  then show "i_size (inodes kfs1 ! 0) = 600" by simp
  have a: "faddr kfs1 0 0 = 70" "faddr kfs1 0 (Suc 0) = 71" using i by (simp_all add: faddr_def NDIRECT_def)
  have two: "{..<2 :: nat} = {0, Suc 0}" by auto
  have s: "disksize kfs1 = 1000" "log_start (log_st kfs1) = 2" "blk kfs1 = memdisk kfs0" "sb kfs1 = sb kfs0"
    by (simp_all add: kfs1_def kfs0_txn(2) klog0_ok(6))
  have "fblocks kfs1 0 2"
    unfolding fblocks_def two less_2_cases_iff using i a s
    by (simp add: in_log_def LOGSIZE_def MAXOPBLOCKS_def MAXFILE_def NDIRECT_def NINDIRECT_def BSIZE_def)
  then show "file_ok kfs1 0 2" using i a s
    by (simp add: file_ok_def two Let_def T_FILE_def T_DEV_def IBLOCK_def IPB_def dinode_size_def BSIZE_def NDIRECT_def
      in_log_def LOGSIZE_def MAXOPBLOCKS_def)
qed

theorem writei_readi_roundtrip_witness:
  "file_ok kfs1 0 2 \<and> (\<exists>t u. writei [] 0 (replicate 40 7) 500 40 kfs1 = Ok (40, t) \<and>
     readi [] 0 500 40 t = Ok (40, replicate 40 7, u) \<and> i_size (inodes t ! 0) = 600 \<and> fbyte t 0 499 = fbyte kfs1 0 499)"
proof -
  have t: "txn (Suc 1 + nblks (unat (500 :: u32)) (unat (40 :: u32))) kfs1"
    by (rule txn_mono [OF kfs1_ok(1)]) (simp add: nblks_def)
  have "(500 :: u32) \<le> i_size (inodes kfs1 ! 0)" "unat (500 :: u32) + unat (40 :: u32) \<le> 512 * 2"
    "length (replicate 40 (7 :: u8)) = unat (40 :: u32)" using kfs1_ok(3) by simp_all
  from writei_readi_roundtrip [OF t kfs1_ok(2) this, of "[]"] kfs1_ok(2,3) show ?thesis by (fastforce simp: max_def)
qed

section \<open>Inodes on the disk\<close>

text \<open>The disk inode of number \<open>inum\<close>, in the form of the fields it gives to a cache entry.\<close>

definition disk_inode :: "'a kfs_scheme \<Rightarrow> u32 \<Rightarrow> u16 \<times> u16 \<times> u16 \<times> u16 \<times> u32 \<times> u32 list" where
  "disk_inode s inum = (let d = blk s (IBLOCK inum (sb s)); k = dinode_off inum
     in (get16 d k, get16 d (k + 2), get16 d (k + 4), get16 d (k + 6), get32 d (k + 8), get32s d (k + 12) (NDIRECT + 1)))"

definition inode_fields :: "inode \<Rightarrow> u16 \<times> u16 \<times> u16 \<times> u16 \<times> u32 \<times> u32 list" where
  "inode_fields ip = (i_type ip, i_major ip, i_minor ip, i_nlink ip, i_size ip, i_addrs ip)"

lemma get_dinode_fields: "inode_fields (get_dinode (blk s (IBLOCK inum (sb s))) (dinode_off inum) ip) = disk_inode s inum"
  by (simp add: inode_fields_def get_dinode_def disk_inode_def Let_def)

lemma put_dinode_same:
  assumes "length (i_addrs ip) = 13" "k + 64 \<le> length d"
  shows "get16 (put_dinode ip k d) k = i_type ip" "get16 (put_dinode ip k d) (k + 2) = i_major ip"
    "get16 (put_dinode ip k d) (k + 4) = i_minor ip" "get16 (put_dinode ip k d) (k + 6) = i_nlink ip"
    "get32 (put_dinode ip k d) (k + 8) = i_size ip" "get32s (put_dinode ip k d) (k + 12) (NDIRECT + 1) = i_addrs ip"
proof -
  show "get16 (put_dinode ip k d) k = i_type ip" "get16 (put_dinode ip k d) (k + 2) = i_major ip"
    "get16 (put_dinode ip k d) (k + 4) = i_minor ip" "get16 (put_dinode ip k d) (k + 6) = i_nlink ip"
    "get32 (put_dinode ip k d) (k + 8) = i_size ip"
    using assms by (simp_all add: put_dinode_def Let_def get16_put32s_before get32_put32s_before)
  show "get32s (put_dinode ip k d) (k + 12) (NDIRECT + 1) = i_addrs ip"
    using get32s_put32s [of "k + 12" "i_addrs ip"] assms by (simp add: put_dinode_def Let_def NDIRECT_def)
qed

lemma put_dinode_other:
  assumes "length (i_addrs ip) = 13" "j + 64 \<le> k \<or> k + 64 \<le> j"
  shows "x < 64 \<Longrightarrow> x + 2 \<le> 64 \<Longrightarrow> get16 (put_dinode ip k d) (j + x) = get16 d (j + x)"
    "x + 4 \<le> 64 \<Longrightarrow> get32 (put_dinode ip k d) (j + x) = get32 d (j + x)"
proof -
  show "get16 (put_dinode ip k d) (j + x) = get16 d (j + x)" if "x < 64" "x + 2 \<le> 64"
    using assms(2)
  proof
    assume "j + 64 \<le> k"
    then show ?thesis using that by (simp add: put_dinode_def Let_def get16_put32s_before)
  next
    assume "k + 64 \<le> j"
    then show ?thesis using that assms(1) by (simp add: put_dinode_def Let_def get16_put32s_after)
  qed
  show "get32 (put_dinode ip k d) (j + x) = get32 d (j + x)" if "x + 4 \<le> 64"
    using assms(2)
  proof
    assume "j + 64 \<le> k"
    then show ?thesis using that by (simp add: put_dinode_def Let_def get32_put32s_before)
  next
    assume "k + 64 \<le> j"
    then show ?thesis using that assms(1) by (simp add: put_dinode_def Let_def get32_put32s_after)
  qed
qed

lemma dinode_slots:
  assumes "IBLOCK a sb0 = IBLOCK b sb0" "a \<noteq> b"
  shows "dinode_off a + 64 \<le> dinode_off b \<or> dinode_off b + 64 \<le> dinode_off a"
proof -
  have "a div 8 = b div 8" using assms(1) by (simp add: IBLOCK_def IPB_def dinode_size_def BSIZE_def NDIRECT_def)
  from arg_cong [OF this, of unat] have q: "unat a div 8 = unat b div 8" by (simp add: unat_div)
  have "unat a mod 8 \<noteq> unat b mod 8"
  proof
    assume m: "unat a mod 8 = unat b mod 8"
    have "unat a = unat a div 8 * 8 + unat a mod 8" by (rule div_mult_mod_eq [symmetric])
    also have "\<dots> = unat b" unfolding q m by (rule div_mult_mod_eq)
    finally show False using assms(2) by (simp only: word_unat_eq_iff)
  qed
  then show ?thesis by (simp add: dinode_off_def dinode_size_def NDIRECT_def IPB_def BSIZE_def) linarith
qed

lemma dinode_off_less: "dinode_off a + 64 \<le> 512"
proof -
  have "unat a mod 8 < 8" by simp
  then show ?thesis by (simp add: dinode_off_def dinode_size_def NDIRECT_def IPB_def BSIZE_def del: mod_less_divisor)
qed

text \<open>C19. \<open>iupdate\<close> is the update of one entry of the table of disk inodes: afterwards the disk inode of the
  updated entry, which is what \<open>ilock\<close> loads, has exactly the fields of the cache entry, every other disk
  inode, also in the same block, is as before, and no other block changes.\<close>

theorem iupdate_inode_table:
  assumes "txn (Suc k) s" "i_dev (inodes s ! i) = 1" "length (i_addrs (inodes s ! i)) = NDIRECT + 1"
    "IBLOCK (i_inum (inodes s ! i)) (sb s) < disksize s"
    "\<not> in_log (log_start (log_st s)) (IBLOCK (i_inum (inodes s ! i)) (sb s))"
    "length (blk s (IBLOCK (i_inum (inodes s ! i)) (sb s))) = BSIZE"
  shows "\<exists>t. iupdate i s = Ok t \<and> txn k t \<and> inodes t = inodes s \<and> sb t = sb s \<and>
    disk_inode t = (disk_inode s)(i_inum (inodes s ! i) := inode_fields (inodes s ! i)) \<and>
    (\<forall>b. b \<noteq> IBLOCK (i_inum (inodes s ! i)) (sb s) \<longrightarrow> blk t b = blk s b)"
proof -
  let ?ip = "inodes s ! i" and ?n = "i_inum (inodes s ! i)"
  let ?b = "IBLOCK ?n (sb s)"
  obtain t where t: "iupdate i s = Ok t" "txn k t" "fs_frame s t" "blk t = (blk s)(?b := put_dinode ?ip (dinode_off ?n) (blk s ?b))"
    using iupdate_spec [OF assms(1,2,4,5)] by blast
  note D = fs_frameD [OF t(3)]
  have len: "length (i_addrs ?ip) = 13" "dinode_off ?n + 64 \<le> length (blk s ?b)"
    using assms(3,6) dinode_off_less [of ?n] by (simp_all add: NDIRECT_def BSIZE_def)
  have "disk_inode t m = ((disk_inode s)(?n := inode_fields ?ip)) m" for m
  proof (cases "m = ?n")
    case True
    then show ?thesis using put_dinode_same [OF len] t(4) D(2) by (simp add: disk_inode_def inode_fields_def Let_def)
  next
    case False
    show ?thesis
    proof (cases "IBLOCK m (sb s) = ?b")
      case True
      have o: "dinode_off m + 64 \<le> dinode_off ?n \<or> dinode_off ?n + 64 \<le> dinode_off m"
        using dinode_slots [of ?n "sb s" m] True False by auto
      note P = put_dinode_other [OF len(1) o, where d = "blk s ?b"]
      have "get32s (put_dinode ?ip (dinode_off ?n) (blk s ?b)) (dinode_off m + 12) (NDIRECT + 1) = get32s (blk s ?b) (dinode_off m + 12) (NDIRECT + 1)"
      proof (rule get32s_cong)
        fix x assume "x < NDIRECT + 1"
        then show "get32 (put_dinode ?ip (dinode_off ?n) (blk s ?b)) (dinode_off m + 12 + 4 * x) = get32 (blk s ?b) (dinode_off m + 12 + 4 * x)"
          using P(2) [of "12 + 4 * x"] by (simp add: NDIRECT_def add.assoc)
      qed
      then show ?thesis using P(1) [of 0] P(1) [of 2] P(1) [of 4] P(1) [of 6] P(2) [of 8] True False t(4) D(2)
        by (simp add: disk_inode_def Let_def)
    next
      case ne: False
      then show ?thesis using False t(4) D(2) by (simp add: disk_inode_def Let_def)
    qed
  qed
  then have "disk_inode t = (disk_inode s)(?n := inode_fields ?ip)" by (rule ext)
  then show ?thesis using t D by auto
qed

theorem iupdate_inode_table_witness:
  "\<exists>t. iupdate 0 kfs1 = Ok t \<and> disk_inode t 1 = (T_FILE, 0, 0, 1, 600, [70, 71] @ replicate 11 0) \<and> disk_inode t 2 = disk_inode kfs1 2"
proof -
  have i: "inodes kfs1 ! 0 = (inodes kfs0 ! 0)\<lparr>i_dev := 1, i_inum := 1, i_ref := 1, i_flags := I_VALID, i_type := T_FILE,
     i_nlink := 1, i_size := 600, i_addrs := [70, 71] @ replicate 11 0\<rparr>" "i_major (inodes kfs0 ! 0) = 0" "i_minor (inodes kfs0 ! 0) = 0"
    by (simp_all add: kfs1_def kfs0_def klog.defs kfs.defs upd_ix_def NINODE_def)
  have s: "disksize kfs1 = 1000" "log_start (log_st kfs1) = 2" "blk kfs1 = memdisk kfs0" "sb kfs1 = sb kfs0"
    by (simp_all add: kfs1_def kfs0_txn(2) klog0_ok(6))
  have b: "IBLOCK 1 (sb kfs1) = 40" using s by (simp add: IBLOCK_def IPB_def dinode_size_def BSIZE_def NDIRECT_def)
  have "txn (Suc 4) kfs1" using kfs1_ok(1) by simp
  from iupdate_inode_table [OF this, of 0] i s b show ?thesis
    by (auto simp: inode_fields_def NDIRECT_def in_log_def LOGSIZE_def MAXOPBLOCKS_def BSIZE_def)
qed

section \<open>Path elements\<close>

text \<open>What the loop of \<open>namex\<close> looks up, one name per round; and the same by splitting at the slashes.\<close>

function path_elems :: "u8 list \<Rightarrow> u8 list \<Rightarrow> u8 list list" where
  "path_elems path name =
     (case skipelem path name of None \<Rightarrow> [] | Some (p, n) \<Rightarrow> take DIRSIZ (cstr n) # path_elems p n)"
  by pat_completeness auto
termination
  by (relation "measure (\<lambda>(path, name). length path)") (auto dest: skipelem_shorter)

declare path_elems.simps [simp del]

fun split_slash :: "u8 list \<Rightarrow> u8 list list" where
  "split_slash [] = [[]]"
| "split_slash (c # cs) =
     (if c = 47 then [] # split_slash cs
      else case split_slash cs of [] \<Rightarrow> [[c]] | x # xs \<Rightarrow> (c # x) # xs)"

definition names :: "u8 list \<Rightarrow> u8 list list" where
  "names path = filter (\<lambda>x. x \<noteq> []) (split_slash path)"

lemma names_slash: "names (47 # path) = names path"
  by (simp add: names_def)

lemma names_dropSlash: "names (dropWhile (\<lambda>c. c = 47) path) = names path"
  by (induction path) (simp_all add: names_slash)

lemma split_slash_ne: "split_slash xs \<noteq> []"
  by (induction xs) (auto split: list.split)

lemma split_slash_append:
  "47 \<notin> set el \<Longrightarrow> split_slash (el @ rest) = (el @ hd (split_slash rest)) # tl (split_slash rest)"
proof (induction el)
  case Nil
  then show ?case using split_slash_ne [of rest] by simp
next
  case (Cons c el)
  then show ?case by auto
qed

lemma names_elem:
  assumes "47 \<notin> set el" "el \<noteq> []" "rest = [] \<or> hd rest = 47"
  shows "names (el @ rest) = el # names rest"
proof (cases rest)
  case Nil
  then show ?thesis using split_slash_append [OF assms(1), of "[]"] assms(2) by (simp add: names_def)
next
  case (Cons c r)
  then have "rest = 47 # r" using assms(3) by simp
  then show ?thesis using split_slash_append [OF assms(1), of rest] assms(2) by (simp add: names_def)
qed

lemma cstr_no_nul: "0 \<notin> set xs \<Longrightarrow> cstr xs = xs"
  by (simp add: cstr_def takeWhile_eq_all_conv) metis

text \<open>One step on a path without NUL bytes.\<close>

lemma skipelem_names:
  assumes z: "0 \<notin> set path"
  shows "skipelem path name = None \<Longrightarrow> names path = []"
    "skipelem path name = Some (p, n) \<Longrightarrow> length name = DIRSIZ \<Longrightarrow>
      0 \<notin> set p \<and> length n = DIRSIZ \<and> (\<exists>el. names path = el # names p \<and> take DIRSIZ (cstr n) = take DIRSIZ el)"
proof -
  let ?p = "dropWhile (\<lambda>c. c = 47) path"
  have zp: "0 \<notin> set ?p" using z set_dropWhileD [of 0] by blast
  have "hd0 q = 0 \<longleftrightarrow> q = []" if "0 \<notin> set q" for q using that by (cases q) (auto simp: hd0_def)
  from this [OF zp] have h: "hd0 ?p = 0 \<longleftrightarrow> ?p = []" .
  show "names path = []" if "skipelem path name = None"
  proof -
    have "hd0 ?p = 0" using that by (simp add: skipelem_def Let_def split: if_splits)
    then have e: "?p = []" using h by blast
    have "names path = names ?p" by (rule names_dropSlash [symmetric])
    also have "\<dots> = []" unfolding e by (simp add: names_def)
    finally show ?thesis .
  qed
  assume k: "skipelem path name = Some (p, n)" and ln: "length name = DIRSIZ"
  let ?e = "takeWhile (\<lambda>c. c \<noteq> 47 \<and> c \<noteq> 0) ?p"
  let ?r = "dropWhile (\<lambda>c. c \<noteq> 47 \<and> c \<noteq> 0) ?p"
  have nz: "hd0 ?p \<noteq> 0" and p: "p = dropWhile (\<lambda>c. c = 47) (drop (length ?e) ?p)"
    and n: "n = (if DIRSIZ \<le> length ?e then take DIRSIZ ?e @ drop DIRSIZ name else ?e @ [0] @ drop (length ?e + 1) name)"
    using k by (simp_all add: skipelem_def Let_def split: if_splits)
  have dr: "drop (length ?e) ?p = ?r" by (rule dropWhile_eq_drop [symmetric])
  have pr: "?p = ?e @ ?r" by (rule takeWhile_dropWhile_id [symmetric])
  have "set ?p = set ?e \<union> set ?r" using arg_cong [OF pr, of set] by (simp only: set_append)
  then have zr: "0 \<notin> set ?r" "0 \<notin> set ?e" using zp by blast+
  have e47: "47 \<notin> set ?e" using set_takeWhileD [of 47 "\<lambda>c. c \<noteq> 47 \<and> c \<noteq> 0" ?p] by blast
  obtain c q where cq: "?p = c # q" using nz h by (meson neq_Nil_conv)
  then have "?p \<noteq> []" by (simp only: list.distinct not_False_eq_True)
  from hd_dropWhile [OF this] have "c \<noteq> 47" unfolding cq by simp
  moreover have "c \<noteq> 0" using zp cq by auto
  ultimately have ene: "?e \<noteq> []" unfolding cq by simp
  have rh: "?r = [] \<or> hd ?r = 47"
  proof (cases ?r)
    case (Cons a as)
    then have "?r \<noteq> []" by (simp only: list.distinct not_False_eq_True)
    from hd_dropWhile [OF this] have "\<not> (a \<noteq> 47 \<and> a \<noteq> 0)" unfolding Cons by simp
    moreover have "a \<in> set ?r" unfolding Cons by simp
    ultimately have "a = 47" using zr(1) by blast
    then have "hd ?r = 47" unfolding Cons by (simp only: list.sel)
    then show ?thesis by blast
  qed blast
  have "names path = names ?p" by (rule names_dropSlash [symmetric])
  also have "\<dots> = names (?e @ ?r)" by (rule arg_cong [OF pr])
  also have "\<dots> = ?e # names ?r" by (rule names_elem [OF e47 ene rh])
  also have "names ?r = names p" unfolding p dr by (rule names_dropSlash [symmetric])
  finally have nm: "names path = ?e # names p" .
  have zp': "0 \<notin> set p" unfolding p dr using zr(1) set_dropWhileD [of 0] by blast
  have cn: "take DIRSIZ (cstr n) = take DIRSIZ ?e \<and> length n = DIRSIZ"
  proof (cases "DIRSIZ \<le> length ?e")
    case True
    then have "n = take DIRSIZ ?e" using n ln by simp
    moreover have "0 \<notin> set (take DIRSIZ ?e)" using zr(2) set_take_subset [of DIRSIZ ?e] by blast
    ultimately show ?thesis using True cstr_no_nul by simp
  next
    case False
    then have nn: "n = ?e @ [0] @ drop (length ?e + 1) name" using n by simp
    have "cstr n = ?e" unfolding nn using zr(2) by (simp add: cstr_def takeWhile_tail) metis
    then show ?thesis using nn ln False by simp
  qed
  show "0 \<notin> set p \<and> length n = DIRSIZ \<and> (\<exists>el. names path = el # names p \<and> take DIRSIZ (cstr n) = take DIRSIZ el)"
    using nm zp' cn by blast
qed

text \<open>C20. The names that path lookup searches for are exactly the elements of the path between slashes,
  empty ones left out, each cut to DIRSIZ bytes, in order, whatever the array for the name held before.\<close>

theorem path_elements:
  assumes "0 \<notin> set path" "length name = DIRSIZ"
  shows "path_elems path name = map (take DIRSIZ) (names path)"
  using assms
proof (induction path name rule: path_elems.induct)
  case (1 path name)
  show ?case
  proof (cases "skipelem path name")
    case None
    then show ?thesis using skipelem_names(1) [OF 1(2) None] by (simp add: path_elems.simps [of path name])
  next
    case (Some a)
    then obtain p n where a: "skipelem path name = Some (p, n)" by (cases a) auto
    from skipelem_names(2) [OF 1(2) a 1(3)] obtain el where
      e: "0 \<notin> set p" "length n = DIRSIZ" "names path = el # names p" "take DIRSIZ (cstr n) = take DIRSIZ el" by blast
    have "path_elems p n = map (take DIRSIZ) (names p)" using 1(1) [OF a refl e(1,2)] .
    then show ?thesis using a e(3,4) by (simp add: path_elems.simps [of path name])
  qed
qed

theorem path_elements_witness:
  "path_elems (bytes ''///a//bb'') (replicate DIRSIZ 7) = [bytes ''a'', bytes ''bb'']"
proof -
  have "0 \<notin> set (bytes ''///a//bb'')" by (simp add: bytes_def)
  from path_elements [OF this, of "replicate DIRSIZ 7"] show ?thesis by (simp add: names_def bytes_def DIRSIZ_def)
qed

end
