(* ===== verification/Pipe.thy ===== *)
theory Pipe
  imports Fs
begin

text \<open>
  pipe.c: the bounded byte queue between two file ends. A pipe is known by the address of the
  page it lives in. The process that finds the queue full (or empty) sleeps; the loops take a
  bound on the number of sleeps, as in Sleeplock, and \<open>resume\<close> is what the rest of the machine
  does during one sleep. \<open>pipealloc\<close>, which also allocates the two file structures, is in File.
\<close>

section \<open>Definitions\<close>

definition PIPESIZE :: nat where "PIPESIZE = 512"

record pipe =
  pi_data :: "u8 list"
  pi_nread :: u32
  pi_nwrite :: u32
  pi_readopen :: bool
  pi_writeopen :: bool

record kpipe = kfs +
  pipes :: "u32 \<Rightarrow> pipe"

definition upd_pipe :: "u32 \<Rightarrow> (pipe \<Rightarrow> pipe) \<Rightarrow> 'a kpipe_scheme \<Rightarrow> 'a kpipe_scheme" where
  "upd_pipe p f s = s\<lparr>pipes := (pipes s)(p := f (pipes s p))\<rparr>"

definition pipeclose :: "u32 \<Rightarrow> bool \<Rightarrow> 'a kpipe_scheme \<Rightarrow> 'a kpipe_scheme res" where
  "pipeclose p writable s =
     rbind (kacquire (L_pipe p) s) (\<lambda>s.
     rbind (if writable then wakeup (C_nread p) (upd_pipe p (\<lambda>x. x\<lparr>pi_writeopen := False\<rparr>) s)
            else wakeup (C_nwrite p) (upd_pipe p (\<lambda>x. x\<lparr>pi_readopen := False\<rparr>) s)) (\<lambda>s.
     if \<not> pi_readopen (pipes s p) \<and> \<not> pi_writeopen (pipes s p)
     then rbind (krelease (L_pipe p) s) (kfree p)
     else krelease (L_pipe p) s))"

text \<open>\<open>while(p->nwrite == p->nread + PIPESIZE)\<close>: \<open>None\<close> is the return of -1, otherwise the
  number of sleeps left.\<close>

fun pipe_room ::
  "nat \<Rightarrow> ('a kpipe_scheme \<Rightarrow> 'a kpipe_scheme) \<Rightarrow> u32 \<Rightarrow> 'a kpipe_scheme \<Rightarrow> (nat option \<times> 'a kpipe_scheme) res" where
  "pipe_room fuel resume p s =
     (if pi_nwrite (pipes s p) = pi_nread (pipes s p) + of_nat PIPESIZE
      then with_cur s (\<lambda>c.
           if \<not> pi_readopen (pipes s p) \<or> p_killed (procs s ! c)
           then rbind (krelease (L_pipe p) s) (\<lambda>s. Ok (None, s))
           else case fuel of
                  0 \<Rightarrow> Blocked
                | Suc fuel' \<Rightarrow>
                    rbind (wakeup (C_nread p) s) (\<lambda>s.
                    rbind (sleep resume (C_nwrite p) (Some (L_pipe p)) s) (pipe_room fuel' resume p)))
      else Ok (Some fuel, s))"

declare pipe_room.simps [simp del]

definition pipe_put :: "u8 \<Rightarrow> pipe \<Rightarrow> pipe" where
  "pipe_put b x = x\<lparr>pi_data := (pi_data x)[unat (pi_nwrite x mod of_nat PIPESIZE) := b], pi_nwrite := pi_nwrite x + 1\<rparr>"

fun pipewrite_loop ::
  "nat \<Rightarrow> ('a kpipe_scheme \<Rightarrow> 'a kpipe_scheme) \<Rightarrow> u32 \<Rightarrow> u8 list \<Rightarrow> 'a kpipe_scheme \<Rightarrow> (bool \<times> 'a kpipe_scheme) res" where
  "pipewrite_loop fuel resume p [] s = Ok (True, s)"
| "pipewrite_loop fuel resume p (b # bs) s =
     rbind (pipe_room fuel resume p s) (\<lambda>(r, s).
     case r of
       None \<Rightarrow> Ok (False, s)
     | Some fuel' \<Rightarrow> pipewrite_loop fuel' resume p bs (upd_pipe p (pipe_put b) s))"

definition pipewrite ::
  "nat \<Rightarrow> ('a kpipe_scheme \<Rightarrow> 'a kpipe_scheme) \<Rightarrow> u32 \<Rightarrow> u8 list \<Rightarrow> cint \<Rightarrow> 'a kpipe_scheme \<Rightarrow>
   (cint \<times> 'a kpipe_scheme) res" where
  "pipewrite fuel resume p addr n s =
     rbind (kacquire (L_pipe p) s) (\<lambda>s.
     rbind (pipewrite_loop fuel resume p (take (nat (sint n)) addr) s) (\<lambda>(ok, s).
     if \<not> ok then Ok (-1, s)
     else rbind (wakeup (C_nread p) s) (\<lambda>s. rbind (krelease (L_pipe p) s) (\<lambda>s. Ok (n, s)))))"

fun pipe_data ::
  "nat \<Rightarrow> ('a kpipe_scheme \<Rightarrow> 'a kpipe_scheme) \<Rightarrow> u32 \<Rightarrow> 'a kpipe_scheme \<Rightarrow> (bool \<times> 'a kpipe_scheme) res" where
  "pipe_data fuel resume p s =
     (if pi_nread (pipes s p) = pi_nwrite (pipes s p) \<and> pi_writeopen (pipes s p)
      then with_cur s (\<lambda>c.
           if p_killed (procs s ! c) then rbind (krelease (L_pipe p) s) (\<lambda>s. Ok (False, s))
           else case fuel of
                  0 \<Rightarrow> Blocked
                | Suc fuel' \<Rightarrow> rbind (sleep resume (C_nread p) (Some (L_pipe p)) s) (pipe_data fuel' resume p))
      else Ok (True, s))"

declare pipe_data.simps [simp del]

text \<open>The copying loop, over the number of bytes still wanted.\<close>

fun pipe_get :: "nat \<Rightarrow> pipe \<Rightarrow> u8 list \<times> pipe" where
  "pipe_get 0 x = ([], x)"
| "pipe_get (Suc n) x =
     (if pi_nread x = pi_nwrite x then ([], x)
      else let b = pi_data x ! unat (pi_nread x mod of_nat PIPESIZE);
               (bs, x) = pipe_get n (x\<lparr>pi_nread := pi_nread x + 1\<rparr>)
           in (b # bs, x))"

definition piperead ::
  "nat \<Rightarrow> ('a kpipe_scheme \<Rightarrow> 'a kpipe_scheme) \<Rightarrow> u32 \<Rightarrow> cint \<Rightarrow> 'a kpipe_scheme \<Rightarrow>
   (cint \<times> u8 list \<times> 'a kpipe_scheme) res" where
  "piperead fuel resume p n s =
     rbind (kacquire (L_pipe p) s) (\<lambda>s.
     rbind (pipe_data fuel resume p s) (\<lambda>(ok, s).
     if \<not> ok then Ok (-1, [], s)
     else let (bs, x) = pipe_get (nat (sint n)) (pipes s p)
          in rbind (wakeup (C_nwrite p) (upd_pipe p (\<lambda>_. x) s)) (\<lambda>s.
             rbind (krelease (L_pipe p) s) (\<lambda>s. Ok (of_nat (length bs), bs, s)))))"

section \<open>The pipe is a bounded queue\<close>

definition pipe_ok :: "pipe \<Rightarrow> bool" where
  "pipe_ok x \<longleftrightarrow> length (pi_data x) = PIPESIZE \<and> unat (pi_nwrite x - pi_nread x) \<le> PIPESIZE"

text \<open>The bytes written and not yet read. The counters may wrap around: PIPESIZE divides \<open>2 ^ 32\<close>.\<close>

definition pipe_q :: "pipe \<Rightarrow> u8 list" where
  "pipe_q x = map (\<lambda>k. pi_data x ! unat ((pi_nread x + of_nat k) mod of_nat PIPESIZE)) [0..<unat (pi_nwrite x - pi_nread x)]"

lemma length_pipe_q [simp]: "length (pipe_q x) = unat (pi_nwrite x - pi_nread x)"
  by (simp add: pipe_q_def)

lemma unat_add_mod512: "unat ((a + of_nat k :: u32) mod 512) = (unat a + k) mod 512"
proof -
  have "unat (a + of_nat k :: u32) = (unat a + k) mod 2 ^ 32"
    by (simp add: unat_word_ariths unat_of_nat mod_simps)
  moreover have "(unat a + k) mod 2 ^ 32 mod 512 = (unat a + k) mod 512" by (rule mod_mod_cancel) simp
  ultimately show ?thesis by (simp add: unat_mod)
qed

lemma pipe_full: "pipe_ok x \<Longrightarrow> pi_nwrite x = pi_nread x + of_nat PIPESIZE \<longleftrightarrow> length (pipe_q x) = PIPESIZE"
proof -
  have "pi_nwrite x = pi_nread x + 512 \<longleftrightarrow> pi_nwrite x - pi_nread x = 512" by (metis add_diff_cancel_left' diff_eq_eq add.commute)
  also have "\<dots> \<longleftrightarrow> unat (pi_nwrite x - pi_nread x) = 512" by (simp add: word_unat_eq_iff)
  finally show ?thesis by (simp add: PIPESIZE_def)
qed

lemma pipe_empty: "pi_nread x = pi_nwrite x \<longleftrightarrow> pipe_q x = []"
proof -
  have "pipe_q x = [] \<longleftrightarrow> unat (pi_nwrite x - pi_nread x) = 0" by (metis length_pipe_q length_0_conv)
  also have "\<dots> \<longleftrightarrow> pi_nwrite x - pi_nread x = 0" by (rule unat_eq_0)
  finally show ?thesis by auto
qed

lemma pipe_put_q:
  assumes ok: "pipe_ok x" and room: "length (pipe_q x) < PIPESIZE"
  shows "pipe_ok (pipe_put b x)" "pipe_q (pipe_put b x) = pipe_q x @ [b]"
proof -
  let ?n = "unat (pi_nwrite x - pi_nread x)"
  have n: "?n < 512" using room by (simp add: PIPESIZE_def)
  have "pi_nwrite x + 1 - pi_nread x = of_nat (Suc ?n)" by (simp add: algebra_simps)
  then have s: "unat (pi_nwrite x + 1 - pi_nread x) = Suc ?n" using n by (simp only: unat_of_nat_u32)
  show "pipe_ok (pipe_put b x)" using ok n s by (simp add: pipe_ok_def pipe_put_def PIPESIZE_def)
  have w: "unat (pi_nwrite x mod 512) = (unat (pi_nread x) + ?n) mod 512"
    using unat_add_mod512 [of "pi_nread x" ?n] by simp
  have l: "unat (pi_nwrite x mod 512) < length (pi_data x)" using ok by (simp add: pipe_ok_def PIPESIZE_def unat_mod)
  show "pipe_q (pipe_put b x) = pipe_q x @ [b]"
  proof (rule nth_equalityI)
    show "length (pipe_q (pipe_put b x)) = length (pipe_q x @ [b])" using s by (simp add: pipe_put_def)
    fix k assume k: "k < length (pipe_q (pipe_put b x))"
    have ks: "k < Suc ?n" using k s by (simp add: pipe_put_def)
    have e: "pipe_q (pipe_put b x) ! k = (pi_data x)[unat (pi_nwrite x mod 512) := b] ! ((unat (pi_nread x) + k) mod 512)"
      using ks s by (simp add: pipe_q_def pipe_put_def PIPESIZE_def unat_add_mod512 del: upt_Suc)
    show "pipe_q (pipe_put b x) ! k = (pipe_q x @ [b]) ! k"
    proof (cases "k = ?n")
      case True
      then show ?thesis unfolding e w using l w by (simp add: nth_append)
    next
      case False
      then have kn: "k < ?n" using ks by simp
      have "(unat (pi_nread x) + k) mod 512 \<noteq> (unat (pi_nread x) + ?n) mod 512"
      proof
        assume "(unat (pi_nread x) + k) mod 512 = (unat (pi_nread x) + ?n) mod 512"
        then have "512 dvd (unat (pi_nread x) + ?n) - (unat (pi_nread x) + k)"
          using kn mod_eq_dvd_iff_nat [of "unat (pi_nread x) + k" "unat (pi_nread x) + ?n" 512] by simp
        then have "512 dvd ?n - k" by simp
        then show False using kn n by (auto dest: dvd_imp_le)
      qed
      then show ?thesis unfolding e w using kn by (simp add: nth_append pipe_q_def PIPESIZE_def unat_add_mod512)
    qed
  qed
qed

lemma pipe_puts_q:
  "pipe_ok x \<Longrightarrow> length (pipe_q x) + length bs \<le> PIPESIZE \<Longrightarrow>
   pipe_ok (fold pipe_put bs x) \<and> pipe_q (fold pipe_put bs x) = pipe_q x @ bs"
proof (induction bs arbitrary: x)
  case (Cons b bs)
  have "length (pipe_q x) < PIPESIZE" using Cons.prems(2) by simp
  note p = pipe_put_q [OF Cons.prems(1) this, of b]
  have "length (pipe_q (pipe_put b x)) + length bs \<le> PIPESIZE" using Cons.prems(2) unfolding p(2) by simp
  from Cons.IH [OF p(1) this] show ?case by (simp add: p(2))
qed simp

lemma pipe_step_q:
  assumes "pipe_ok x" "pi_nread x \<noteq> pi_nwrite x"
  defines "y \<equiv> x\<lparr>pi_nread := pi_nread x + 1\<rparr>"
  shows "pipe_ok y" "pipe_q x = pi_data x ! unat (pi_nread x mod of_nat PIPESIZE) # pipe_q y"
proof -
  let ?n = "unat (pi_nwrite x - pi_nread x)"
  have "pipe_q x \<noteq> []" using assms(2) pipe_empty by blast
  then have "?n \<noteq> 0" by (metis length_pipe_q length_0_conv)
  then obtain m where m: "?n = Suc m" using not0_implies_Suc by blast
  have d: "pi_nwrite x - (pi_nread x + 1) = pi_nwrite x - pi_nread x - 1" by simp
  have "unat (pi_nwrite x - pi_nread x - 1) = ?n - 1" using m unat_sub_u32 [of 1 "pi_nwrite x - pi_nread x"] by simp
  then have s: "unat (pi_nwrite y - pi_nread y) = m" using m unfolding y_def by (simp add: d del: diff_diff_add)
  show "pipe_ok y" using assms(1) s m by (simp add: pipe_ok_def y_def)
  show "pipe_q x = pi_data x ! unat (pi_nread x mod of_nat PIPESIZE) # pipe_q y"
    unfolding pipe_q_def s m by (simp add: y_def upt_conv_Cons map_Suc_upt [symmetric] o_def add.assoc del: upt_Suc)
qed

lemma pipe_get_q:
  "pipe_ok x \<Longrightarrow> pipe_get n x = (bs, y) \<Longrightarrow>
   bs = take n (pipe_q x) \<and> pipe_q y = drop n (pipe_q x) \<and> pipe_ok y \<and>
   pi_readopen y = pi_readopen x \<and> pi_writeopen y = pi_writeopen x"
proof (induction n arbitrary: x bs y)
  case (Suc n)
  show ?case
  proof (cases "pi_nread x = pi_nwrite x")
    case True
    then show ?thesis using Suc.prems pipe_empty [of x] by simp
  next
    case False
    obtain cs z where g: "pipe_get n (x\<lparr>pi_nread := pi_nread x + 1\<rparr>) = (cs, z)" by fastforce
    note p = pipe_step_q [OF Suc.prems(1) False]
    show ?thesis using Suc.IH [OF p(1) g] Suc.prems(2) False g p(2) by (simp add: Let_def)
  qed
qed simp

text \<open>The operations, with the lock and the wakeups, on a pipe whose ends are both open.\<close>

lemma pipe_room_eq:
  assumes "cur s = Some c" "pi_readopen (pipes s p)" "\<not> p_killed (procs s ! c)" "pipe_ok (pipes s p)"
  shows "pipe_room 0 resume p s = (if length (pipe_q (pipes s p)) = PIPESIZE then Blocked else Ok (Some 0, s))"
  using assms pipe_full [OF assms(4)] by (subst pipe_room.simps) (simp add: with_cur_def)

lemma pipewrite_loop_eq:
  assumes "cur s = Some c" "pi_readopen (pipes s p)" "\<not> p_killed (procs s ! c)" "pipe_ok (pipes s p)"
  shows "pipewrite_loop 0 resume p bs s =
    (if length (pipe_q (pipes s p)) + length bs \<le> PIPESIZE then Ok (True, upd_pipe p (fold pipe_put bs) s) else Blocked)"
  using assms
proof (induction bs arbitrary: s)
  case Nil
  have "upd_pipe p (fold pipe_put []) s = s" by (simp add: upd_pipe_def)
  then show ?case using Nil.prems(4) by (simp add: pipe_ok_def)
next
  case (Cons b bs)
  note r = pipe_room_eq [OF Cons.prems, of resume]
  show ?case
  proof (cases "length (pipe_q (pipes s p)) = PIPESIZE")
    case True
    then show ?thesis using r by simp
  next
    case False
    then have room: "length (pipe_q (pipes s p)) < PIPESIZE" using Cons.prems(4) by (simp add: pipe_ok_def)
    note q = pipe_put_q [OF Cons.prems(4) room, of b]
    let ?s = "upd_pipe p (pipe_put b) s"
    have x: "pipes ?s p = pipe_put b (pipes s p)" "cur ?s = cur s" "procs ?s = procs s" by (simp_all add: upd_pipe_def)
    have i: "pipewrite_loop 0 resume p bs ?s =
      (if length (pipe_q (pipes ?s p)) + length bs \<le> PIPESIZE then Ok (True, upd_pipe p (fold pipe_put bs) ?s) else Blocked)"
      using Cons.prems q(1) by (intro Cons.IH) (simp_all add: x pipe_put_def)
    have u: "upd_pipe p (fold pipe_put bs) ?s = upd_pipe p (fold pipe_put (b # bs)) s" by (simp add: upd_pipe_def)
    have l: "length (pipe_q (pipes ?s p)) = Suc (length (pipe_q (pipes s p)))" unfolding x q(2) by simp
    show ?thesis using r False i unfolding u l by simp
  qed
qed

lemma pipewrite_eq:
  assumes q: "quiet s" and c: "cur s = Some c" "pi_readopen (pipes s p)" "\<not> p_killed (procs s ! c)" "pipe_ok (pipes s p)"
  shows "pipewrite 0 resume p addr n s =
    (if length (pipe_q (pipes s p)) + length (take (nat (sint n)) addr) \<le> PIPESIZE
     then Ok (n, wakeup1 (Some (C_nread p)) (upd_pipe p (fold pipe_put (take (nat (sint n)) addr)) s)) else Blocked)"
proof -
  let ?bs = "take (nat (sint n)) addr" and ?a = "acquired (L_pipe p) (lk s)"
  have e: "upd_pipe p f (s\<lparr>lk := ?a\<rparr>) = (upd_pipe p f s)\<lparr>lk := ?a\<rparr>" for f by (cases s) (simp add: upd_pipe_def)
  have l: "pipewrite_loop 0 resume p ?bs (s\<lparr>lk := ?a\<rparr>) = (if length (pipe_q (pipes s p)) + length ?bs \<le> PIPESIZE
      then Ok (True, (upd_pipe p (fold pipe_put ?bs) s)\<lparr>lk := ?a\<rparr>) else Blocked)"
    using pipewrite_loop_eq [of "s\<lparr>lk := ?a\<rparr>" c p resume ?bs] c unfolding e by simp
  let ?t = "upd_pipe p (fold pipe_put ?bs) s"
  have w: "wakeup (C_nread p) (?t\<lparr>lk := ?a\<rparr>) = Ok ((wakeup1 (Some (C_nread p)) ?t)\<lparr>lk := ?a\<rparr>)"
    by (rule wakeup_locked [OF q]) simp
  have k: "krelease (L_pipe p) ((wakeup1 (Some (C_nread p)) ?t)\<lparr>lk := ?a\<rparr>) = Ok (wakeup1 (Some (C_nread p)) ?t)"
    using quiet_krelease [OF q, of "L_pipe p" "wakeup1 (Some (C_nread p)) ?t"]
      lk_update_id [of "wakeup1 (Some (C_nread p)) ?t" "lk s"] by (simp add: wakeup1_def upd_pipe_def)
  show ?thesis unfolding pipewrite_def quiet_kacquire [OF q] by (simp add: l w k)
qed

lemma piperead_eq:
  assumes q: "quiet s" and c: "cur s = Some c" "\<not> p_killed (procs s ! c)"
    and g: "pipe_get (nat (sint n)) (pipes s p) = (bs, y)"
  shows "piperead 0 resume p n s =
    (if pipe_q (pipes s p) = [] \<and> pi_writeopen (pipes s p) then Blocked
     else Ok (of_nat (length bs), bs, wakeup1 (Some (C_nwrite p)) (upd_pipe p (\<lambda>_. y) s)))"
proof -
  let ?a = "acquired (L_pipe p) (lk s)"
  have d: "pipe_data 0 resume p (s\<lparr>lk := ?a\<rparr>) =
      (if pipe_q (pipes s p) = [] \<and> pi_writeopen (pipes s p) then Blocked else Ok (True, s\<lparr>lk := ?a\<rparr>))"
    using c pipe_empty [of "pipes s p"] by (subst pipe_data.simps) (simp add: with_cur_def)
  let ?t = "upd_pipe p (\<lambda>_. y) s"
  have e: "upd_pipe p (\<lambda>_. y) (s\<lparr>lk := ?a\<rparr>) = ?t\<lparr>lk := ?a\<rparr>" by (cases s) (simp add: upd_pipe_def)
  have w: "wakeup (C_nwrite p) (?t\<lparr>lk := ?a\<rparr>) = Ok ((wakeup1 (Some (C_nwrite p)) ?t)\<lparr>lk := ?a\<rparr>)"
    by (rule wakeup_locked [OF q]) simp
  have k: "krelease (L_pipe p) ((wakeup1 (Some (C_nwrite p)) ?t)\<lparr>lk := ?a\<rparr>) = Ok (wakeup1 (Some (C_nwrite p)) ?t)"
    using quiet_krelease [OF q, of "L_pipe p" "wakeup1 (Some (C_nwrite p)) ?t"]
      lk_update_id [of "wakeup1 (Some (C_nwrite p)) ?t" "lk s"] by (simp add: wakeup1_def upd_pipe_def)
  show ?thesis unfolding piperead_def quiet_kacquire [OF q] by (simp add: d e w k g Let_def)
qed

section \<open>Properties\<close>

text \<open>A sequence of reads and writes by processes that find the pipe as it is, with the bytes read;
  and the same operations on a queue of at most PIPESIZE bytes, where \<open>None\<close> means that an
  operation has to wait.\<close>

datatype pipe_op = PWrite "u8 list" | PRead nat

fun pipe_run :: "u32 \<Rightarrow> pipe_op list \<Rightarrow> 'a kpipe_scheme \<Rightarrow> (u8 list \<times> 'a kpipe_scheme) res" where
  "pipe_run p [] s = Ok ([], s)"
| "pipe_run p (PWrite bs # ops) s = rbind (pipewrite 0 id p bs (of_nat (length bs)) s) (\<lambda>(_, s). pipe_run p ops s)"
| "pipe_run p (PRead n # ops) s =
     rbind (piperead 0 id p (of_nat n) s) (\<lambda>(_, xs, s). rbind (pipe_run p ops s) (\<lambda>(out, s). Ok (xs @ out, s)))"

fun queue_run :: "pipe_op list \<Rightarrow> u8 list \<Rightarrow> (u8 list \<times> u8 list) option" where
  "queue_run [] q = Some ([], q)"
| "queue_run (PWrite bs # ops) q = (if length q + length bs \<le> PIPESIZE then queue_run ops (q @ bs) else None)"
| "queue_run (PRead n # ops) q =
     (if q = [] then None else map_option (\<lambda>(out, q'). (take n q @ out, q')) (queue_run ops (drop n q)))"

fun op_small :: "pipe_op \<Rightarrow> bool" where
  "op_small (PWrite bs) = (length bs < 2 ^ 31)"
| "op_small (PRead n) = (n < 2 ^ 31)"

definition pipe_open :: "u32 \<Rightarrow> 'a kpipe_scheme \<Rightarrow> bool" where
  "pipe_open p s \<longleftrightarrow> pipe_ok (pipes s p) \<and> pi_readopen (pipes s p) \<and> pi_writeopen (pipes s p) \<and>
     (case cur s of None \<Rightarrow> False | Some c \<Rightarrow> c < length (procs s) \<and> \<not> p_killed (procs s ! c))"

lemma pipe_puts_open: "pi_readopen (fold pipe_put bs x) = pi_readopen x \<and> pi_writeopen (fold pipe_put bs x) = pi_writeopen x"
  by (induction bs arbitrary: x) (simp_all add: pipe_put_def)

lemma pipe_open_step:
  assumes "pipe_open p s" "pipe_ok y" "pi_readopen y" "pi_writeopen y" "quiet s"
  shows "pipe_open p (wakeup1 ch (upd_pipe p (\<lambda>_. y) s))" "quiet (wakeup1 ch (upd_pipe p (\<lambda>_. y) s))"
    "pipes (wakeup1 ch (upd_pipe p (\<lambda>_. y) s)) p = y"
  using assms by (auto simp: pipe_open_def wakeup1_def upd_pipe_def quiet_def split: option.splits)

lemma sint_nat_cint: "n < 2 ^ 31 \<Longrightarrow> nat (sint (of_nat n :: cint)) = n"
  using sint_of_int_cint [of "int n"] by simp

text \<open>C7. A pipe with both ends open is a queue of at most PIPESIZE bytes: any sequence of writes and
  reads returns the bytes in the order in which they were written, none lost, repeated or reordered,
  also when the 32-bit counters wrap around; it leaves the rest in the pipe, and waits exactly when a
  write finds too little room or a read finds the pipe empty.\<close>

theorem pipe_refines_queue:
  assumes "quiet s" "pipe_open p s" "\<forall>x\<in>set ops. op_small x"
  shows "case queue_run ops (pipe_q (pipes s p)) of
      None \<Rightarrow> pipe_run p ops s = Blocked
    | Some (out, q) \<Rightarrow> \<exists>t. pipe_run p ops s = Ok (out, t) \<and> pipe_q (pipes t p) = q \<and> quiet t \<and> pipe_open p t"
  using assms
proof (induction ops arbitrary: s)
  case (Cons x ops)
  obtain c where c: "cur s = Some c" "\<not> p_killed (procs s ! c)" and o: "pipe_ok (pipes s p)" "pi_readopen (pipes s p)" "pi_writeopen (pipes s p)"
    using Cons.prems(2) by (auto simp: pipe_open_def split: option.splits)
  show ?case
  proof (cases x)
    case (PWrite bs)
    then have n: "nat (sint (of_nat (length bs) :: cint)) = length bs" using Cons.prems(3) by (intro sint_nat_cint) simp
    note e = pipewrite_eq [OF Cons.prems(1) c(1) o(2) c(2) o(1), of id bs "of_nat (length bs)", unfolded n]
    show ?thesis
    proof (cases "length (pipe_q (pipes s p)) + length bs \<le> PIPESIZE")
      case True
      let ?y = "fold pipe_put bs (pipes s p)"
      note y = pipe_puts_q [OF o(1) True]
      have u: "upd_pipe p (fold pipe_put bs) s = upd_pipe p (\<lambda>_. ?y) s" by (simp add: upd_pipe_def)
      note st = pipe_open_step [OF Cons.prems(2) _ _ _ Cons.prems(1), of ?y "Some (C_nread p)"]
      have y': "pipe_ok ?y" "pi_readopen ?y" "pi_writeopen ?y" using y o pipe_puts_open by auto
      note ih = Cons.IH [OF st(2) [OF y'] st(1) [OF y'], unfolded st(3) [OF y']]
      have e': "pipewrite 0 id p bs (of_nat (length bs)) s = Ok (of_nat (length bs), wakeup1 (Some (C_nread p)) (upd_pipe p (\<lambda>_. ?y) s))"
        using e True unfolding u [symmetric] by simp
      show ?thesis using ih Cons.prems(3) e' True y PWrite by (auto split: option.splits)
    next
      case False
      then show ?thesis using e PWrite by simp
    qed
  next
    case (PRead n)
    then have n: "nat (sint (of_nat n :: cint)) = n" using Cons.prems(3) by (intro sint_nat_cint) simp
    obtain bs y where g: "pipe_get n (pipes s p) = (bs, y)" by fastforce
    note e = piperead_eq [OF Cons.prems(1) c, of "of_nat n" p bs y id, unfolded n, OF g]
    note y = pipe_get_q [OF o(1) g]
    show ?thesis
    proof (cases "pipe_q (pipes s p) = []")
      case True
      then show ?thesis using e o(3) PRead by simp
    next
      case False
      note st = pipe_open_step [OF Cons.prems(2) _ _ _ Cons.prems(1), of y "Some (C_nwrite p)"]
      have y': "pipe_ok y" "pi_readopen y" "pi_writeopen y" using y o by auto
      note ih = Cons.IH [OF st(2) [OF y'] st(1) [OF y'], unfolded st(3) [OF y']]
      show ?thesis using ih Cons.prems(3) e False y PRead by (fastforce split: option.splits)
    qed
  qed
qed simp

text \<open>A pipe whose counters are about to wrap around.\<close>

definition pipe0 :: kpipe where
  "pipe0 = (kfs.extend (klog.extend klog0 (kfs.fields [] (sb_of (replicate BSIZE 0)))) (kpipe.fields
     (\<lambda>_. \<lparr>pi_data = replicate PIPESIZE 0, pi_nread = 0xFFFFFFFF, pi_nwrite = 0xFFFFFFFF, pi_readopen = True, pi_writeopen = True\<rparr>)))
     \<lparr>procs := procs kproc0, cur := Some 0, lk := lk0\<rparr>"

lemma pipe0_simps [simp]:
  "lk pipe0 = lk0" "cur pipe0 = Some 0" "procs pipe0 = procs kproc0"
  "pipes pipe0 p = \<lparr>pi_data = replicate PIPESIZE 0, pi_nread = 0xFFFFFFFF, pi_nwrite = 0xFFFFFFFF, pi_readopen = True, pi_writeopen = True\<rparr>"
  by (simp_all add: pipe0_def kfs.defs kpipe.defs)

theorem pipe_refines_queue_witness:
  "\<exists>t. pipe_run 4096 [PWrite [1, 2, 3], PRead 2, PWrite [4], PRead 5] pipe0 = Ok ([1, 2, 3, 4], t) \<and> pipe_q (pipes t 4096) = []"
proof -
  have q: "quiet pipe0" by (simp add: quiet_def)
  have p: "pipe_open 4096 pipe0" by (simp add: pipe_open_def pipe_ok_def proc_unused_def)
  have e: "pipe_q (pipes pipe0 4096) = []" by (simp add: pipe_q_def)
  show ?thesis
    using pipe_refines_queue [OF q p, of "[PWrite [1, 2, 3], PRead 2, PWrite [4], PRead 5]"]
    unfolding e by (auto simp add: PIPESIZE_def simp del: pipe_run.simps)
qed

end
