(* ===== verification/File.thy ===== *)
theory File
  imports Pipe
begin

text \<open>
  file.c: the table of open files, and \<open>pipealloc\<close> of pipe.c. A file pointer is an index of
  the table. The operations that may sleep on a pipe or for the log do so at once or not at all:
  where the code would sleep the operation is \<open>Blocked\<close>. The device switch table is the
  parameter \<open>dsw\<close>, as in Fs.
\<close>

section \<open>Definitions\<close>

definition NFILE :: nat where "NFILE = 100"

datatype ftype = FD_NONE | FD_PIPE | FD_INODE

record filestruct =
  f_type :: ftype
  f_ref :: cint
  f_readable :: bool
  f_writable :: bool
  f_pipe :: u32
  f_ip :: nat
  f_off :: u32

record kfile = kpipe +
  files :: "filestruct list"

definition upd_file :: "nat \<Rightarrow> (filestruct \<Rightarrow> filestruct) \<Rightarrow> 'a kfile_scheme \<Rightarrow> 'a kfile_scheme" where
  "upd_file i f s = s\<lparr>files := upd_ix i f (files s)\<rparr>"

definition fileinit :: "'a kfile_scheme \<Rightarrow> 'a kfile_scheme" where
  "fileinit s = s\<lparr>lk := initlock L_ftable ''ftable'' (lk s)\<rparr>"

definition filealloc :: "'a kfile_scheme \<Rightarrow> (nat option \<times> 'a kfile_scheme) res" where
  "filealloc s =
     rbind (kacquire L_ftable s) (\<lambda>s.
     case first_ix (\<lambda>f. f_ref f = 0) (files s) of
       Some i \<Rightarrow> rbind (krelease L_ftable (upd_file i (\<lambda>f. f\<lparr>f_ref := 1\<rparr>) s)) (\<lambda>s. Ok (Some i, s))
     | None \<Rightarrow> rbind (krelease L_ftable s) (\<lambda>s. Ok (None, s)))"

definition filedup :: "nat \<Rightarrow> 'a kfile_scheme \<Rightarrow> (nat \<times> 'a kfile_scheme) res" where
  "filedup f s =
     rbind (kacquire L_ftable s) (\<lambda>s.
     if f_ref (files s ! f) <s 1 then Panic ''filedup''
     else rbind (krelease L_ftable (upd_file f (\<lambda>x. x\<lparr>f_ref := f_ref x + 1\<rparr>) s)) (\<lambda>s. Ok (f, s)))"

definition fileclose :: "nat \<Rightarrow> 'a kfile_scheme \<Rightarrow> 'a kfile_scheme res" where
  "fileclose f s =
     rbind (kacquire L_ftable s) (\<lambda>s.
     if f_ref (files s ! f) <s 1 then Panic ''fileclose''
     else let s = upd_file f (\<lambda>x. x\<lparr>f_ref := f_ref x - 1\<rparr>) s
          in if 0 <s f_ref (files s ! f) then krelease L_ftable s
             else let ff = files s ! f;
                      s = upd_file f (\<lambda>x. x\<lparr>f_ref := 0, f_type := FD_NONE\<rparr>) s
                  in rbind (krelease L_ftable s) (\<lambda>s.
                     case f_type ff of
                       FD_PIPE \<Rightarrow> pipeclose (f_pipe ff) (f_writable ff) s
                     | FD_INODE \<Rightarrow> rbind (begin_op_now s) (\<lambda>s. rbind (iput (f_ip ff) s) end_op)
                     | FD_NONE \<Rightarrow> Ok s))"

definition filestat :: "nat \<Rightarrow> 'a kfile_scheme \<Rightarrow> (cint \<times> stat option \<times> 'a kfile_scheme) res" where
  "filestat f s =
     (if f_type (files s ! f) = FD_INODE
      then let ip = f_ip (files s ! f)
           in rbind (ilock (Some ip) s) (\<lambda>s.
              let st = stati ip s
              in rbind (iunlock (Some ip) s) (\<lambda>s. Ok (0, Some st, s)))
      else Ok (-1, None, s))"

definition fileread ::
  "'a kfile_scheme devsw list \<Rightarrow> nat \<Rightarrow> cint \<Rightarrow> 'a kfile_scheme \<Rightarrow> (cint \<times> u8 list \<times> 'a kfile_scheme) res" where
  "fileread dsw f n s =
     (let ff = files s ! f
      in if \<not> f_readable ff then Ok (-1, [], s)
         else case f_type ff of
           FD_PIPE \<Rightarrow> piperead 0 id (f_pipe ff) n s
         | FD_INODE \<Rightarrow>
             rbind (ilock (Some (f_ip ff)) s) (\<lambda>s.
             rbind (readi dsw (f_ip ff) (f_off (files s ! f)) n s) (\<lambda>(r, xs, s).
             let s = (if 0 <s r then upd_file f (\<lambda>x. x\<lparr>f_off := f_off x + r\<rparr>) s else s)
             in rbind (iunlock (Some (f_ip ff)) s) (\<lambda>s. Ok (r, xs, s))))
         | FD_NONE \<Rightarrow> Panic ''fileread'')"

definition max_write :: cint where
  "max_write = of_nat ((LOGSIZE - 1 - 1 - 2) div 2 * 512)"

fun filewrite_loop ::
  "nat \<Rightarrow> 'a kfile_scheme devsw list \<Rightarrow> nat \<Rightarrow> u8 list \<Rightarrow> cint \<Rightarrow> cint \<Rightarrow> 'a kfile_scheme \<Rightarrow> (cint \<times> 'a kfile_scheme) res" where
  "filewrite_loop 0 dsw f addr n i s = Blocked"
| "filewrite_loop (Suc k) dsw f addr n i s =
     (if i <s n
      then let n1 = (if max_write <s n - i then max_write else n - i);
               ip = f_ip (files s ! f)
           in rbind (begin_op_now s) (\<lambda>s.
              rbind (ilock (Some ip) s) (\<lambda>s.
              rbind (writei dsw ip (drop (nat (sint i)) addr) (f_off (files s ! f)) n1 s) (\<lambda>(r, s).
              let s = (if 0 <s r then upd_file f (\<lambda>x. x\<lparr>f_off := f_off x + r\<rparr>) s else s)
              in rbind (iunlock (Some ip) s) (\<lambda>s.
                 rbind (end_op s) (\<lambda>s.
                 if r <s 0 then Ok (if i = n then n else -1, s)
                 else if r \<noteq> n1 then Panic ''short filewrite''
                 else filewrite_loop k dsw f addr n (i + r) s)))))
      else Ok (if i = n then n else -1, s))"

text \<open>Every round but the last writes \<open>max_write\<close> bytes, so the bound is never reached.\<close>

definition filewrite ::
  "'a kfile_scheme devsw list \<Rightarrow> nat \<Rightarrow> u8 list \<Rightarrow> cint \<Rightarrow> 'a kfile_scheme \<Rightarrow> (cint \<times> 'a kfile_scheme) res" where
  "filewrite dsw f addr n s =
     (let ff = files s ! f
      in if \<not> f_writable ff then Ok (-1, s)
         else case f_type ff of
           FD_PIPE \<Rightarrow> pipewrite 0 id (f_pipe ff) addr n s
         | FD_INODE \<Rightarrow> filewrite_loop (nat (sint n) div unat max_write + 2) dsw f addr n 0 s
         | FD_NONE \<Rightarrow> Panic ''filewrite'')"

definition pipe_bad :: "nat option \<Rightarrow> nat option \<Rightarrow> 'a kfile_scheme \<Rightarrow> ((nat \<times> nat) option \<times> 'a kfile_scheme) res" where
  "pipe_bad f0 f1 s =
     rbind (case f0 of None \<Rightarrow> Ok s | Some f \<Rightarrow> fileclose f s) (\<lambda>s.
     rbind (case f1 of None \<Rightarrow> Ok s | Some f \<Rightarrow> fileclose f s) (\<lambda>s. Ok (None, s)))"

text \<open>The data array and the two counters lie in a page whose old contents are not cleared.\<close>

definition pipealloc :: "'a kfile_scheme \<Rightarrow> ((nat \<times> nat) option \<times> 'a kfile_scheme) res" where
  "pipealloc s =
     rbind (filealloc s) (\<lambda>(f0, s).
     case f0 of
       None \<Rightarrow> pipe_bad None None s
     | Some a \<Rightarrow>
         rbind (filealloc s) (\<lambda>(f1, s).
         case f1 of
           None \<Rightarrow> pipe_bad (Some a) None s
         | Some b \<Rightarrow>
             rbind (kalloc s) (\<lambda>(p, s).
             if p = 0 then pipe_bad (Some a) (Some b) s
             else
               let s = upd_pipe p (\<lambda>x. x\<lparr>pi_readopen := True, pi_writeopen := True, pi_nwrite := 0, pi_nread := 0\<rparr>) s;
                   s = s\<lparr>lk := initlock (L_pipe p) ''pipe'' (lk s)\<rparr>;
                   s = upd_file a (\<lambda>x. x\<lparr>f_type := FD_PIPE, f_readable := True, f_writable := False, f_pipe := p\<rparr>) s;
                   s = upd_file b (\<lambda>x. x\<lparr>f_type := FD_PIPE, f_readable := False, f_writable := True, f_pipe := p\<rparr>) s
               in Ok (Some (a, b), s))))"

end
