(* ===== verification/Vm.thy ===== *)
theory Vm
  imports Proc
begin

text \<open>
  vm.c and the page table macros of mmu.h: two-level page tables in the byte memory of the
  kernel. A null pointer that the code dereferences is \<open>Panic\<close>. The loops over an address
  range take a bound on the number of rounds, computed from the range, and are \<open>Blocked\<close>
  when it is used up. The linker symbol \<open>data\<close> is the parameter \<open>kdata\<close>; \<open>readi\<close>, which
  \<open>loaduvm\<close> calls, is a parameter that exec instantiates with the function of fs.c.
\<close>

section \<open>Page table entries (mmu.h)\<close>

definition PDX :: "u32 \<Rightarrow> u32" where "PDX vaddr = drop_bit 22 vaddr AND 0x3FF"

definition PTX :: "u32 \<Rightarrow> u32" where "PTX vaddr = drop_bit 12 vaddr AND 0x3FF"

definition PGADDR :: "u32 \<Rightarrow> u32 \<Rightarrow> u32 \<Rightarrow> u32" where
  "PGADDR d t off = push_bit 22 d OR push_bit 12 t OR off"

definition NPDENTRIES :: nat where "NPDENTRIES = 1024"

definition PTE_P :: u32 where "PTE_P = 1"

definition PTE_W :: u32 where "PTE_W = 2"

definition PTE_U :: u32 where "PTE_U = 4"

definition PTE_ADDR :: "u32 \<Rightarrow> u32" where "PTE_ADDR pte = pte AND NOT 0xFFF"

definition PTE_FLAGS :: "u32 \<Rightarrow> u32" where "PTE_FLAGS pte = pte AND 0xFFF"

definition EXTMEM :: u32 where "EXTMEM = 0x100000"

definition DEVSPACE :: u32 where "DEVSPACE = 0xFE000000"

definition KERNLINK :: u32 where "KERNLINK = KERNBASE + EXTMEM"

section \<open>Operations\<close>

text \<open>The address of the entry, or 0.\<close>

definition walkpgdir :: "u32 \<Rightarrow> u32 \<Rightarrow> bool \<Rightarrow> 'a kmem_scheme \<Rightarrow> (u32 \<times> 'a kmem_scheme) res" where
  "walkpgdir pgdir vaddr alloc s =
     (let pde = pgdir + 4 * PDX vaddr
      in if load32 (mem s) pde AND PTE_P \<noteq> 0
         then Ok (P2V (PTE_ADDR (load32 (mem s) pde)) + 4 * PTX vaddr, s)
         else if \<not> alloc then Ok (0, s)
         else rbind (kalloc s) (\<lambda>(pgtab, s).
           if pgtab = 0 then Ok (0, s)
           else let m = memset (mem s) pgtab 0 4096;
                    m = store32 m pde (V2P pgtab OR PTE_P OR PTE_W OR PTE_U)
                in Ok (pgtab + 4 * PTX vaddr, s\<lparr>mem := m\<rparr>)))"

fun map_loop :: "nat \<Rightarrow> u32 \<Rightarrow> u32 \<Rightarrow> u32 \<Rightarrow> u32 \<Rightarrow> u32 \<Rightarrow> 'a kmem_scheme \<Rightarrow> (cint \<times> 'a kmem_scheme) res" where
  "map_loop 0 pgdir a lst pa perm s = Blocked"
| "map_loop (Suc n) pgdir a lst pa perm s =
     rbind (walkpgdir pgdir a True s) (\<lambda>(pte, s).
       if pte = 0 then Ok (-1, s)
       else if load32 (mem s) pte AND PTE_P \<noteq> 0 then Panic ''remap''
       else let s = s\<lparr>mem := store32 (mem s) pte (pa OR perm OR PTE_P)\<rparr>
            in if a = lst then Ok (0, s)
               else map_loop n pgdir (a + PGSIZE) lst (pa + PGSIZE) perm s)"

definition mappages :: "u32 \<Rightarrow> u32 \<Rightarrow> u32 \<Rightarrow> u32 \<Rightarrow> u32 \<Rightarrow> 'a kmem_scheme \<Rightarrow> (cint \<times> 'a kmem_scheme) res" where
  "mappages pgdir vaddr sz pa perm s =
     (let a = PGROUNDDOWN vaddr; lst = PGROUNDDOWN (vaddr + sz - 1)
      in map_loop (Suc (unat (lst - a) div 4096)) pgdir a lst pa perm s)"

text \<open>The entries of \<open>kmap\<close>: virtual start, physical start and end, permissions.\<close>

definition kmap :: "u32 \<Rightarrow> (u32 \<times> u32 \<times> u32 \<times> u32) list" where
  "kmap kdata =
     [(KERNBASE, 0, EXTMEM, PTE_W),
      (KERNLINK, V2P KERNLINK, V2P kdata, 0),
      (kdata, V2P kdata, PHYSTOP, PTE_W),
      (DEVSPACE, DEVSPACE, 0, PTE_W)]"

fun kmap_loop :: "u32 \<Rightarrow> (u32 \<times> u32 \<times> u32 \<times> u32) list \<Rightarrow> 'a kmem_scheme \<Rightarrow> (u32 \<times> 'a kmem_scheme) res" where
  "kmap_loop pgdir [] s = Ok (pgdir, s)"
| "kmap_loop pgdir ((virt, phys_start, phys_end, perm) # ks) s =
     rbind (mappages pgdir virt (phys_end - phys_start) phys_start perm s) (\<lambda>(r, s).
       if r <s 0 then Ok (0, s) else kmap_loop pgdir ks s)"

definition setupkvm :: "u32 \<Rightarrow> 'a kmem_scheme \<Rightarrow> (u32 \<times> 'a kmem_scheme) res" where
  "setupkvm kdata s =
     rbind (kalloc s) (\<lambda>(pgdir, s).
       if pgdir = 0 then Ok (0, s)
       else let s = s\<lparr>mem := memset (mem s) pgdir 0 4096\<rparr>
            in if P2V PHYSTOP > DEVSPACE then Panic ''PHYSTOP too high''
               else kmap_loop pgdir (kmap kdata) s)"

definition kvmalloc :: "u32 \<Rightarrow> 'a kproc_scheme \<Rightarrow> 'a kproc_scheme res" where
  "kvmalloc kdata s = rbind (setupkvm kdata s) (\<lambda>(pgdir, s). Ok (switchkvm (s\<lparr>kpgdir := pgdir\<rparr>)))"

text \<open>Neither the result of \<open>kalloc\<close> nor that of \<open>mappages\<close> is checked.\<close>

definition inituvm :: "u32 \<Rightarrow> u32 \<Rightarrow> u32 \<Rightarrow> 'a kmem_scheme \<Rightarrow> 'a kmem_scheme res" where
  "inituvm pgdir init sz s =
     (if sz \<ge> PGSIZE then Panic ''inituvm: more than a page''
      else rbind (kalloc s) (\<lambda>(m, s).
        let s = s\<lparr>mem := memset (mem s) m 0 4096\<rparr>
        in rbind (mappages pgdir 0 PGSIZE (V2P m) (PTE_W OR PTE_U) s) (\<lambda>(_, s).
             Ok (s\<lparr>mem := memmove (mem s) m init sz\<rparr>))))"

fun load_loop ::
  "nat \<Rightarrow> (u32 \<Rightarrow> u32 \<Rightarrow> u32 \<Rightarrow> 'a kmem_scheme \<Rightarrow> (cint \<times> 'a kmem_scheme) res) \<Rightarrow>
   u32 \<Rightarrow> u32 \<Rightarrow> u32 \<Rightarrow> u32 \<Rightarrow> u32 \<Rightarrow> 'a kmem_scheme \<Rightarrow> (cint \<times> 'a kmem_scheme) res" where
  "load_loop 0 rdi pgdir addr i off sz s = Blocked"
| "load_loop (Suc f) rdi pgdir addr i off sz s =
     (if i < sz then
        rbind (walkpgdir pgdir (addr + i) False s) (\<lambda>(pte, s).
          if pte = 0 then Panic ''loaduvm: address should exist''
          else let pa = PTE_ADDR (load32 (mem s) pte);
                   n = (if sz - i < PGSIZE then sz - i else PGSIZE)
               in rbind (rdi (P2V pa) (off + i) n s) (\<lambda>(r, s).
                    if r \<noteq> n then Ok (-1, s)
                    else load_loop f rdi pgdir addr (i + PGSIZE) off sz s))
      else Ok (0, s))"

definition loaduvm ::
  "(u32 \<Rightarrow> u32 \<Rightarrow> u32 \<Rightarrow> 'a kmem_scheme \<Rightarrow> (cint \<times> 'a kmem_scheme) res) \<Rightarrow>
   u32 \<Rightarrow> u32 \<Rightarrow> u32 \<Rightarrow> u32 \<Rightarrow> 'a kmem_scheme \<Rightarrow> (cint \<times> 'a kmem_scheme) res" where
  "loaduvm rdi pgdir addr off sz s =
     (if addr mod PGSIZE \<noteq> 0 then Panic ''loaduvm: addr must be page aligned''
      else load_loop (unat sz div 4096 + 2) rdi pgdir addr 0 off sz s)"

text \<open>After a missing page table the loop goes on at the next directory entry.\<close>

fun dealloc_loop :: "nat \<Rightarrow> u32 \<Rightarrow> u32 \<Rightarrow> u32 \<Rightarrow> 'a kmem_scheme \<Rightarrow> 'a kmem_scheme res" where
  "dealloc_loop 0 pgdir a oldsz s = Blocked"
| "dealloc_loop (Suc f) pgdir a oldsz s =
     (if a < oldsz then
        rbind (walkpgdir pgdir a False s) (\<lambda>(pte, s).
          if pte = 0 then dealloc_loop f pgdir (PGADDR (PDX a + 1) 0 0 - PGSIZE + PGSIZE) oldsz s
          else if load32 (mem s) pte AND PTE_P \<noteq> 0 then
            (let pa = PTE_ADDR (load32 (mem s) pte)
             in if pa = 0 then Panic ''kfree''
                else rbind (kfree (P2V pa) s) (\<lambda>s.
                  dealloc_loop f pgdir (a + PGSIZE) oldsz (s\<lparr>mem := store32 (mem s) pte 0\<rparr>)))
          else dealloc_loop f pgdir (a + PGSIZE) oldsz s)
      else Ok s)"

definition deallocuvm :: "u32 \<Rightarrow> u32 \<Rightarrow> u32 \<Rightarrow> 'a kmem_scheme \<Rightarrow> (cint \<times> 'a kmem_scheme) res" where
  "deallocuvm pgdir oldsz newsz s =
     (if newsz \<ge> oldsz then Ok (oldsz, s)
      else rbind (dealloc_loop (unat oldsz div 4096 + 2) pgdir (PGROUNDUP newsz) oldsz s) (\<lambda>s. Ok (newsz, s)))"

fun alloc_loop :: "nat \<Rightarrow> u32 \<Rightarrow> u32 \<Rightarrow> u32 \<Rightarrow> u32 \<Rightarrow> 'a kmem_scheme \<Rightarrow> (cint \<times> 'a kmem_scheme) res" where
  "alloc_loop 0 pgdir a oldsz newsz s = Blocked"
| "alloc_loop (Suc f) pgdir a oldsz newsz s =
     (if a < newsz then
        rbind (kalloc s) (\<lambda>(m, s).
          if m = 0 then
            rbind (cprintf ''allocuvm out of memory\<newline>'' (\<lambda>_. (0, [])) s) (\<lambda>s.
            rbind (deallocuvm pgdir newsz oldsz s) (\<lambda>(_, s). Ok (0, s)))
          else
            let s = s\<lparr>mem := memset (mem s) m 0 4096\<rparr>
            in rbind (mappages pgdir a PGSIZE (V2P m) (PTE_W OR PTE_U) s) (\<lambda>(r, s).
                 if r <s 0 then
                   rbind (cprintf ''allocuvm out of memory (2)\<newline>'' (\<lambda>_. (0, [])) s) (\<lambda>s.
                   rbind (deallocuvm pgdir newsz oldsz s) (\<lambda>(_, s).
                   rbind (kfree m s) (\<lambda>s. Ok (0, s))))
                 else alloc_loop f pgdir (a + PGSIZE) oldsz newsz s))
      else Ok (newsz, s))"

definition allocuvm :: "u32 \<Rightarrow> u32 \<Rightarrow> u32 \<Rightarrow> 'a kmem_scheme \<Rightarrow> (cint \<times> 'a kmem_scheme) res" where
  "allocuvm pgdir oldsz newsz s =
     (if newsz \<ge> KERNBASE then Ok (0, s)
      else if newsz < oldsz then Ok (oldsz, s)
      else alloc_loop (unat newsz div 4096 + 2) pgdir (PGROUNDUP oldsz) oldsz newsz s)"

fun free_tables :: "u32 \<Rightarrow> nat list \<Rightarrow> 'a kmem_scheme \<Rightarrow> 'a kmem_scheme res" where
  "free_tables pgdir [] s = Ok s"
| "free_tables pgdir (i # is) s =
     (let pde = load32 (mem s) (pgdir + 4 * of_nat i)
      in if pde AND PTE_P \<noteq> 0 then rbind (kfree (P2V (PTE_ADDR pde)) s) (free_tables pgdir is)
         else free_tables pgdir is s)"

definition freevm :: "u32 \<Rightarrow> 'a kmem_scheme \<Rightarrow> 'a kmem_scheme res" where
  "freevm pgdir s =
     (if pgdir = 0 then Panic ''freevm: no pgdir''
      else rbind (deallocuvm pgdir KERNBASE 0 s) (\<lambda>(_, s).
           rbind (free_tables pgdir [0..<NPDENTRIES] s) (kfree pgdir)))"

definition clearpteu :: "u32 \<Rightarrow> u32 \<Rightarrow> 'a kmem_scheme \<Rightarrow> 'a kmem_scheme res" where
  "clearpteu pgdir uva s =
     rbind (walkpgdir pgdir uva False s) (\<lambda>(pte, s).
       if pte = 0 then Panic ''clearpteu''
       else Ok (s\<lparr>mem := store32 (mem s) pte (load32 (mem s) pte AND NOT PTE_U)\<rparr>))"

fun copy_loop :: "nat \<Rightarrow> u32 \<Rightarrow> u32 \<Rightarrow> u32 \<Rightarrow> u32 \<Rightarrow> 'a kmem_scheme \<Rightarrow> (u32 \<times> 'a kmem_scheme) res" where
  "copy_loop 0 pgdir d i sz s = Blocked"
| "copy_loop (Suc f) pgdir d i sz s =
     (if i < sz then
        rbind (walkpgdir pgdir i False s) (\<lambda>(pte, s).
          if pte = 0 then Panic ''copyuvm: pte should exist''
          else if load32 (mem s) pte AND PTE_P = 0 then Panic ''copyuvm: page not present''
          else
            let pa = PTE_ADDR (load32 (mem s) pte); flags = PTE_FLAGS (load32 (mem s) pte)
            in rbind (kalloc s) (\<lambda>(m, s).
                 if m = 0 then rbind (freevm d s) (\<lambda>s. Ok (0, s))
                 else
                   let s = s\<lparr>mem := memmove (mem s) m (P2V pa) PGSIZE\<rparr>
                   in rbind (mappages d i PGSIZE (V2P m) flags s) (\<lambda>(r, s).
                        if r <s 0 then rbind (freevm d s) (\<lambda>s. Ok (0, s))
                        else copy_loop f pgdir d (i + PGSIZE) sz s)))
      else Ok (d, s))"

definition copyuvm :: "u32 \<Rightarrow> u32 \<Rightarrow> u32 \<Rightarrow> 'a kmem_scheme \<Rightarrow> (u32 \<times> 'a kmem_scheme) res" where
  "copyuvm kdata pgdir sz s =
     rbind (setupkvm kdata s) (\<lambda>(d, s).
       if d = 0 then Ok (0, s) else copy_loop (unat sz div 4096 + 2) pgdir d 0 sz s)"

text \<open>\<open>uva2ka\<close> reads the entry without testing for a null pointer.\<close>

definition uva2ka :: "u32 \<Rightarrow> u32 \<Rightarrow> 'a kmem_scheme \<Rightarrow> u32 res" where
  "uva2ka pgdir uva s =
     rbind (walkpgdir pgdir uva False s) (\<lambda>(pte, s).
       if pte = 0 then Panic ''trap''
       else let e = load32 (mem s) pte
            in if e AND PTE_P = 0 then Ok 0
               else if e AND PTE_U = 0 then Ok 0
               else Ok (P2V (PTE_ADDR e)))"

text \<open>The bytes that \<open>memmove\<close> takes from another address space or from a file, as a list.\<close>

fun store_bytes :: "memory \<Rightarrow> u32 \<Rightarrow> u8 list \<Rightarrow> memory" where
  "store_bytes m a [] = m"
| "store_bytes m a (b # bs) = store_bytes (m(a := b)) (a + 1) bs"

fun copyout_loop :: "nat \<Rightarrow> u32 \<Rightarrow> u32 \<Rightarrow> u8 list \<Rightarrow> u32 \<Rightarrow> 'a kmem_scheme \<Rightarrow> (cint \<times> 'a kmem_scheme) res" where
  "copyout_loop 0 pgdir vaddr buf len s = Blocked"
| "copyout_loop (Suc f) pgdir vaddr buf len s =
     (if len > 0 then
        (let va0 = PGROUNDDOWN vaddr
         in rbind (uva2ka pgdir va0 s) (\<lambda>pa0.
              if pa0 = 0 then Ok (-1, s)
              else let n = PGSIZE - (vaddr - va0);
                       n = (if n > len then len else n);
                       s = s\<lparr>mem := store_bytes (mem s) (pa0 + (vaddr - va0)) (take (unat n) buf)\<rparr>
                   in copyout_loop f pgdir (va0 + PGSIZE) (drop (unat n) buf) (len - n) s))
      else Ok (0, s))"

definition copyout :: "u32 \<Rightarrow> u32 \<Rightarrow> u8 list \<Rightarrow> u32 \<Rightarrow> 'a kmem_scheme \<Rightarrow> (cint \<times> 'a kmem_scheme) res" where
  "copyout pgdir vaddr p len s = copyout_loop (unat len div 4096 + 3) pgdir vaddr p len s"

section \<open>Words in pages\<close>

lemma page_offset_eq:
  assumes "page_aligned x" "page_aligned y" "k < 4096" "l < 4096" "x + of_nat k = y + of_nat l"
  shows "x = y \<and> k = l"
proof -
  have u: "unat x + k = unat y + l" using page_plus(1) [OF assms(1,3)] page_plus(1) [OF assms(2,4)] assms(5) by simp
  have "4096 * (unat x div 4096) = unat x" "4096 * (unat y div 4096) = unat y"
    using assms(1,2) by (simp_all add: page_unat mod_0_mult)
  with u assms(3,4) have "unat x div 4096 = unat y div 4096" by linarith
  with u \<open>4096 * (unat x div 4096) = unat x\<close> \<open>4096 * (unat y div 4096) = unat y\<close> have "unat x = unat y" "k = l" by linarith+
  then show ?thesis by (simp add: word_unat_eq_iff)
qed

lemma page_offset_outside:
  assumes "page_aligned v" "page_aligned x" "x \<noteq> v" "k < 4096"
  shows "\<not> in_range v 4096 (x + of_nat k)"
proof
  assume "in_range v 4096 (x + of_nat k)"
  then have l: "unat (x + of_nat k - v) < 4096" by (simp add: in_range_def)
  have "x + of_nat k = v + of_nat (unat (x + of_nat k - v))" by simp
  from page_offset_eq [OF assms(2,1,4) l this] assms(3) show False by simp
qed

text \<open>Entry \<open>j\<close> of a page, and its contents after writes elsewhere.\<close>

definition ent :: "u32 \<Rightarrow> nat \<Rightarrow> u32" where
  "ent x j = x + of_nat (4 * j)"

lemma ent_aligned: "page_aligned x \<Longrightarrow> j < 1024 \<Longrightarrow> aligned4 (ent x j)"
  unfolding ent_def by (rule page_plus_aligned4) simp_all

lemma ent_in_page: "page_aligned x \<Longrightarrow> j < 1024 \<Longrightarrow> in_range x 4096 (ent x j)"
  unfolding ent_def by (rule page_plus(2)) simp_all

lemma load_store_ent:
  assumes "page_aligned x" "page_aligned y" "j < 1024" "l < 1024" "x \<noteq> y \<or> j \<noteq> l"
  shows "load32 (store32 m (ent y l) v) (ent x j) = load32 m (ent x j)"
proof (rule load32_store32_diff)
  show "ent y l \<noteq> ent x j"
    using page_offset_eq [OF assms(2,1), of "4 * l" "4 * j"] assms(3-5) unfolding ent_def by auto
qed (use assms ent_aligned in blast)+

lemma load_memset_ent:
  assumes "page_aligned x" "page_aligned v" "x \<noteq> v" "j < 1024"
  shows "load32 (memset m v c 4096) (ent x j) = load32 m (ent x j)"
proof (rule load32_cong)
  fix i assume "i < (4 :: nat)"
  then have "\<not> in_range v 4096 (x + of_nat (4 * j + i))" using assms by (intro page_offset_outside) simp_all
  then show "memset m v c 4096 (ent x j + of_nat i) = m (ent x j + of_nat i)"
    by (simp add: memset_eq ent_def ac_simps)
qed

lemma load_memset_0:
  assumes "page_aligned v" "j < 1024"
  shows "load32 (memset m v 0 4096) (ent v j) = 0"
proof -
  have "load32 (memset m v 0 4096) (ent v j) = load32 (\<lambda>_. 0) (ent v j)"
  proof (rule load32_cong)
    fix i assume "i < (4 :: nat)"
    then have "in_range v 4096 (v + of_nat (4 * j + i))" using assms by (intro page_plus) simp_all
    then show "memset m v 0 4096 (ent v j + of_nat i) = 0" by (simp add: memset_eq ent_def ac_simps)
  qed
  then show ?thesis by (simp add: load32_def)
qed

section \<open>The mapping that a page table represents\<close>

definition dent :: "memory \<Rightarrow> u32 \<Rightarrow> nat \<Rightarrow> u32" where
  "dent m pgdir i = load32 m (ent pgdir i)"

definition tbl :: "memory \<Rightarrow> u32 \<Rightarrow> nat \<Rightarrow> u32" where
  "tbl m pgdir i = P2V (PTE_ADDR (dent m pgdir i))"

definition pdeP :: "memory \<Rightarrow> u32 \<Rightarrow> nat \<Rightarrow> bool" where
  "pdeP m pgdir i \<longleftrightarrow> dent m pgdir i AND PTE_P \<noteq> 0"

text \<open>The entry for virtual page \<open>p\<close>, when it is present.\<close>

definition pt :: "memory \<Rightarrow> u32 \<Rightarrow> nat \<Rightarrow> u32 option" where
  "pt m pgdir p =
     (if pdeP m pgdir (p div 1024)
      then let e = load32 m (ent (tbl m pgdir (p div 1024)) (p mod 1024))
           in if e AND PTE_P \<noteq> 0 then Some e else None
      else None)"

definition pgno :: "u32 \<Rightarrow> nat" where
  "pgno a = unat a div 4096"

text \<open>The directory and its tables are separate pages, none of them free.\<close>

definition pt_inv :: "u32 \<Rightarrow> 'a kmem_scheme \<Rightarrow> bool" where
  "pt_inv pgdir s \<longleftrightarrow> kmem_inv s \<and> page_aligned pgdir \<and> pgdir \<notin> free_pages s \<and>
     (\<forall>i<1024. pdeP (mem s) pgdir i \<longrightarrow>
        tbl (mem s) pgdir i \<noteq> 0 \<and> tbl (mem s) pgdir i \<noteq> pgdir \<and> tbl (mem s) pgdir i \<notin> free_pages s \<and>
        (\<forall>j<1024. pdeP (mem s) pgdir j \<longrightarrow> tbl (mem s) pgdir j = tbl (mem s) pgdir i \<longrightarrow> j = i))"

lemma PDX_eq: "x + 4 * PDX a = ent x (pgno a div 1024)" "pgno a div 1024 < 1024"
proof -
  have lt: "unat a div 4194304 < 1024" using unat_u32 [of a] by (simp add: div_less_iff_less_mult)
  then show "pgno a div 1024 < 1024" by (simp add: pgno_def div_mult2_eq [symmetric])
  have "drop_bit 22 a AND 0x3FF = take_bit 10 (drop_bit 22 a)"
    by (simp add: take_bit_eq_mask mask_eq_exp_minus_1)
  then have "unat (PDX a) = unat a div 4194304"
    using lt by (simp add: PDX_def drop_bit_eq_div take_bit_eq_mod unat_mod unat_div)
  from arg_cong [OF this, of "of_nat :: nat \<Rightarrow> u32"] have "PDX a = of_nat (unat a div 4194304)" by simp
  then show "x + 4 * PDX a = ent x (pgno a div 1024)" by (simp add: ent_def pgno_def div_mult2_eq [symmetric])
qed

lemma PTX_eq: "x + 4 * PTX a = ent x (pgno a mod 1024)"
proof -
  have "drop_bit 12 a AND 0x3FF = take_bit 10 (drop_bit 12 a)"
    by (simp add: take_bit_eq_mask mask_eq_exp_minus_1)
  then have "unat (PTX a) = unat a div 4096 mod 1024"
    by (simp add: PTX_def drop_bit_eq_div take_bit_eq_mod unat_mod unat_div)
  from arg_cong [OF this, of "of_nat :: nat \<Rightarrow> u32"] have "PTX a = of_nat (unat a div 4096 mod 1024)" by simp
  then show ?thesis by (simp add: ent_def pgno_def)
qed

lemma PTE_ADDR_aligned: "page_aligned (PTE_ADDR e)"
proof -
  have "PTE_ADDR e = PGROUNDDOWN e" by (simp add: PTE_ADDR_def PGROUNDDOWN_def PGSIZE_def)
  then show ?thesis by (simp add: page_unat unat_PGROUNDDOWN)
qed

lemma P2V_aligned: "page_aligned (P2V a) = page_aligned a"
proof -
  have "unat (P2V a) mod 4096 = (unat a + 2147483648) mod 4294967296 mod 4096"
    by (simp add: P2V_def KERNBASE_def unat_word_ariths)
  also have "\<dots> = (unat a + 2147483648) mod 4096" by (rule mod_mod_cancel) simp
  also have "\<dots> = unat a mod 4096" using mod_add_right_eq [of "unat a" 2147483648 4096] by simp
  finally show ?thesis by (simp add: page_unat)
qed

lemma tbl_aligned: "page_aligned (tbl m pgdir i)"
  by (simp add: tbl_def P2V_aligned PTE_ADDR_aligned)

lemma V2P_P2V [simp]: "P2V (V2P x) = x" "V2P (P2V x) = x"
  by (simp_all add: P2V_def V2P_def)

lemma V2P_aligned: "page_aligned (V2P a) = page_aligned a"
  using P2V_aligned [of "V2P a"] by simp

lemma PTE_ADDR_OR:
  assumes "page_aligned x" "f AND NOT 0xFFF = 0"
  shows "PTE_ADDR (x OR f) = x"
proof -
  have "unat (PGROUNDDOWN x) = unat x" using assms(1) by (simp add: unat_PGROUNDDOWN page_unat mod_0_mult)
  then have "x AND NOT 0xFFF = x" by (simp add: word_unat_eq_iff PGROUNDDOWN_def PGSIZE_def)
  then show ?thesis using assms(2) by (simp add: PTE_ADDR_def bit.conj_disj_distrib2)
qed

lemma store_ent_outside: "page_aligned x \<Longrightarrow> j < 1024 \<Longrightarrow> \<not> in_range x 4096 b \<Longrightarrow> store32 m (ent x j) v b = m b"
proof -
  assume a: "page_aligned x" "j < 1024" "\<not> in_range x 4096 b"
  have "in_range x 4096 (ent x j + of_nat i)" if "i < 4" for i
    using page_plus(2) [OF a(1), of "4 * j + i"] a(2) that by (simp add: ent_def ac_simps)
  from this [of 0] this [of 1] this [of 2] this [of 3] a(3)
  have "b \<noteq> ent x j" "b \<noteq> ent x j + 1" "b \<noteq> ent x j + 2" "b \<noteq> ent x j + 3" by auto
  then show ?thesis by (simp add: store32_def)
qed

lemma pt_invD:
  assumes "pt_inv pgdir s"
  shows "kmem_inv s" "page_aligned pgdir" "pgdir \<notin> free_pages s"
    "\<And>i. i < 1024 \<Longrightarrow> pdeP (mem s) pgdir i \<Longrightarrow> tbl (mem s) pgdir i \<noteq> 0"
    "\<And>i. i < 1024 \<Longrightarrow> pdeP (mem s) pgdir i \<Longrightarrow> tbl (mem s) pgdir i \<noteq> pgdir"
    "\<And>i. i < 1024 \<Longrightarrow> pdeP (mem s) pgdir i \<Longrightarrow> tbl (mem s) pgdir i \<notin> free_pages s"
    "\<And>i j. i < 1024 \<Longrightarrow> pdeP (mem s) pgdir i \<Longrightarrow> j < 1024 \<Longrightarrow> pdeP (mem s) pgdir j \<Longrightarrow>
      tbl (mem s) pgdir j = tbl (mem s) pgdir i \<Longrightarrow> j = i"
  using assms unfolding pt_inv_def by blast+

lemma kalloc_facts:
  assumes "kmem_inv s"
  shows "\<exists>r s'. kalloc s = Ok (r, s') \<and> kmem_inv s' \<and> mem s' = mem s \<and>
    (if r = 0 then free_pages s = {} \<and> free_pages s' = {}
     else r \<in> free_pages s \<and> free_pages s' = free_pages s - {r} \<and> page_aligned r)"
proof -
  obtain r s' where a: "kalloc s = Ok (r, s')" "kmem_inv s'"
    "if free_pages s = {} then r = 0 \<and> free_pages s' = {} else r \<in> free_pages s \<and> free_pages s' = free_pages s - {r}"
    using kpages.alloc_spec [OF assms] by blast
  have "mem s' = mem s" using a(1) kalloc_eq [of s] assms by (auto simp: kmem_inv_def)
  moreover have "r \<noteq> 0 \<and> page_aligned r" if "r \<in> free_pages s" using kpages.pages_valid [OF assms that] by (simp add: page_ok_def)
  ultimately show ?thesis using a by (auto split: if_splits)
qed

text \<open>Finding an entry in an existing table.\<close>

lemma walk_present:
  "pdeP (mem s) pgdir (pgno a div 1024) \<Longrightarrow>
   walkpgdir pgdir a alloc s = Ok (ent (tbl (mem s) pgdir (pgno a div 1024)) (pgno a mod 1024), s)"
  by (simp add: walkpgdir_def PDX_eq PTX_eq pdeP_def tbl_def dent_def Let_def)

lemma walk_absent:
  "\<not> pdeP (mem s) pgdir (pgno a div 1024) \<Longrightarrow> walkpgdir pgdir a False s = Ok (0, s)"
  by (simp add: walkpgdir_def PDX_eq pdeP_def dent_def Let_def)

lemma ent_nonzero: "page_aligned x \<Longrightarrow> x \<noteq> 0 \<Longrightarrow> j < 1024 \<Longrightarrow> ent x j \<noteq> 0"
  using page_offset_eq [of x 0 "4 * j" 0] by (auto simp: ent_def page_aligned_def)

text \<open>Writing an entry of a table.\<close>

lemma dent_store_table:
  assumes inv: "pt_inv pgdir s" and i: "i < 1024" "pdeP (mem s) pgdir i" "j < 1024" and k: "k < 1024"
  shows "dent (store32 (mem s) (ent (tbl (mem s) pgdir i) j) v) pgdir k = dent (mem s) pgdir k"
  unfolding dent_def using pt_invD(2) [OF inv] pt_invD(5) [OF inv i(1,2)] i k
  by (intro load_store_ent) (simp_all add: tbl_aligned)

lemma pt_store:
  fixes v :: u32
  assumes inv: "pt_inv pgdir s" and i: "i < 1024" "pdeP (mem s) pgdir i" "j < 1024"
  defines "t \<equiv> s\<lparr>mem := store32 (mem s) (ent (tbl (mem s) pgdir i) j) v\<rparr>"
  shows "pt_inv pgdir t" "free_pages t = free_pages s"
    "p < 1048576 \<Longrightarrow> pt (mem t) pgdir p =
      (if p = i * 1024 + j then if v AND PTE_P \<noteq> 0 then Some v else None else pt (mem s) pgdir p)"
proof -
  let ?T = "tbl (mem s) pgdir i"
  note I = pt_invD [OF inv]
  have d: "dent (mem t) pgdir k = dent (mem s) pgdir k" if "k < 1024" for k
    using dent_store_table [OF inv i that] by (simp add: t_def)
  then have P: "pdeP (mem t) pgdir k = pdeP (mem s) pgdir k" "tbl (mem t) pgdir k = tbl (mem s) pgdir k" if "k < 1024" for k
    using that by (simp_all add: pdeP_def tbl_def)
  have out: "store32 (mem s) (ent ?T j) v b = mem s b" if "\<not> in_range ?T 4096 b" for b
    by (rule store_ent_outside [OF tbl_aligned i(3) that])
  note W = kmem_inv_write_page [OF I(1) tbl_aligned I(6) [OF i(1,2)], of "store32 (mem s) (ent ?T j) v", OF out]
  show f: "free_pages t = free_pages s" unfolding t_def by (rule W(2))
  show "pt_inv pgdir t"
    unfolding pt_inv_def f using W(1) I by (auto simp: P t_def [symmetric])
  show "pt (mem t) pgdir p = (if p = i * 1024 + j then if v AND PTE_P \<noteq> 0 then Some v else None else pt (mem s) pgdir p)"
    if p: "p < 1048576"
  proof -
    have k: "p div 1024 < 1024" "p mod 1024 < 1024" using p by (simp_all add: div_less_iff_less_mult)
    have e: "load32 (mem t) (ent (tbl (mem s) pgdir (p div 1024)) (p mod 1024)) =
      (if p = i * 1024 + j then v else load32 (mem s) (ent (tbl (mem s) pgdir (p div 1024)) (p mod 1024)))"
      if pd: "pdeP (mem s) pgdir (p div 1024)"
    proof (cases "p = i * 1024 + j")
      case True
      then have "p div 1024 = i" "p mod 1024 = j" using i(3) by simp_all
      then show ?thesis using True by (simp add: t_def)
    next
      case False
      have "tbl (mem s) pgdir (p div 1024) \<noteq> ?T \<or> p mod 1024 \<noteq> j"
        using I(7) [OF i(1,2) k(1) pd] False div_mult_mod_eq [of p 1024] by auto
      then show ?thesis using False k(2) i(3) unfolding t_def by (simp add: load_store_ent tbl_aligned)
    qed
    show ?thesis
    proof (cases "pdeP (mem s) pgdir (p div 1024)")
      case True
      then show ?thesis using e by (simp add: pt_def P [OF k(1)] Let_def)
    next
      case False
      then have "p \<noteq> i * 1024 + j" using i(2,3) by auto
      then show ?thesis using False by (simp add: pt_def P [OF k(1)])
    qed
  qed
qed

lemma pgno_less: "pgno a < 1048576"
  using unsigned_less [of a, where ?'a = nat] by (simp add: pgno_def div_less_iff_less_mult)

lemma pgno_next: "pgno a + 1 < 1048576 \<Longrightarrow> pgno (a + PGSIZE) = Suc (pgno a)"
proof -
  assume "pgno a + 1 < 1048576"
  then have "unat a div 4096 < 1048575" unfolding pgno_def by linarith
  then have a: "unat a < 4294963200" by (simp add: div_less_iff_less_mult)
  have "unat (a + 4096) = (unat a + 4096) mod 4294967296" by (simp add: unat_word_ariths)
  also have "\<dots> = unat a + 4096" using a by (intro mod_less) linarith
  finally have "unat (a + 4096) = unat a + 4096" .
  then show ?thesis by (simp add: pgno_def PGSIZE_def)
qed

lemma pgno_span:
  fixes a lst :: u32
  assumes l: "lst = a + of_nat (4096 * n)" and n: "0 < n" "n < 1048576"
  shows "a \<noteq> lst"
proof
  assume "a = lst"
  then have "a + of_nat (4096 * n) = a + 0" using l by (simp only: add_0_right)
  then have z: "(of_nat (4096 * n) :: u32) = 0" by (simp only: add_left_cancel)
  have "4096 * n < 4294967296" using n(2) by linarith
  then have "unat (of_nat (4096 * n) :: u32) = 4096 * n" by (rule unat_of_nat_u32)
  then show False using n(1) unfolding z by simp
qed

text \<open>A new, empty table for directory entry \<open>i\<close>.\<close>

lemma pt_new_table:
  assumes inv: "pt_inv pgdir s" and i: "i < 1024" "\<not> pdeP (mem s) pgdir i"
    and s1: "kmem_inv s1" "mem s1 = mem s" "free_pages s1 = free_pages s - {r}"
    and r: "r \<in> free_pages s" "page_aligned r" "r \<noteq> 0"
  defines "e \<equiv> V2P r OR PTE_P OR PTE_W OR PTE_U"
  defines "t \<equiv> s1\<lparr>mem := store32 (memset (mem s) r 0 4096) (ent pgdir i) e\<rparr>"
  shows "pt_inv pgdir t" "free_pages t = free_pages s - {r}" "pdeP (mem t) pgdir i" "tbl (mem t) pgdir i = r"
    "p < 1048576 \<Longrightarrow> pt (mem t) pgdir p = pt (mem s) pgdir p"
proof -
  note I = pt_invD [OF inv]
  let ?m = "memset (mem s) r 0 4096"
  have rp: "r \<noteq> pgdir" using r(1) I(3) by auto
  have ea: "PTE_ADDR e = V2P r"
    using PTE_ADDR_OR [of "V2P r" "PTE_P OR PTE_W OR PTE_U"] r(2)
    by (simp add: e_def V2P_aligned PTE_P_def PTE_W_def PTE_U_def or.assoc)
  have ep: "e AND PTE_P \<noteq> 0"
  proof
    assume "e AND PTE_P = 0"
    then have "\<not> bit (e AND PTE_P) 0" by simp
    then show False by (simp add: e_def PTE_P_def bit_simps)
  qed
  have d: "dent (mem t) pgdir k = (if k = i then e else dent (mem s) pgdir k)" if "k < 1024" for k
    using that i(1) I(2) r(2) rp load_memset_ent [OF I(2) r(2) _ that, of "mem s" 0]
      load_store_ent [OF I(2) I(2) that i(1), of ?m e]
    by (auto simp: dent_def t_def)
  then have P: "pdeP (mem t) pgdir k = (k = i \<or> pdeP (mem s) pgdir k)" "tbl (mem t) pgdir k = (if k = i then r else tbl (mem s) pgdir k)"
    if "k < 1024" for k using that ep ea by (auto simp: pdeP_def tbl_def)
  show "pdeP (mem t) pgdir i" "tbl (mem t) pgdir i = r" using P [OF i(1)] by simp_all
  have W1: "kmem_inv (s1\<lparr>mem := ?m\<rparr>)" "free_pages (s1\<lparr>mem := ?m\<rparr>) = free_pages s - {r}"
    using kmem_inv_write_page [OF s1(1) r(2), of ?m] s1(2,3) by (simp_all add: memset_eq)
  have out: "store32 ?m (ent pgdir i) e b = mem (s1\<lparr>mem := ?m\<rparr>) b" if "\<not> in_range pgdir 4096 b" for b
    using store_ent_outside [OF I(2) i(1) that] by simp
  have pf: "pgdir \<notin> free_pages (s1\<lparr>mem := ?m\<rparr>)" using W1(2) I(3) by simp
  note W2 = kmem_inv_write_page [OF W1(1) I(2) pf out]
  have W3: "kmem_inv t" "free_pages t = free_pages s - {r}" using W2 W1(2) by (simp_all add: t_def)
  then show "free_pages t = free_pages s - {r}" by blast
  have T: "tbl (mem s) pgdir k \<noteq> r" if "k < 1024" "pdeP (mem s) pgdir k" for k using I(6) [OF that] r(1) by auto
  show "pt_inv pgdir t"
    unfolding pt_inv_def W3(2)
  proof (intro conjI allI impI)
    fix k assume k: "k < 1024" "pdeP (mem t) pgdir k"
    show "tbl (mem t) pgdir k \<noteq> 0" "tbl (mem t) pgdir k \<noteq> pgdir" "tbl (mem t) pgdir k \<notin> free_pages s - {r}"
      using P [OF k(1)] k r(3) rp I(4-6) [OF k(1)] by auto
    show "j = k" if "j < 1024" "pdeP (mem t) pgdir j" "tbl (mem t) pgdir j = tbl (mem t) pgdir k" for j
    proof (cases "j = i \<or> k = i")
      case True
      then show ?thesis using P [OF k(1)] P [OF that(1)] k(2) that(2,3) T [OF k(1)] T [OF that(1)] by (auto split: if_splits)
    next
      case False
      then have d: "pdeP (mem s) pgdir k" "pdeP (mem s) pgdir j" using P(1) [OF k(1)] P(1) [OF that(1)] k(2) that(2) by simp_all
      have "tbl (mem s) pgdir j = tbl (mem s) pgdir k" using False P(2) [OF k(1)] P(2) [OF that(1)] that(3) by simp
      then show ?thesis by (rule I(7) [OF k(1) d(1) that(1) d(2)])
    qed
  qed (use W3(1) I(2,3) in simp_all)
  show "pt (mem t) pgdir p = pt (mem s) pgdir p" if p: "p < 1048576"
  proof -
    have k: "p div 1024 < 1024" "p mod 1024 < 1024" using p by (simp_all add: div_less_iff_less_mult)
    show ?thesis
    proof (cases "p div 1024 = i")
      case True
      have "load32 (mem t) (ent r (p mod 1024)) = 0"
        using load_memset_0 [OF r(2) k(2), of "mem s"] load_store_ent [OF r(2) I(2) k(2) i(1), of ?m e] rp by (simp add: t_def)
      then show ?thesis using True i(2) P [OF i(1)] by (simp add: pt_def)
    next
      case False
      let ?T = "tbl (mem s) pgdir (p div 1024)"
      have "load32 (mem t) (ent ?T (p mod 1024)) = load32 (mem s) (ent ?T (p mod 1024))"
        if "pdeP (mem s) pgdir (p div 1024)"
        using load_memset_ent [OF tbl_aligned r(2) T [OF k(1) that] k(2)] I(5) [OF k(1) that]
          load_store_ent [OF tbl_aligned I(2) k(2) i(1), of "mem s" pgdir "p div 1024" ?m e] by (simp add: t_def)
      then show ?thesis using False P [OF k(1)] by (simp add: pt_def Let_def)
    qed
  qed
qed

lemma walk_alloc:
  assumes inv: "pt_inv pgdir s"
  shows "\<exists>r t. walkpgdir pgdir a True s = Ok (r, t) \<and> pt_inv pgdir t \<and> free_pages t \<subseteq> free_pages s \<and>
    (\<forall>p<1048576. pt (mem t) pgdir p = pt (mem s) pgdir p) \<and>
    (if r = 0 then free_pages s = {}
     else pdeP (mem t) pgdir (pgno a div 1024) \<and> r = ent (tbl (mem t) pgdir (pgno a div 1024)) (pgno a mod 1024))"
proof (cases "pdeP (mem s) pgdir (pgno a div 1024)")
  case True
  have "ent (tbl (mem s) pgdir (pgno a div 1024)) (pgno a mod 1024) \<noteq> 0"
    using pt_invD(4) [OF inv PDX_eq(2) True] by (intro ent_nonzero) (simp_all add: tbl_aligned)
  then show ?thesis using walk_present [OF True] inv True by auto
next
  case False
  obtain r s1 where k: "kalloc s = Ok (r, s1)" "kmem_inv s1" "mem s1 = mem s"
    "if r = 0 then free_pages s = {} \<and> free_pages s1 = {}
     else r \<in> free_pages s \<and> free_pages s1 = free_pages s - {r} \<and> page_aligned r"
    using kalloc_facts [OF pt_invD(1) [OF inv]] by blast
  have w: "walkpgdir pgdir a True s = (if r = 0 then Ok (0, s1) else Ok (ent r (pgno a mod 1024),
      s1\<lparr>mem := store32 (memset (mem s) r 0 4096) (ent pgdir (pgno a div 1024)) (V2P r OR PTE_P OR PTE_W OR PTE_U)\<rparr>))"
    using False k(1,3) by (simp add: walkpgdir_def PDX_eq PTX_eq pdeP_def dent_def Let_def)
  show ?thesis
  proof (cases "r = 0")
    case True
    then have "pt_inv pgdir s1" using inv k unfolding pt_inv_def by auto
    then show ?thesis using True w k by auto
  next
    case r: False
    then have rf: "r \<in> free_pages s" "free_pages s1 = free_pages s - {r}" "page_aligned r" using k(4) by simp_all
    note N = pt_new_table [OF inv PDX_eq(2) False k(2,3) rf(2,1,3) r]
    have "ent r (pgno a mod 1024) \<noteq> 0" using r rf(3) by (intro ent_nonzero) simp_all
    then show ?thesis using w r N by auto
  qed
qed

section \<open>mappages refines the update of a map\<close>

text \<open>The abstract operation: \<open>n + 1\<close> virtual pages from \<open>k\<close> on to the physical pages from \<open>pa\<close> on.\<close>

definition map_range :: "nat \<Rightarrow> nat \<Rightarrow> u32 \<Rightarrow> u32 \<Rightarrow> (nat \<Rightarrow> u32 option) \<Rightarrow> nat \<Rightarrow> u32 option" where
  "map_range k n pa perm f p =
     (if k \<le> p \<and> p \<le> k + n then Some ((pa + of_nat (4096 * (p - k))) OR perm OR PTE_P) else f p)"

lemma map_range_0: "map_range k 0 pa perm f = f(k := Some (pa OR perm OR PTE_P))"
  by (auto simp: map_range_def fun_eq_iff)

lemma map_range_Suc: "map_range k (Suc n) pa perm f = map_range (Suc k) n (pa + PGSIZE) perm (f(k := Some (pa OR perm OR PTE_P)))"
proof
  fix p
  have e: "pa + of_nat (4096 * (p - k)) = pa + PGSIZE + of_nat (4096 * (p - Suc k))" if "Suc k \<le> p"
  proof -
    have "4096 * (p - k) = 4096 + 4096 * (p - Suc k)" using that by simp
    then show ?thesis unfolding PGSIZE_def by (simp only: of_nat_add of_nat_numeral add.assoc)
  qed
  show "map_range k (Suc n) pa perm f p = map_range (Suc k) n (pa + PGSIZE) perm (f(k := Some (pa OR perm OR PTE_P))) p"
  proof (cases "Suc k \<le> p")
    case True
    then show ?thesis unfolding map_range_def e [OF True] by auto
  next
    case False
    then show ?thesis by (auto simp: map_range_def)
  qed
qed

lemma map_range_agree: "(\<forall>p<N. f p = g p) \<Longrightarrow> p < N \<Longrightarrow> map_range k n pa perm f p = map_range k n pa perm g p"
  by (simp add: map_range_def)


lemma map_step:
  assumes inv: "pt_inv pgdir s" and none: "pt (mem s) pgdir (pgno a) = None" and v: "v AND PTE_P \<noteq> 0"
  shows "\<exists>r t. walkpgdir pgdir a True s = Ok (r, t) \<and>
    (if r = 0 then free_pages s = {} \<and> pt_inv pgdir t \<and> free_pages t \<subseteq> free_pages s \<and>
        (\<forall>p<1048576. pt (mem t) pgdir p = pt (mem s) pgdir p)
     else load32 (mem t) r AND PTE_P = 0 \<and>
        pt_inv pgdir (t\<lparr>mem := store32 (mem t) r v\<rparr>) \<and> free_pages (t\<lparr>mem := store32 (mem t) r v\<rparr>) \<subseteq> free_pages s \<and>
        (\<forall>p<1048576. pt (store32 (mem t) r v) pgdir p = ((pt (mem s) pgdir)(pgno a := Some v)) p))"
proof -
  obtain r t where w: "walkpgdir pgdir a True s = Ok (r, t)" "pt_inv pgdir t" "free_pages t \<subseteq> free_pages s"
    "\<forall>p<1048576. pt (mem t) pgdir p = pt (mem s) pgdir p"
    "if r = 0 then free_pages s = {}
     else pdeP (mem t) pgdir (pgno a div 1024) \<and> r = ent (tbl (mem t) pgdir (pgno a div 1024)) (pgno a mod 1024)"
    using walk_alloc [OF inv, of a] by blast
  show ?thesis
  proof (cases "r = 0")
    case True
    then show ?thesis using w by auto
  next
    case False
    then have r: "pdeP (mem t) pgdir (pgno a div 1024)" "r = ent (tbl (mem t) pgdir (pgno a div 1024)) (pgno a mod 1024)"
      using w(5) by simp_all
    have m: "pgno a mod 1024 < 1024" and n: "pgno a < 1048576" using pgno_less by simp_all
    note S = pt_store [OF w(2) PDX_eq(2) r(1) m, where v = v, folded r(2)]
    have "pt (mem t) pgdir (pgno a) = None" using w(4) none n by simp
    then have "load32 (mem t) r AND PTE_P = 0" using r by (simp add: pt_def Let_def split: if_splits)
    moreover have "pgno a div 1024 * 1024 + pgno a mod 1024 = pgno a" by simp
    ultimately show ?thesis using False w(1,3,4) S v by (simp del: div_mult_mod_eq)
  qed
qed

lemma or_present: "((pa :: u32) OR perm OR PTE_P) AND PTE_P \<noteq> 0"
proof
  assume "(pa OR perm OR PTE_P) AND PTE_P = 0"
  then have "\<not> bit ((pa OR perm OR PTE_P) AND PTE_P) 0" by simp
  then show False by (simp add: PTE_P_def bit_simps)
qed

lemma map_loop_refines:
  assumes "pt_inv pgdir s" "lst = a + of_nat (4096 * n)" "pgno a + n < 1048576"
    "\<forall>p. pgno a \<le> p \<and> p \<le> pgno a + n \<longrightarrow> pt (mem s) pgdir p = None"
  shows "\<exists>r t. map_loop (Suc n) pgdir a lst pa perm s = Ok (r, t) \<and> pt_inv pgdir t \<and> free_pages t \<subseteq> free_pages s \<and>
    (r = 0 \<and> (\<forall>p<1048576. pt (mem t) pgdir p = map_range (pgno a) n pa perm (pt (mem s) pgdir) p) \<or>
     r = -1 \<and> free_pages t = {} \<and>
       (\<forall>p<1048576. \<not> (pgno a \<le> p \<and> p \<le> pgno a + n) \<longrightarrow> pt (mem t) pgdir p = pt (mem s) pgdir p))"
  using assms
proof (induction n arbitrary: a pa s)
  case 0
  from 0(4) have none: "pt (mem s) pgdir (pgno a) = None" by simp
  from map_step [OF 0(1) none or_present [of pa perm]] obtain r t where
    w: "walkpgdir pgdir a True s = Ok (r, t)" "if r = 0 then free_pages s = {} \<and> pt_inv pgdir t \<and> free_pages t \<subseteq> free_pages s \<and>
        (\<forall>p<1048576. pt (mem t) pgdir p = pt (mem s) pgdir p)
     else load32 (mem t) r AND PTE_P = 0 \<and>
        pt_inv pgdir (t\<lparr>mem := store32 (mem t) r (pa OR perm OR PTE_P)\<rparr>) \<and>
        free_pages (t\<lparr>mem := store32 (mem t) r (pa OR perm OR PTE_P)\<rparr>) \<subseteq> free_pages s \<and>
        (\<forall>p<1048576. pt (store32 (mem t) r (pa OR perm OR PTE_P)) pgdir p =
          ((pt (mem s) pgdir)(pgno a := Some (pa OR perm OR PTE_P))) p)" by blast
  show ?case
  proof (cases "r = 0")
    case True
    then show ?thesis using w by auto
  next
    case False
    then show ?thesis using w 0(2) by (simp add: map_range_0)
  qed
next
  case (Suc n)
  from Suc.prems(4) have none: "pt (mem s) pgdir (pgno a) = None" by simp
  from map_step [OF Suc.prems(1) none or_present [of pa perm]] obtain r t where
    w: "walkpgdir pgdir a True s = Ok (r, t)" "if r = 0 then free_pages s = {} \<and> pt_inv pgdir t \<and> free_pages t \<subseteq> free_pages s \<and>
        (\<forall>p<1048576. pt (mem t) pgdir p = pt (mem s) pgdir p)
     else load32 (mem t) r AND PTE_P = 0 \<and>
        pt_inv pgdir (t\<lparr>mem := store32 (mem t) r (pa OR perm OR PTE_P)\<rparr>) \<and>
        free_pages (t\<lparr>mem := store32 (mem t) r (pa OR perm OR PTE_P)\<rparr>) \<subseteq> free_pages s \<and>
        (\<forall>p<1048576. pt (store32 (mem t) r (pa OR perm OR PTE_P)) pgdir p =
          ((pt (mem s) pgdir)(pgno a := Some (pa OR perm OR PTE_P))) p)" by blast
  show ?case
  proof (cases "r = 0")
    case True
    then show ?thesis using w by auto
  next
    case False
    define u where "u = t\<lparr>mem := store32 (mem t) r (pa OR perm OR PTE_P)\<rparr>"
    have u: "load32 (mem t) r AND PTE_P = 0" "pt_inv pgdir u" "free_pages u \<subseteq> free_pages s"
      "\<forall>p<1048576. pt (mem u) pgdir p = ((pt (mem s) pgdir)(pgno a := Some (pa OR perm OR PTE_P))) p"
      using w(2) False by (simp_all add: u_def)
    have k: "pgno (a + PGSIZE) = Suc (pgno a)" using Suc.prems(3) by (intro pgno_next) simp
    have ne: "a \<noteq> lst" using Suc.prems(2,3) by (intro pgno_span [of _ _ "Suc n"]) simp_all
    have l: "lst = a + PGSIZE + of_nat (4096 * n)" using Suc.prems(2) by (simp add: PGSIZE_def algebra_simps)
    have e: "map_loop (Suc (Suc n)) pgdir a lst pa perm s = map_loop (Suc n) pgdir (a + PGSIZE) lst (pa + PGSIZE) perm u"
      using w(1) False u(1) ne by (simp add: u_def Let_def del: map_loop.simps(2)) (simp add: map_loop.simps(2) [of "Suc n"] Let_def)
    have none': "\<forall>p. pgno (a + PGSIZE) \<le> p \<and> p \<le> pgno (a + PGSIZE) + n \<longrightarrow> pt (mem u) pgdir p = None"
      using Suc.prems(3,4) u(4) k by auto
    from Suc.IH [OF u(2) l _ none', of "pa + PGSIZE"] Suc.prems(3) k obtain r' t' where
      t': "map_loop (Suc n) pgdir (a + PGSIZE) lst (pa + PGSIZE) perm u = Ok (r', t')" "pt_inv pgdir t'" "free_pages t' \<subseteq> free_pages u"
      "r' = 0 \<and> (\<forall>p<1048576. pt (mem t') pgdir p = map_range (Suc (pgno a)) n (pa + PGSIZE) perm (pt (mem u) pgdir) p) \<or>
       r' = -1 \<and> free_pages t' = {} \<and>
         (\<forall>p<1048576. \<not> (Suc (pgno a) \<le> p \<and> p \<le> Suc (pgno a) + n) \<longrightarrow> pt (mem t') pgdir p = pt (mem u) pgdir p)"
      by auto
    have s: "free_pages t' \<subseteq> free_pages s" using t'(3) u(3) by blast
    from t'(4) show ?thesis
    proof (elim disjE conjE)
      assume z: "r' = 0" "\<forall>p<1048576. pt (mem t') pgdir p = map_range (Suc (pgno a)) n (pa + PGSIZE) perm (pt (mem u) pgdir) p"
      have "pt (mem t') pgdir p = map_range (pgno a) (Suc n) pa perm (pt (mem s) pgdir) p" if p: "p < 1048576" for p
        using trans [OF z(2) [rule_format, OF p] map_range_agree [OF u(4) p]] by (simp only: map_range_Suc)
      then show ?thesis unfolding e using t'(1,2) s z(1) by simp
    next
      assume z: "r' = -1" "free_pages t' = {}"
        "\<forall>p<1048576. \<not> (Suc (pgno a) \<le> p \<and> p \<le> Suc (pgno a) + n) \<longrightarrow> pt (mem t') pgdir p = pt (mem u) pgdir p"
      have "pt (mem t') pgdir p = pt (mem s) pgdir p" if "p < 1048576" "\<not> (pgno a \<le> p \<and> p \<le> pgno a + Suc n)" for p
        using z(3) u(4) that by auto
      then show ?thesis unfolding e using t'(1,2) s z(1,2) by simp
    qed
  qed
qed

lemma pgno_PGROUNDDOWN: "pgno (PGROUNDDOWN a) = pgno a"
  by (simp add: pgno_def unat_PGROUNDDOWN)

lemma rounded_span:
  assumes "vaddr \<le> w"
  shows "unat (PGROUNDDOWN w - PGROUNDDOWN vaddr) div 4096 = pgno w - pgno vaddr"
    "PGROUNDDOWN w = PGROUNDDOWN vaddr + of_nat (4096 * (pgno w - pgno vaddr))"
proof -
  have le: "pgno vaddr \<le> pgno w" using assms by (simp add: pgno_def word_le_nat_alt div_le_mono)
  then have "PGROUNDDOWN vaddr \<le> PGROUNDDOWN w" by (simp add: word_le_nat_alt unat_PGROUNDDOWN pgno_def)
  then have d: "unat (PGROUNDDOWN w - PGROUNDDOWN vaddr) = 4096 * (pgno w - pgno vaddr)"
    by (simp add: unat_sub unat_PGROUNDDOWN pgno_def diff_mult_distrib2)
  then show "unat (PGROUNDDOWN w - PGROUNDDOWN vaddr) div 4096 = pgno w - pgno vaddr" by simp
  have "of_nat (4096 * (pgno w - pgno vaddr)) = PGROUNDDOWN w - PGROUNDDOWN vaddr"
    unfolding d [symmetric] by simp
  then show "PGROUNDDOWN w = PGROUNDDOWN vaddr + of_nat (4096 * (pgno w - pgno vaddr))" by (simp only: add.commute [of "PGROUNDDOWN vaddr"] diff_add_cancel)
qed

text \<open>C5. \<open>mappages\<close> refines the update of the map from virtual page numbers to page table entries: on
  an unmapped range it terminates without a panic, and either returns 0 with exactly the pages of the
  range mapped, in order, to the physical pages from \<open>pa\<close> on with the present bit, and every other
  page as before; or returns -1 with the allocator empty and every page outside the range as before.
  The structure of the page table (distinct table pages, none of them on the free list) is kept.\<close>

theorem mappages_refines:
  assumes "pt_inv pgdir s" "vaddr \<le> vaddr + sz - 1"
    "\<forall>p. pgno vaddr \<le> p \<and> p \<le> pgno (vaddr + sz - 1) \<longrightarrow> pt (mem s) pgdir p = None"
  shows "\<exists>r t. mappages pgdir vaddr sz pa perm s = Ok (r, t) \<and> pt_inv pgdir t \<and> free_pages t \<subseteq> free_pages s \<and>
    (r = 0 \<and> (\<forall>p<1048576. pt (mem t) pgdir p =
       map_range (pgno vaddr) (pgno (vaddr + sz - 1) - pgno vaddr) pa perm (pt (mem s) pgdir) p) \<or>
     r = -1 \<and> free_pages t = {} \<and>
       (\<forall>p<1048576. \<not> (pgno vaddr \<le> p \<and> p \<le> pgno (vaddr + sz - 1)) \<longrightarrow> pt (mem t) pgdir p = pt (mem s) pgdir p))"
proof -
  let ?n = "pgno (vaddr + sz - 1) - pgno vaddr"
  have n: "pgno vaddr + ?n = pgno (vaddr + sz - 1)" using assms(2) by (simp add: pgno_def word_le_nat_alt div_le_mono)
  then show ?thesis
    using map_loop_refines [OF assms(1) rounded_span(2) [OF assms(2)], of pa perm] pgno_less [of "vaddr + sz - 1"] assms(3)
    unfolding mappages_def Let_def rounded_span(1) [OF assms(2)] pgno_PGROUNDDOWN n by blast
qed

definition kvm0 :: kmem where
  "kvm0 = kmem0\<lparr>freelist := 0x80200000\<rparr>"

lemma kvm0_inv: "pt_inv 0x80300000 kvm0" "free_pages kvm0 = {0x80200000}" "pt (mem kvm0) 0x80300000 p = None"
proof -
  have m: "load32 (mem kvm0) a = 0" for a
    by (simp add: kvm0_def kmem0_def kern0_def kern.defs kmem.defs load32_def)
  have fl: "flist (mem kvm0) (freelist kvm0) [0x80200000]"
    using m [of "0x80200000"] by (simp add: kvm0_def)
  show f: "free_pages kvm0 = {0x80200000}" using free_pages_eq [OF fl] by simp
  have k: "page_ok kvm0 0x80200000"
    by (simp add: page_ok_def kvm0_def page_aligned_def PGSIZE_def V2P_def KERNBASE_def PHYSTOP_def)
  have i: "kmem_inv kvm0"
    unfolding kmem_inv_def
  proof (intro conjI exI)
    show "flist (mem kvm0) (freelist kvm0) [0x80200000]" by (rule fl)
  qed (use k in \<open>simp_all add: kvm0_def\<close>)
  have d: "\<not> pdeP (mem kvm0) 0x80300000 j" for j by (simp add: pdeP_def dent_def m)
  show "pt_inv 0x80300000 kvm0" unfolding pt_inv_def f using i d by (simp add: page_aligned_def PGSIZE_def)
  show "pt (mem kvm0) 0x80300000 p = None" by (simp add: pt_def d)
qed

theorem mappages_refines_witness:
  "pt_inv 0x80300000 kvm0 \<and> free_pages kvm0 = {0x80200000} \<and>
   (\<exists>r t. mappages 0x80300000 0x1234 0x2000 0x5000 PTE_W kvm0 = Ok (r, t) \<and> pt_inv 0x80300000 t \<and>
    (r = 0 \<and> pt (mem t) 0x80300000 2 = Some ((0x5000 + of_nat (4096 * 1)) OR PTE_W OR PTE_P) \<or> r = -1 \<and> free_pages t = {}))"
proof -
  have p: "pgno 0x1234 = 1" "pgno (0x1234 + 0x2000 - 1) = 3" by (simp_all add: pgno_def)
  have le: "(0x1234 :: u32) \<le> 0x1234 + 0x2000 - 1" by simp
  show ?thesis
    using mappages_refines [OF kvm0_inv(1) le, of "0x5000" PTE_W] kvm0_inv(1,2)
    unfolding p by (auto simp: kvm0_inv(3) map_range_def)
qed

end
