(* ===== verification/Life.thy ===== *)
theory Life
  imports File Vm
begin

text \<open>
  The rest of proc.c, which needs the file layer and the page tables: the first process, \<open>fork\<close>,
  \<open>exit\<close>, \<open>wait\<close>, \<open>growproc\<close> and \<open>forkret\<close>. The trap frame of a process lies in memory at
  \<open>p_tf\<close>, with the field offsets of struct trapframe in x86.h. \<open>kdata\<close> is the linker symbol
  \<open>data\<close>, \<open>init\<close> and \<open>sz\<close> the address and size of the linked program initcode, \<open>resume\<close>
  what happens while the process is switched out, as in Proc.
\<close>

section \<open>Trap frames (x86.h, mmu.h)\<close>

definition tf_eax :: u32 where "tf_eax = 28"

definition tf_es :: u32 where "tf_es = 40"

definition tf_ds :: u32 where "tf_ds = 44"

definition tf_trapno :: u32 where "tf_trapno = 48"

definition tf_err :: u32 where "tf_err = 52"

definition tf_eip :: u32 where "tf_eip = 56"

definition tf_cs :: u32 where "tf_cs = 60"

definition tf_eflags :: u32 where "tf_eflags = 64"

definition tf_esp :: u32 where "tf_esp = 68"

definition tf_ss :: u32 where "tf_ss = 72"

definition tf_size :: u32 where "tf_size = 76"

definition DPL_USER :: u16 where "DPL_USER = 3"

definition SEG_UCODE :: u16 where "SEG_UCODE = 4"

definition SEG_UDATA :: u16 where "SEG_UDATA = 5"

definition FL_IF :: u32 where "FL_IF = 0x200"

text \<open>The trap frame \<open>userinit\<close> builds.\<close>

definition user_tf :: "u32 \<Rightarrow> memory \<Rightarrow> memory" where
  "user_tf tf m =
     (let m = memset m tf 0 (unat tf_size);
          m = store16 m (tf + tf_cs) (push_bit 3 SEG_UCODE OR DPL_USER);
          m = store16 m (tf + tf_ds) (push_bit 3 SEG_UDATA OR DPL_USER);
          m = store16 m (tf + tf_es) (load16 m (tf + tf_ds));
          m = store16 m (tf + tf_ss) (load16 m (tf + tf_ds));
          m = store32 m (tf + tf_eflags) FL_IF;
          m = store32 m (tf + tf_esp) PGSIZE
      in store32 m (tf + tf_eip) 0)"

section \<open>Processes\<close>

text \<open>\<open>allocproc\<close> returning null makes \<open>userinit\<close> fault.\<close>

definition userinit ::
  "'a kfile_scheme devsw list \<Rightarrow> u32 \<Rightarrow> u32 \<Rightarrow> u32 \<Rightarrow> 'a kfile_scheme \<Rightarrow> 'a kfile_scheme res" where
  "userinit dsw kdata init sz s =
     rbind (allocproc s) (\<lambda>(p, s).
     case p of
       None \<Rightarrow> Panic ''trap''
     | Some i \<Rightarrow>
         rbind (setupkvm kdata (s\<lparr>initproc := Some i\<rparr>)) (\<lambda>(pgdir, s).
         let s = upd_proc i (\<lambda>p. p\<lparr>p_pgdir := pgdir\<rparr>) s
         in if pgdir = 0 then Panic ''userinit: out of memory?''
            else rbind (inituvm pgdir init sz s) (\<lambda>s.
              let s = upd_proc i (\<lambda>p. p\<lparr>p_sz := PGSIZE\<rparr>) s;
                  s = s\<lparr>mem := user_tf (p_tf (procs s ! i)) (mem s)\<rparr>;
                  s = upd_proc i (\<lambda>p. p\<lparr>p_name := safestrcpy (p_name p) (bytes ''initcode'') 16\<rparr>) s
              in rbind (namei dsw (bytes ''/'') s) (\<lambda>(ip, s).
                 rbind (kacquire L_ptable (upd_proc i (\<lambda>p. p\<lparr>p_cwd := ip\<rparr>) s)) (\<lambda>s.
                 krelease L_ptable (upd_proc i (\<lambda>p. p\<lparr>p_state := RUNNABLE\<rparr>) s))))))"

definition growproc :: "cint \<Rightarrow> 'a kproc_scheme \<Rightarrow> (cint \<times> 'a kproc_scheme) res" where
  "growproc n s =
     with_cur s (\<lambda>c.
     let pr = procs s ! c;
         fin = (\<lambda>sz s. rbind (switchuvm c (upd_proc c (\<lambda>p. p\<lparr>p_sz := sz\<rparr>) s)) (\<lambda>s. Ok (0, s)))
     in if 0 <s n
        then rbind (allocuvm (p_pgdir pr) (p_sz pr) (p_sz pr + n) s) (\<lambda>(sz, s).
             if sz = 0 then Ok (-1, s) else fin sz s)
        else if n <s 0
        then rbind (deallocuvm (p_pgdir pr) (p_sz pr) (p_sz pr + n) s) (\<lambda>(sz, s).
             if sz = 0 then Ok (-1, s) else fin sz s)
        else fin (p_sz pr) s)"

definition dup_files :: "nat \<Rightarrow> nat \<Rightarrow> 'a kfile_scheme \<Rightarrow> 'a kfile_scheme res" where
  "dup_files c i =
     rfold (\<lambda>fd s. case p_ofile (procs s ! c) ! fd of
              None \<Rightarrow> Ok s
            | Some f \<Rightarrow> rbind (filedup f s) (\<lambda>(f, s). Ok (upd_proc i (\<lambda>p. p\<lparr>p_ofile := (p_ofile p)[fd := Some f]\<rparr>) s)))
       [0..<NOFILE]"

definition fork :: "u32 \<Rightarrow> 'a kfile_scheme \<Rightarrow> (cint \<times> 'a kfile_scheme) res" where
  "fork kdata s =
     rbind (allocproc s) (\<lambda>(np, s).
     case np of
       None \<Rightarrow> Ok (-1, s)
     | Some i \<Rightarrow>
         with_cur s (\<lambda>c.
         rbind (copyuvm kdata (p_pgdir (procs s ! c)) (p_sz (procs s ! c)) s) (\<lambda>(pgdir, s).
         let s = upd_proc i (\<lambda>p. p\<lparr>p_pgdir := pgdir\<rparr>) s
         in if pgdir = 0
            then rbind (kfree (p_kstack (procs s ! i)) s) (\<lambda>s.
                 Ok (-1, upd_proc i (\<lambda>p. p\<lparr>p_kstack := 0, p_state := UNUSED\<rparr>) s))
            else
              let s = upd_proc i (\<lambda>p. p\<lparr>p_sz := p_sz (procs s ! c), p_parent := Some c\<rparr>) s;
                  tf = p_tf (procs s ! i);
                  s = s\<lparr>mem := memmove (mem s) tf (p_tf (procs s ! c)) tf_size\<rparr>;
                  s = s\<lparr>mem := store32 (mem s) (tf + tf_eax) 0\<rparr>
              in rbind (dup_files c i s) (\<lambda>s.
                 case p_cwd (procs s ! c) of
                   None \<Rightarrow> Panic ''trap''
                 | Some d \<Rightarrow>
                     rbind (idup d s) (\<lambda>(d, s).
                     let s = upd_proc i (\<lambda>p. p\<lparr>p_cwd := Some d\<rparr>) s;
                         s = upd_proc i (\<lambda>p. p\<lparr>p_name := safestrcpy (p_name p) (p_name (procs s ! c)) 16\<rparr>) s;
                         pid = p_pid (procs s ! i)
                     in rbind (kacquire L_ptable s) (\<lambda>s.
                        rbind (krelease L_ptable (upd_proc i (\<lambda>p. p\<lparr>p_state := RUNNABLE\<rparr>) s)) (\<lambda>s. Ok (pid, s))))))))"

definition close_files :: "nat \<Rightarrow> 'a kfile_scheme \<Rightarrow> 'a kfile_scheme res" where
  "close_files c =
     rfold (\<lambda>fd s. case p_ofile (procs s ! c) ! fd of
              None \<Rightarrow> Ok s
            | Some f \<Rightarrow> rbind (fileclose f s) (\<lambda>s. Ok (upd_proc c (\<lambda>p. p\<lparr>p_ofile := (p_ofile p)[fd := None]\<rparr>) s)))
       [0..<NOFILE]"

text \<open>A process sleeps in \<open>wait\<close> on the address of its own table entry.\<close>

definition wakeup_proc :: "nat option \<Rightarrow> 'a kproc_scheme \<Rightarrow> 'a kproc_scheme" where
  "wakeup_proc p = wakeup1 (map_option C_proc p)"

definition reparent :: "nat \<Rightarrow> 'a kproc_scheme \<Rightarrow> 'a kproc_scheme" where
  "reparent c s =
     fold (\<lambda>j s. if p_parent (procs s ! j) = Some c
                 then let s = upd_proc j (\<lambda>p. p\<lparr>p_parent := initproc s\<rparr>) s
                      in if p_state (procs s ! j) = ZOMBIE then wakeup_proc (initproc s) s else s
                 else s) [0..<NPROC] s"

text \<open>\<open>exit\<close> up to the call of \<open>sched\<close>, which does not come back.\<close>

definition exit_enter :: "'a kfile_scheme \<Rightarrow> 'a kfile_scheme res" where
  "exit_enter s =
     with_cur s (\<lambda>c.
     rbind (cprintf ''number of runs of %s is  %d\<newline>''
       (va [(1, cstr (p_name (procs s ! c))), (p_count (procs s ! c), [])]) s) (\<lambda>s.
     if initproc s = Some c then Panic ''init exiting''
     else rbind (close_files c s) (\<lambda>s.
          rbind (begin_op_now s) (\<lambda>s.
          rbind (case p_cwd (procs s ! c) of None \<Rightarrow> Panic ''trap'' | Some d \<Rightarrow> iput d s) (\<lambda>s.
          rbind (end_op s) (\<lambda>s.
          rbind (kacquire L_ptable (upd_proc c (\<lambda>p. p\<lparr>p_cwd := None\<rparr>) s)) (\<lambda>s.
          let s = wakeup_proc (p_parent (procs s ! c)) s;
              s = reparent c s
          in Ok (upd_proc c (\<lambda>p. p\<lparr>p_state := ZOMBIE\<rparr>) s))))))))"

definition exit :: "('a kfile_scheme \<Rightarrow> 'a kfile_scheme) \<Rightarrow> 'a kfile_scheme \<Rightarrow> 'b res" where
  "exit resume s = rbind (exit_enter s) (\<lambda>s. rbind (sched resume s) (\<lambda>_. Panic ''zombie exit''))"

definition reap :: "nat \<Rightarrow> 'a kproc_scheme \<Rightarrow> (cint \<times> 'a kproc_scheme) res" where
  "reap j s =
     (let pid = p_pid (procs s ! j)
      in rbind (kfree (p_kstack (procs s ! j)) s) (\<lambda>s.
         rbind (freevm (p_pgdir (procs s ! j)) (upd_proc j (\<lambda>p. p\<lparr>p_kstack := 0\<rparr>) s)) (\<lambda>s.
         rbind (krelease L_ptable (upd_proc j (\<lambda>p. p\<lparr>p_pid := 0, p_parent := None, p_name := (p_name p)[0 := 0],
                  p_killed := False, p_state := UNUSED\<rparr>) s)) (\<lambda>s. Ok (pid, s)))))"

fun wait_loop ::
  "nat \<Rightarrow> ('a kproc_scheme \<Rightarrow> 'a kproc_scheme) \<Rightarrow> 'a kproc_scheme \<Rightarrow> (cint \<times> 'a kproc_scheme) res" where
  "wait_loop fuel resume s =
     with_cur s (\<lambda>c.
     case first_ix (\<lambda>p. p_parent p = Some c \<and> p_state p = ZOMBIE) (procs s) of
       Some j \<Rightarrow> reap j s
     | None \<Rightarrow>
         if \<not> (\<exists>p\<in>set (procs s). p_parent p = Some c) \<or> p_killed (procs s ! c)
         then rbind (krelease L_ptable s) (\<lambda>s. Ok (-1, s))
         else case fuel of
                0 \<Rightarrow> Blocked
              | Suc fuel' \<Rightarrow> rbind (sleep resume (C_proc c) (Some L_ptable) s) (wait_loop fuel' resume))"

declare wait_loop.simps [simp del]

definition wait :: "nat \<Rightarrow> ('a kproc_scheme \<Rightarrow> 'a kproc_scheme) \<Rightarrow> 'a kproc_scheme \<Rightarrow> (cint \<times> 'a kproc_scheme) res" where
  "wait fuel resume s = rbind (kacquire L_ptable s) (wait_loop fuel resume)"

text \<open>\<open>forkret\<close> returns the new value of its static variable \<open>first\<close>.\<close>

definition forkret :: "bool \<Rightarrow> 'a kfs_scheme \<Rightarrow> (bool \<times> 'a kfs_scheme) res" where
  "forkret first s =
     rbind (krelease L_ptable s) (\<lambda>s.
     if first then rbind (iinit ROOTDEV s) (\<lambda>s. rbind (initlog ROOTDEV s) (\<lambda>s. Ok (False, s)))
     else Ok (False, s))"

end
