(* ===== verification/Exec.thy ===== *)
theory Exec
  imports Life
begin

text \<open>
  exec.c with the structures of elf.h: building a new address space from a program file. The
  argument strings, which \<open>sys_exec\<close> has checked to be terminated, are lists of bytes without
  the terminator.
\<close>

section \<open>ELF files (elf.h)\<close>

definition ELF_MAGIC :: u32 where "ELF_MAGIC = 0x464C457F"

definition ELF_PROG_LOAD :: u32 where "ELF_PROG_LOAD = 1"

definition MAXARG :: nat where "MAXARG = 32"

text \<open>The fields of the file header that are used, in a header of 52 bytes.\<close>

record elfhdr =
  e_magic :: u32
  e_entry :: u32
  e_phoff :: u32
  e_phnum :: u16

definition elf_size :: nat where "elf_size = 52"

definition elf_of :: "u8 list \<Rightarrow> elfhdr" where
  "elf_of d = \<lparr>e_magic = get32 d 0, e_entry = get32 d 24, e_phoff = get32 d 28, e_phnum = get16 d 44\<rparr>"

record proghdr =
  ph_type :: u32
  ph_off :: u32
  ph_vaddr :: u32
  ph_filesz :: u32
  ph_memsz :: u32

definition ph_size :: nat where "ph_size = 32"

definition ph_of :: "u8 list \<Rightarrow> proghdr" where
  "ph_of d = \<lparr>ph_type = get32 d 0, ph_off = get32 d 4, ph_vaddr = get32 d 8, ph_filesz = get32 d 16, ph_memsz = get32 d 20\<rparr>"

section \<open>exec\<close>

definition exec_bad :: "u32 \<Rightarrow> nat option \<Rightarrow> 'a kfile_scheme \<Rightarrow> (cint \<times> 'a kfile_scheme) res" where
  "exec_bad pgdir ipo s =
     rbind (if pgdir \<noteq> 0 then freevm pgdir s else Ok s) (\<lambda>s.
     rbind (case ipo of None \<Rightarrow> Ok s | Some ip \<Rightarrow> rbind (iunlockput ip s) end_op) (\<lambda>s. Ok (-1, s)))"

text \<open>\<open>readi\<close> of \<open>loaduvm\<close>, into memory.\<close>

definition readi_to :: "'a kfile_scheme devsw list \<Rightarrow> nat \<Rightarrow> u32 \<Rightarrow> u32 \<Rightarrow> u32 \<Rightarrow> 'a kfile_scheme \<Rightarrow> (cint \<times> 'a kfile_scheme) res" where
  "readi_to dsw ip dst off n s =
     rbind (readi dsw ip off n s) (\<lambda>(r, xs, s). Ok (r, s\<lparr>mem := store_bytes (mem s) dst xs\<rparr>))"

text \<open>The loop over the program headers, \<open>k\<close> of them left: \<open>None\<close> is the jump to \<open>bad\<close>.\<close>

fun load_segments ::
  "nat \<Rightarrow> 'a kfile_scheme devsw list \<Rightarrow> nat \<Rightarrow> u32 \<Rightarrow> u32 \<Rightarrow> u32 \<Rightarrow> 'a kfile_scheme \<Rightarrow> (u32 option \<times> 'a kfile_scheme) res" where
  "load_segments 0 dsw ip pgdir off sz s = Ok (Some sz, s)"
| "load_segments (Suc k) dsw ip pgdir off sz s =
     rbind (readi dsw ip off (of_nat ph_size) s) (\<lambda>(r, d, s).
     if r \<noteq> of_nat ph_size then Ok (None, s)
     else let ph = ph_of d
          in if ph_type ph \<noteq> ELF_PROG_LOAD then load_segments k dsw ip pgdir (off + of_nat ph_size) sz s
             else if ph_memsz ph < ph_filesz ph then Ok (None, s)
             else if ph_vaddr ph + ph_memsz ph < ph_vaddr ph then Ok (None, s)
             else rbind (allocuvm pgdir sz (ph_vaddr ph + ph_memsz ph) s) (\<lambda>(sz, s).
                  if sz = 0 then Ok (None, s)
                  else if ph_vaddr ph mod PGSIZE \<noteq> 0 then Ok (None, s)
                  else rbind (loaduvm (readi_to dsw ip) pgdir (ph_vaddr ph) (ph_off ph) (ph_filesz ph) s) (\<lambda>(r, s).
                       if r <s 0 then Ok (None, s)
                       else load_segments k dsw ip pgdir (off + of_nat ph_size) sz s)))"

text \<open>The argument strings, pushed one below the other: the words of \<open>ustack\<close> from 3 on and \<open>sp\<close>.\<close>

fun push_args ::
  "u32 \<Rightarrow> u8 list list \<Rightarrow> nat \<Rightarrow> u32 \<Rightarrow> u32 list \<Rightarrow> 'a kmem_scheme \<Rightarrow> ((u32 \<times> u32 list) option \<times> 'a kmem_scheme) res" where
  "push_args pgdir [] argc sp us s = Ok (Some (sp, us), s)"
| "push_args pgdir (a # args) argc sp us s =
     (if MAXARG \<le> argc then Ok (None, s)
      else let sp = (sp - (of_nat (length a) + 1)) AND NOT 3
           in rbind (copyout pgdir sp (a @ [0]) (of_nat (length a) + 1) s) (\<lambda>(r, s).
              if r <s 0 then Ok (None, s) else push_args pgdir args (argc + 1) sp (us @ [sp]) s))"

definition word_bytes :: "u32 \<Rightarrow> u8 list" where
  "word_bytes v = [ucast v, ucast (drop_bit 8 v), ucast (drop_bit 16 v), ucast (drop_bit 24 v)]"

definition exec_stack :: "u32 \<Rightarrow> u32 list \<Rightarrow> u32 list" where
  "exec_stack sp us = [0xFFFFFFFF, of_nat (length us), sp - (of_nat (length us) + 1) * 4] @ us @ [0]"

text \<open>The last element of the path, for \<open>proc->name\<close>.\<close>

fun last_elem :: "u8 list \<Rightarrow> u8 list \<Rightarrow> u8 list" where
  "last_elem l [] = l"
| "last_elem l (c # cs) = last_elem (if c = 47 then cs else l) cs"

definition exec_commit ::
  "u8 list \<Rightarrow> u32 \<Rightarrow> u32 \<Rightarrow> u32 \<Rightarrow> u32 \<Rightarrow> 'a kfile_scheme \<Rightarrow> (cint \<times> 'a kfile_scheme) res" where
  "exec_commit path pgdir sz entry sp s =
     with_cur s (\<lambda>c.
     let s = upd_proc c (\<lambda>p. p\<lparr>p_name := safestrcpy (p_name p) (last_elem path path) 16\<rparr>) s;
         oldpgdir = p_pgdir (procs s ! c);
         s = upd_proc c (\<lambda>p. p\<lparr>p_pgdir := pgdir, p_sz := sz\<rparr>) s;
         tf = p_tf (procs s ! c);
         s = s\<lparr>mem := store32 (store32 (mem s) (tf + tf_eip) entry) (tf + tf_esp) sp\<rparr>
     in rbind (switchuvm c s) (\<lambda>s.
        rbind (freevm oldpgdir s) (\<lambda>s. Ok (0, s))))"

definition exec_image ::
  "u8 list \<Rightarrow> u8 list list \<Rightarrow> u32 \<Rightarrow> u32 \<Rightarrow> u32 \<Rightarrow> 'a kfile_scheme \<Rightarrow> (cint \<times> 'a kfile_scheme) res" where
  "exec_image path argv pgdir sz entry s =
     (let sz = PGROUNDUP sz
      in rbind (allocuvm pgdir sz (sz + 2 * PGSIZE) s) (\<lambda>(sz, s).
         if sz = 0 then exec_bad pgdir None s
         else rbind (clearpteu pgdir (sz - 2 * PGSIZE) s) (\<lambda>s.
              rbind (push_args pgdir argv 0 sz [] s) (\<lambda>(r, s).
              case r of
                None \<Rightarrow> exec_bad pgdir None s
              | Some (sp, us) \<Rightarrow>
                  let st = exec_stack sp us;
                      sp = sp - of_nat (length st) * 4
                  in rbind (copyout pgdir sp (concat (map word_bytes st)) (of_nat (length st) * 4) s) (\<lambda>(r, s).
                     if r <s 0 then exec_bad pgdir None s
                     else exec_commit path pgdir sz entry sp s)))))"

definition exec ::
  "'a kfile_scheme devsw list \<Rightarrow> u32 \<Rightarrow> u8 list \<Rightarrow> u8 list list \<Rightarrow> 'a kfile_scheme \<Rightarrow> (cint \<times> 'a kfile_scheme) res" where
  "exec dsw kdata path argv s =
     rbind (begin_op_now s) (\<lambda>s.
     rbind (namei dsw path s) (\<lambda>(ipo, s).
     case ipo of
       None \<Rightarrow> rbind (end_op s) (\<lambda>s. Ok (-1, s))
     | Some ip \<Rightarrow>
         rbind (ilock (Some ip) s) (\<lambda>s.
         rbind (readi dsw ip 0 (of_nat elf_size) s) (\<lambda>(r, d, s).
         if r \<noteq> of_nat elf_size then exec_bad 0 (Some ip) s
         else let elf = elf_of d
              in if e_magic elf \<noteq> ELF_MAGIC then exec_bad 0 (Some ip) s
                 else rbind (setupkvm kdata s) (\<lambda>(pgdir, s).
                      if pgdir = 0 then exec_bad 0 (Some ip) s
                      else rbind (load_segments (unat (e_phnum elf)) dsw ip pgdir (e_phoff elf) 0 s) (\<lambda>(r, s).
                           case r of
                             None \<Rightarrow> exec_bad pgdir (Some ip) s
                           | Some sz \<Rightarrow>
                               rbind (iunlockput ip s) (\<lambda>s.
                               rbind (end_op s) (exec_image path argv pgdir sz (e_entry elf)))))))))"

end
