(* ===== verification/Input.thy ===== *)
theory Input
  imports File
begin

text \<open>
  The input side of console.c with kbd.c and the receiver of uart.c: scan codes to characters, the
  line buffer that \<open>consoleintr\<close> edits, and the console device. \<open>kbd_in\<close> and \<open>uart_rx\<close> are the
  bytes the keyboard controller and the serial port will deliver before they report that they have
  none. The wait for a line takes a bound on the number of sleeps and \<open>resume\<close>, as in Sleeplock.
\<close>

section \<open>Keyboard (kbd.h, kbd.c)\<close>

definition SHIFT :: u32 where "SHIFT = 1"

definition CTL :: u32 where "CTL = 2"

definition ALT :: u32 where "ALT = 4"

definition CAPSLOCK :: u32 where "CAPSLOCK = 8"

definition NUMLOCK :: u32 where "NUMLOCK = 16"

definition SCROLLLOCK :: u32 where "SCROLLLOCK = 32"

definition E0ESC :: u32 where "E0ESC = 64"

text \<open>\<open>C(x)\<close>: the control character of a letter.\<close>

definition ctrl :: "char \<Rightarrow> u8" where
  "ctrl c = of_nat (of_char c) - 64"

text \<open>A C array with positional and designated initialisers; the other entries are zero.\<close>

definition table :: "'a::zero list \<Rightarrow> (u8 \<times> 'a) list \<Rightarrow> u8 \<Rightarrow> 'a" where
  "table base ext k = (case map_of ext k of Some v \<Rightarrow> v | None \<Rightarrow> if unat k < length base then base ! unat k else 0)"

definition shiftcode :: "u8 \<Rightarrow> u32" where
  "shiftcode = table [] [(0x1D, CTL), (0x2A, SHIFT), (0x36, SHIFT), (0x38, ALT), (0x9D, CTL), (0xB8, ALT)]"

definition togglecode :: "u8 \<Rightarrow> u32" where
  "togglecode = table [] [(0x3A, CAPSLOCK), (0x45, NUMLOCK), (0x46, SCROLLLOCK)]"

text \<open>The cursor and editing keys, the same in all three maps: KEY\_UP is 0xE2 and so on.\<close>

definition editkeys :: "(u8 \<times> u8) list" where
  "editkeys = [(0xC8, 0xE2), (0xD0, 0xE3), (0xC9, 0xE6), (0xD1, 0xE7), (0xCB, 0xE4), (0xCD, 0xE5),
     (0x97, 0xE0), (0xCF, 0xE1), (0xD2, 0xE8), (0xD3, 0xE9)]"

definition normalmap :: "u8 \<Rightarrow> u8" where
  "normalmap = table
     ([0, 0x1B] @ bytes ''1234567890-='' @ [8, 9] @
      bytes ''qwertyuiop[]'' @ [10, 0] @ bytes ''asdfghjkl;'' @ [39, 96, 0, 92] @
      bytes ''zxcvbnm,./'' @ [0, 42, 0, 32, 0, 0, 0, 0, 0, 0, 0, 0, 0, 0, 0, 0, 0] @
      bytes ''789-456+1230.'' @ [0, 0, 0, 0])
     ([(0x9C, 10), (0xB5, 47)] @ editkeys)"

definition shiftmap :: "u8 \<Rightarrow> u8" where
  "shiftmap = table
     ([0, 0x1B] @ bytes ''!@#$%^&*()_+'' @ [8, 9] @
      bytes ''QWERTYUIOP{}'' @ [10, 0] @ bytes ''ASDFGHJKL:'' @ [34, 126, 0, 124] @
      bytes ''ZXCVBNM<>?'' @ [0, 42, 0, 32, 0, 0, 0, 0, 0, 0, 0, 0, 0, 0, 0, 0, 0] @
      bytes ''789-456+1230.'' @ [0, 0, 0, 0])
     ([(0x9C, 10), (0xB5, 47)] @ editkeys)"

definition ctlmap :: "u8 \<Rightarrow> u8" where
  "ctlmap = table
     (replicate 16 0 @
      map ctrl ''QWERTYUIOP'' @ [0, 0, 13, 0] @ map ctrl ''ASDFGHJKL'' @ [0, 0, 0, 0, 92 - 64] @
      map ctrl ''ZXCVBNM'' @ [0, 0, ctrl (CHR ''/''), 0, 0])
     ([(0x9C, 13), (0xB5, ctrl (CHR ''/''))] @ editkeys)"

text \<open>One byte from the keyboard: the character (0 for none) and the new state of the modifiers.\<close>

definition kbd_step :: "u32 \<Rightarrow> u8 \<Rightarrow> cint \<times> u32" where
  "kbd_step shift data =
     (if data = 0xE0 then (0, shift OR E0ESC)
      else if data AND 0x80 \<noteq> 0
      then let data = (if shift AND E0ESC \<noteq> 0 then data else data AND 0x7F)
           in (0, shift AND NOT (shiftcode data OR E0ESC))
      else
        let (data, shift) = (if shift AND E0ESC \<noteq> 0 then (data OR 0x80, shift AND NOT E0ESC) else (data, shift));
            shift = shift OR shiftcode data;
            shift = shift XOR togglecode data;
            m = (if shift AND (CTL OR SHIFT) = 0 then normalmap
                 else if shift AND (CTL OR SHIFT) = SHIFT then shiftmap else ctlmap);
            c = ucast (m data) :: cint;
            c = (if shift AND CAPSLOCK \<noteq> 0
                 then if 97 \<le> c \<and> c \<le> 122 then c - 32 else if 65 \<le> c \<and> c \<le> 90 then c + 32 else c
                 else c)
        in (c, shift))"

section \<open>The line buffer (console.c)\<close>

definition INPUT_BUF :: nat where "INPUT_BUF = 128"

record inbuf =
  in_buf :: "u8 list"
  in_r :: u32
  in_w :: u32
  in_e :: u32

record kinput = kfile +
  input :: inbuf
  kbd_shift :: u32
  kbd_in :: "u8 list"
  uart_rx :: "u8 list"

definition upd_input :: "(inbuf \<Rightarrow> inbuf) \<Rightarrow> 'a kinput_scheme \<Rightarrow> 'a kinput_scheme" where
  "upd_input f s = s\<lparr>input := f (input s)\<rparr>"

definition kbdgetc :: "'a kinput_scheme \<Rightarrow> cint \<times> 'a kinput_scheme" where
  "kbdgetc s =
     (case kbd_in s of
        [] \<Rightarrow> (-1, s)
      | b # bs \<Rightarrow> let (c, sh) = kbd_step (kbd_shift s) b in (c, s\<lparr>kbd_shift := sh, kbd_in := bs\<rparr>))"

definition uartgetc :: "'a kinput_scheme \<Rightarrow> cint \<times> 'a kinput_scheme" where
  "uartgetc s =
     (if \<not> uart s then (-1, s)
      else case uart_rx s of [] \<Rightarrow> (-1, s) | b # bs \<Rightarrow> (ucast b, s\<lparr>uart_rx := bs\<rparr>))"

definition in_at :: "u32 \<Rightarrow> inbuf \<Rightarrow> u8" where
  "in_at k b = in_buf b ! unat (k mod of_nat INPUT_BUF)"

definition back_one :: "'a kinput_scheme \<Rightarrow> 'a kinput_scheme res" where
  "back_one s = consputc BACKSPACE (upd_input (\<lambda>b. b\<lparr>in_e := in_e b - 1\<rparr>) s)"

text \<open>Kill line, at most \<open>e - w\<close> rounds: the first argument counts them down.\<close>

fun kill_line :: "nat \<Rightarrow> 'a kinput_scheme \<Rightarrow> 'a kinput_scheme res" where
  "kill_line 0 s = Ok s"
| "kill_line (Suc k) s =
     (if in_e (input s) \<noteq> in_w (input s) \<and> in_at (in_e (input s) - 1) (input s) \<noteq> 10
      then rbind (back_one s) (kill_line k) else Ok s)"

definition in_put :: "u8 \<Rightarrow> inbuf \<Rightarrow> inbuf" where
  "in_put c b = b\<lparr>in_buf := (in_buf b)[unat (in_e b mod of_nat INPUT_BUF) := c], in_e := in_e b + 1\<rparr>"

definition cons_char :: "cint \<Rightarrow> 'a kinput_scheme \<Rightarrow> 'a kinput_scheme res" where
  "cons_char c s =
     (if c = ucast (ctrl CHR ''U'') then kill_line (unat (in_e (input s) - in_w (input s))) s
      else if c = ucast (ctrl CHR ''H'') \<or> c = 0x7F
      then if in_e (input s) \<noteq> in_w (input s) then back_one s else Ok s
      else if c \<noteq> 0 \<and> in_e (input s) - in_r (input s) < of_nat INPUT_BUF
      then let c = (if c = 13 then 10 else c);
               s = upd_input (in_put (ucast c)) s
           in rbind (consputc c s) (\<lambda>s.
              if c = 10 \<or> c = ucast (ctrl CHR ''D'') \<or> in_e (input s) = in_r (input s) + of_nat INPUT_BUF
              then wakeup C_input_r (upd_input (\<lambda>b. b\<lparr>in_w := in_e b\<rparr>) s)
              else Ok s)
      else Ok s)"

fun intr_loop ::
  "nat \<Rightarrow> ('a kinput_scheme \<Rightarrow> cint \<times> 'a kinput_scheme) \<Rightarrow> bool \<Rightarrow> 'a kinput_scheme \<Rightarrow> (bool \<times> 'a kinput_scheme) res" where
  "intr_loop 0 getc dump s = Blocked"
| "intr_loop (Suc n) getc dump s =
     (let (c, s) = getc s
      in if c <s 0 then Ok (dump, s)
         else if c = ucast (ctrl CHR ''P'') then intr_loop n getc True s
         else rbind (cons_char c s) (intr_loop n getc dump))"

definition consoleintr ::
  "nat \<Rightarrow> ('a kinput_scheme \<Rightarrow> cint \<times> 'a kinput_scheme) \<Rightarrow> 'a kinput_scheme \<Rightarrow> 'a kinput_scheme res" where
  "consoleintr n getc s =
     rbind (kacquire L_cons s) (\<lambda>s.
     rbind (intr_loop n getc False s) (\<lambda>(dump, s).
     rbind (krelease L_cons s) (\<lambda>s.
     if dump then procdump s else Ok s)))"

text \<open>Each call of \<open>getc\<close> takes one pending byte, so one round more than there are bytes is enough.\<close>

definition kbdintr :: "'a kinput_scheme \<Rightarrow> 'a kinput_scheme res" where
  "kbdintr s = consoleintr (Suc (length (kbd_in s))) kbdgetc s"

definition uartintr :: "'a kinput_scheme \<Rightarrow> 'a kinput_scheme res" where
  "uartintr s = consoleintr (Suc (length (uart_rx s))) uartgetc s"

section \<open>The console device\<close>

text \<open>\<open>while(input.r == input.w)\<close>: \<open>None\<close> when the process has been killed, with the lock released.\<close>

fun cons_wait ::
  "nat \<Rightarrow> ('a kinput_scheme \<Rightarrow> 'a kinput_scheme) \<Rightarrow> 'a kinput_scheme \<Rightarrow> (nat option \<times> 'a kinput_scheme) res" where
  "cons_wait fuel resume s =
     (if in_r (input s) = in_w (input s)
      then with_cur s (\<lambda>c.
           if p_killed (procs s ! c) then rbind (krelease L_cons s) (\<lambda>s. Ok (None, s))
           else case fuel of
                  0 \<Rightarrow> Blocked
                | Suc fuel' \<Rightarrow> rbind (sleep resume C_input_r (Some L_cons) s) (cons_wait fuel' resume))
      else Ok (Some fuel, s))"

declare cons_wait.simps [simp del]

text \<open>The reading loop over the number \<open>n\<close> of bytes still wanted; \<open>None\<close> is the return of -1.\<close>

fun cread_loop ::
  "nat \<Rightarrow> ('a kinput_scheme \<Rightarrow> 'a kinput_scheme) \<Rightarrow> nat \<Rightarrow> nat \<Rightarrow> u8 list \<Rightarrow> 'a kinput_scheme \<Rightarrow>
   (nat option \<times> u8 list \<times> 'a kinput_scheme) res" where
  "cread_loop fuel resume 0 target dst s = Ok (Some 0, dst, s)"
| "cread_loop fuel resume (Suc n) target dst s =
     rbind (cons_wait fuel resume s) (\<lambda>(r, s).
     case r of
       None \<Rightarrow> Ok (None, dst, s)
     | Some fuel' \<Rightarrow>
         let c = in_at (in_r (input s)) (input s);
             s = upd_input (\<lambda>b. b\<lparr>in_r := in_r b + 1\<rparr>) s
         in if c = ctrl CHR ''D''
            then let s = (if Suc n < target then upd_input (\<lambda>b. b\<lparr>in_r := in_r b - 1\<rparr>) s else s)
                 in Ok (Some (Suc n), dst, s)
            else if c = 10 then Ok (Some n, dst @ [c], s)
            else cread_loop fuel' resume n target (dst @ [c]) s)"

definition consoleread ::
  "nat \<Rightarrow> ('a kinput_scheme \<Rightarrow> 'a kinput_scheme) \<Rightarrow> nat \<Rightarrow> cint \<Rightarrow> 'a kinput_scheme \<Rightarrow>
   (cint \<times> u8 list \<times> 'a kinput_scheme) res" where
  "consoleread fuel resume ip n s =
     rbind (iunlock (Some ip) s) (\<lambda>s.
     rbind (kacquire L_cons s) (\<lambda>s.
     rbind (cread_loop fuel resume (nat (sint n)) (unat n) [] s) (\<lambda>(r, dst, s).
     case r of
       None \<Rightarrow> rbind (ilock (Some ip) s) (\<lambda>s. Ok (-1, dst, s))
     | Some left \<Rightarrow>
         rbind (krelease L_cons s) (\<lambda>s.
         rbind (ilock (Some ip) s) (\<lambda>s.
         Ok (if 0 <s n then n - of_nat left else 0, dst, s))))))"

definition consolewrite :: "nat \<Rightarrow> u8 list \<Rightarrow> cint \<Rightarrow> 'a kinput_scheme \<Rightarrow> (cint \<times> 'a kinput_scheme) res" where
  "consolewrite ip buf n s =
     rbind (iunlock (Some ip) s) (\<lambda>s.
     rbind (kacquire L_cons s) (\<lambda>s.
     rbind (rfold (\<lambda>b. consputc (ucast b)) (take (nat (sint n)) buf) s) (\<lambda>s.
     rbind (krelease L_cons s) (\<lambda>s.
     rbind (ilock (Some ip) s) (\<lambda>s. Ok (n, s))))))"

definition CONSOLE :: nat where "CONSOLE = 1"

definition consoleinit :: "'a kinput_scheme devsw list \<Rightarrow> 'a kinput_scheme \<Rightarrow> 'a kinput_scheme devsw list \<times> 'a kinput_scheme" where
  "consoleinit dsw s =
     (let s = s\<lparr>lk := initlock L_cons ''console'' (lk s)\<rparr>;
          dsw = dsw[CONSOLE := \<lparr>d_read = Some (consoleread 0 id), d_write = Some consolewrite\<rparr>]
      in (dsw, s\<lparr>cons_locking := True\<rparr>))"

end
