(* ===== verification/Syscall.thy ===== *)
theory Syscall
  imports Exec Input
begin

text \<open>
  syscall.c up to the dispatch table: fetching system call arguments from the memory of the current
  process, and sysproc.c. The kernel reads and writes user memory through the page table that is
  loaded (\<open>cr3\<close>); an access to a page that is not present traps in kernel mode, which is a panic.
\<close>

section \<open>User memory\<close>

definition utrans :: "u32 \<Rightarrow> 'a kproc_scheme \<Rightarrow> u32 res" where
  "utrans a s =
     (case pt (mem s) (P2V (cr3 s)) (pgno a) of
        None \<Rightarrow> Panic ''trap''
      | Some e \<Rightarrow> Ok (P2V (PTE_ADDR e) + a mod PGSIZE))"

definition uget :: "u32 \<Rightarrow> 'a kproc_scheme \<Rightarrow> u8 res" where
  "uget a s = rbind (utrans a s) (\<lambda>k. Ok (mem s k))"

definition uput :: "u32 \<Rightarrow> u8 \<Rightarrow> 'a kproc_scheme \<Rightarrow> 'a kproc_scheme res" where
  "uput a b s = rbind (utrans a s) (\<lambda>k. Ok (s\<lparr>mem := (mem s)(k := b)\<rparr>))"

fun ugets :: "u32 \<Rightarrow> nat \<Rightarrow> 'a kproc_scheme \<Rightarrow> u8 list res" where
  "ugets a 0 s = Ok []"
| "ugets a (Suc n) s = rbind (uget a s) (\<lambda>b. rbind (ugets (a + 1) n s) (\<lambda>bs. Ok (b # bs)))"

fun uputs :: "u32 \<Rightarrow> u8 list \<Rightarrow> 'a kproc_scheme \<Rightarrow> 'a kproc_scheme res" where
  "uputs a [] s = Ok s"
| "uputs a (b # bs) s = rbind (uput a b s) (uputs (a + 1) bs)"

section \<open>Arguments (syscall.c)\<close>

text \<open>The result -1 is \<open>None\<close>.\<close>

definition fetchint :: "u32 \<Rightarrow> 'a kproc_scheme \<Rightarrow> cint option res" where
  "fetchint addr s =
     with_cur s (\<lambda>c.
     let sz = p_sz (procs s ! c)
     in if sz \<le> addr \<or> sz < addr + 4 then Ok None
        else rbind (ugets addr 4 s) (\<lambda>bs. Ok (Some (get32 bs 0))))"

text \<open>The loop of \<open>fetchstr\<close> over the \<open>n\<close> addresses from \<open>a\<close> up to \<open>ep\<close>.\<close>

fun fetch_loop :: "nat \<Rightarrow> u32 \<Rightarrow> 'a kproc_scheme \<Rightarrow> u8 list option res" where
  "fetch_loop 0 a s = Ok None"
| "fetch_loop (Suc n) a s =
     rbind (uget a s) (\<lambda>b.
     if b = 0 then Ok (Some [])
     else rbind (fetch_loop n (a + 1) s) (\<lambda>r. Ok (map_option ((#) b) r)))"

definition fetchstr :: "u32 \<Rightarrow> 'a kproc_scheme \<Rightarrow> u8 list option res" where
  "fetchstr addr s =
     with_cur s (\<lambda>c.
     let sz = p_sz (procs s ! c)
     in if sz \<le> addr then Ok None else fetch_loop (unat (sz - addr)) addr s)"

definition argint :: "nat \<Rightarrow> 'a kproc_scheme \<Rightarrow> cint option res" where
  "argint n s = with_cur s (\<lambda>c. fetchint (load32 (mem s) (p_tf (procs s ! c) + tf_esp) + 4 + 4 * of_nat n) s)"

definition argptr :: "nat \<Rightarrow> cint \<Rightarrow> 'a kproc_scheme \<Rightarrow> u32 option res" where
  "argptr n len s =
     rbind (argint n s) (\<lambda>r.
     case r of
       None \<Rightarrow> Ok None
     | Some i \<Rightarrow>
         with_cur s (\<lambda>c.
         let sz = p_sz (procs s ! c)
         in if len <s 0 \<or> sz \<le> i \<or> sz < i + len then Ok None else Ok (Some i)))"

definition argstr :: "nat \<Rightarrow> 'a kproc_scheme \<Rightarrow> u8 list option res" where
  "argstr n s = rbind (argint n s) (\<lambda>r. case r of None \<Rightarrow> Ok None | Some addr \<Rightarrow> fetchstr addr s)"

text \<open>\<open>if(argxxx(...) < 0) return -1;\<close>\<close>

definition arg :: "'b option res \<Rightarrow> 's \<Rightarrow> ('b \<Rightarrow> (cint \<times> 's) res) \<Rightarrow> (cint \<times> 's) res" where
  "arg r s f = rbind r (\<lambda>x. case x of None \<Rightarrow> Ok (-1, s) | Some v \<Rightarrow> f v)"

section \<open>sysproc.c\<close>

record ksys = kinput +
  ticks :: u32

definition sys_fork :: "u32 \<Rightarrow> 'a kfile_scheme \<Rightarrow> (cint \<times> 'a kfile_scheme) res" where
  "sys_fork kdata s = fork kdata s"

definition sys_exit :: "('a kfile_scheme \<Rightarrow> 'a kfile_scheme) \<Rightarrow> 'a kfile_scheme \<Rightarrow> (cint \<times> 'a kfile_scheme) res" where
  "sys_exit resume s = rbind (exit resume s) (\<lambda>s. Ok (0, s))"

definition sys_wait :: "nat \<Rightarrow> ('a kproc_scheme \<Rightarrow> 'a kproc_scheme) \<Rightarrow> 'a kproc_scheme \<Rightarrow> (cint \<times> 'a kproc_scheme) res" where
  "sys_wait fuel resume s = wait fuel resume s"

definition sys_kill :: "'a kproc_scheme \<Rightarrow> (cint \<times> 'a kproc_scheme) res" where
  "sys_kill s = arg (argint 0 s) s (\<lambda>pid. kill pid s)"

definition sys_getpid :: "'a kproc_scheme \<Rightarrow> (cint \<times> 'a kproc_scheme) res" where
  "sys_getpid s = with_cur s (\<lambda>c. Ok (p_pid (procs s ! c), s))"

definition sys_sbrk :: "'a kproc_scheme \<Rightarrow> (cint \<times> 'a kproc_scheme) res" where
  "sys_sbrk s =
     arg (argint 0 s) s (\<lambda>n.
     with_cur s (\<lambda>c.
     let addr = p_sz (procs s ! c)
     in rbind (growproc n s) (\<lambda>(r, s). if r <s 0 then Ok (-1, s) else Ok (addr, s))))"

text \<open>In \<open>ticks - ticks0 < n\<close> the int \<open>n\<close> is converted to unsigned.\<close>

fun tick_wait ::
  "nat \<Rightarrow> ('a ksys_scheme \<Rightarrow> 'a ksys_scheme) \<Rightarrow> u32 \<Rightarrow> u32 \<Rightarrow> 'a ksys_scheme \<Rightarrow> (cint \<times> 'a ksys_scheme) res" where
  "tick_wait fuel resume ticks0 n s =
     (if ticks s - ticks0 < n
      then with_cur s (\<lambda>c.
           if p_killed (procs s ! c) then rbind (krelease L_tickslock s) (\<lambda>s. Ok (-1, s))
           else case fuel of
                  0 \<Rightarrow> Blocked
                | Suc fuel' \<Rightarrow> rbind (sleep resume C_ticks (Some L_tickslock) s) (tick_wait fuel' resume ticks0 n))
      else rbind (krelease L_tickslock s) (\<lambda>s. Ok (0, s)))"

declare tick_wait.simps [simp del]

definition sys_sleep :: "nat \<Rightarrow> ('a ksys_scheme \<Rightarrow> 'a ksys_scheme) \<Rightarrow> 'a ksys_scheme \<Rightarrow> (cint \<times> 'a ksys_scheme) res" where
  "sys_sleep fuel resume s =
     arg (argint 0 s) s (\<lambda>n.
     rbind (kacquire L_tickslock s) (\<lambda>s. tick_wait fuel resume (ticks s) n s))"

definition sys_uptime :: "'a ksys_scheme \<Rightarrow> (cint \<times> 'a ksys_scheme) res" where
  "sys_uptime s =
     rbind (kacquire L_tickslock s) (\<lambda>s.
     let xticks = ticks s in rbind (krelease L_tickslock s) (\<lambda>s. Ok (xticks, s)))"

definition sys_set_tickets :: "'a kproc_scheme \<Rightarrow> (cint \<times> 'a kproc_scheme) res" where
  "sys_set_tickets s = arg (argint 0 s) s (\<lambda>n. set_tickets n s)"

end
