(* ===== verification/Fcntl.thy ===== *)
theory Fcntl
  imports Prelude
begin

text \<open>fcntl.h: the open modes, shared by the kernel and the user programs.\<close>

definition O_RDONLY :: cint where "O_RDONLY = 0"

definition O_WRONLY :: cint where "O_WRONLY = 1"

definition O_RDWR :: cint where "O_RDWR = 2"

definition O_CREATE :: cint where "O_CREATE = 0x200"

end
