(* ===== verification/Sysfile.thy ===== *)
theory Sysfile
  imports Syscall Fcntl
begin

text \<open>
  sysfile.c: the file system calls. Arguments come from user memory through the functions of
  Syscall; data read or written by a call is copied between user memory and the lists of bytes of
  the file layer.
\<close>

section \<open>Descriptors\<close>

definition argfd :: "nat \<Rightarrow> 'a kproc_scheme \<Rightarrow> (nat \<times> nat) option res" where
  "argfd n s =
     rbind (argint n s) (\<lambda>r.
     case r of
       None \<Rightarrow> Ok None
     | Some fd \<Rightarrow>
         with_cur s (\<lambda>c.
         if fd <s 0 \<or> of_nat NOFILE \<le>s fd then Ok None
         else case p_ofile (procs s ! c) ! unat fd of None \<Rightarrow> Ok None | Some f \<Rightarrow> Ok (Some (unat fd, f))))"

definition fdalloc :: "nat \<Rightarrow> 'a kproc_scheme \<Rightarrow> (nat option \<times> 'a kproc_scheme) res" where
  "fdalloc f s =
     with_cur s (\<lambda>c.
     case first_ix (\<lambda>x. x = None) (p_ofile (procs s ! c)) of
       None \<Rightarrow> Ok (None, s)
     | Some fd \<Rightarrow> Ok (Some fd, upd_proc c (\<lambda>p. p\<lparr>p_ofile := (p_ofile p)[fd := Some f]\<rparr>) s))"

definition sys_dup :: "'a kfile_scheme \<Rightarrow> (cint \<times> 'a kfile_scheme) res" where
  "sys_dup s =
     arg (argfd 0 s) s (\<lambda>(_, f).
     rbind (fdalloc f s) (\<lambda>(r, s).
     case r of
       None \<Rightarrow> Ok (-1, s)
     | Some fd \<Rightarrow> rbind (filedup f s) (\<lambda>(_, s). Ok (of_nat fd, s))))"

definition sys_read :: "'a kfile_scheme devsw list \<Rightarrow> 'a kfile_scheme \<Rightarrow> (cint \<times> 'a kfile_scheme) res" where
  "sys_read dsw s =
     arg (argfd 0 s) s (\<lambda>(_, f).
     arg (argint 2 s) s (\<lambda>n.
     arg (argptr 1 n s) s (\<lambda>p.
     rbind (fileread dsw f n s) (\<lambda>(r, xs, s).
     rbind (uputs p xs s) (\<lambda>s. Ok (r, s))))))"

definition sys_write :: "'a kfile_scheme devsw list \<Rightarrow> 'a kfile_scheme \<Rightarrow> (cint \<times> 'a kfile_scheme) res" where
  "sys_write dsw s =
     arg (argfd 0 s) s (\<lambda>(_, f).
     arg (argint 2 s) s (\<lambda>n.
     arg (argptr 1 n s) s (\<lambda>p.
     rbind (ugets p (unat n) s) (\<lambda>xs. filewrite dsw f xs n s))))"

definition sys_close :: "'a kfile_scheme \<Rightarrow> (cint \<times> 'a kfile_scheme) res" where
  "sys_close s =
     arg (argfd 0 s) s (\<lambda>(fd, f).
     with_cur s (\<lambda>c.
     rbind (fileclose f (upd_proc c (\<lambda>p. p\<lparr>p_ofile := (p_ofile p)[fd := None]\<rparr>) s)) (\<lambda>s. Ok (0, s))))"

text \<open>The fields of struct stat at their offsets; the padding is not written.\<close>

definition put_stat :: "u32 \<Rightarrow> stat \<Rightarrow> 'a kproc_scheme \<Rightarrow> 'a kproc_scheme res" where
  "put_stat a st s =
     rbind (uputs (a + 4) (word_bytes (st_dev st)) s) (\<lambda>s.
     rbind (uputs (a + 8) (word_bytes (st_ino st)) s) (\<lambda>s.
     rbind (uputs a [ucast (st_type st), ucast (drop_bit 8 (st_type st))] s) (\<lambda>s.
     rbind (uputs (a + 12) [ucast (st_nlink st), ucast (drop_bit 8 (st_nlink st))] s) (\<lambda>s.
     uputs (a + 16) (word_bytes (st_size st)) s))))"

definition sys_fstat :: "'a kfile_scheme \<Rightarrow> (cint \<times> 'a kfile_scheme) res" where
  "sys_fstat s =
     arg (argfd 0 s) s (\<lambda>(_, f).
     arg (argptr 1 20 s) s (\<lambda>a.
     rbind (filestat f s) (\<lambda>(r, st, s).
     case st of None \<Rightarrow> Ok (r, s) | Some st \<Rightarrow> rbind (put_stat a st s) (\<lambda>s. Ok (r, s)))))"

section \<open>Links and directories\<close>

definition link_bad :: "nat \<Rightarrow> 'a kfs_scheme \<Rightarrow> (cint \<times> 'a kfs_scheme) res" where
  "link_bad ip s =
     rbind (ilock (Some ip) s) (\<lambda>s.
     rbind (iupdate ip (upd_inode ip (\<lambda>i. i\<lparr>i_nlink := i_nlink i - 1\<rparr>) s)) (\<lambda>s.
     rbind (iunlockput ip s) (\<lambda>s.
     rbind (end_op s) (\<lambda>s. Ok (-1, s)))))"

definition sys_link :: "'a kfs_scheme devsw list \<Rightarrow> 'a kfs_scheme \<Rightarrow> (cint \<times> 'a kfs_scheme) res" where
  "sys_link dsw s =
     arg (argstr 0 s) s (\<lambda>old.
     arg (argstr 1 s) s (\<lambda>new.
     rbind (begin_op_now s) (\<lambda>s.
     rbind (namei dsw old s) (\<lambda>(ipo, s).
     case ipo of
       None \<Rightarrow> rbind (end_op s) (\<lambda>s. Ok (-1, s))
     | Some ip \<Rightarrow>
         rbind (ilock (Some ip) s) (\<lambda>s.
         if i_type (inodes s ! ip) = T_DIR
         then rbind (iunlockput ip s) (\<lambda>s. rbind (end_op s) (\<lambda>s. Ok (-1, s)))
         else
           rbind (iupdate ip (upd_inode ip (\<lambda>i. i\<lparr>i_nlink := i_nlink i + 1\<rparr>) s)) (\<lambda>s.
           rbind (iunlock (Some ip) s) (\<lambda>s.
           rbind (nameiparent dsw new (replicate DIRSIZ 0) s) (\<lambda>(dpo, name, s).
           case dpo of
             None \<Rightarrow> link_bad ip s
           | Some dp \<Rightarrow>
               rbind (ilock (Some dp) s) (\<lambda>s.
               rbind (if i_dev (inodes s ! dp) \<noteq> i_dev (inodes s ! ip) then Ok (-1, s)
                      else dirlink dsw dp name (i_inum (inodes s ! ip)) s) (\<lambda>(r, s).
               if r <s 0 then rbind (iunlockput dp s) (link_bad ip)
               else rbind (iunlockput dp s) (\<lambda>s.
                    rbind (iput ip s) (\<lambda>s.
                    rbind (end_op s) (\<lambda>s. Ok (0, s))))))))))))))"

fun isdirempty_loop :: "nat \<Rightarrow> 'a kfs_scheme devsw list \<Rightarrow> nat \<Rightarrow> u32 \<Rightarrow> 'a kfs_scheme \<Rightarrow> (bool \<times> 'a kfs_scheme) res" where
  "isdirempty_loop 0 dsw dp off s = Blocked"
| "isdirempty_loop (Suc k) dsw dp off s =
     (if off < i_size (inodes s ! dp)
      then rbind (readi dsw dp off (of_nat dirent_size) s) (\<lambda>(r, de, s).
           if r \<noteq> of_nat dirent_size then Panic ''isdirempty: readi''
           else if de_inum de \<noteq> 0 then Ok (False, s)
           else isdirempty_loop k dsw dp (off + of_nat dirent_size) s)
      else Ok (True, s))"

definition isdirempty :: "'a kfs_scheme devsw list \<Rightarrow> nat \<Rightarrow> 'a kfs_scheme \<Rightarrow> (bool \<times> 'a kfs_scheme) res" where
  "isdirempty dsw dp s = isdirempty_loop (dir_rounds dp s) dsw dp (2 * of_nat dirent_size) s"

definition unlink_bad :: "nat \<Rightarrow> 'a kfs_scheme \<Rightarrow> (cint \<times> 'a kfs_scheme) res" where
  "unlink_bad dp s = rbind (iunlockput dp s) (\<lambda>s. rbind (end_op s) (\<lambda>s. Ok (-1, s)))"

definition sys_unlink :: "'a kfs_scheme devsw list \<Rightarrow> 'a kfs_scheme \<Rightarrow> (cint \<times> 'a kfs_scheme) res" where
  "sys_unlink dsw s =
     arg (argstr 0 s) s (\<lambda>path.
     rbind (begin_op_now s) (\<lambda>s.
     rbind (nameiparent dsw path (replicate DIRSIZ 0) s) (\<lambda>(dpo, name, s).
     case dpo of
       None \<Rightarrow> rbind (end_op s) (\<lambda>s. Ok (-1, s))
     | Some dp \<Rightarrow>
         rbind (ilock (Some dp) s) (\<lambda>s.
         if namecmp name (bytes ''.'') = 0 \<or> namecmp name (bytes ''..'') = 0 then unlink_bad dp s
         else rbind (dirlookup dsw dp name s) (\<lambda>(r, s).
           case r of
             None \<Rightarrow> unlink_bad dp s
           | Some (ip, off) \<Rightarrow>
               rbind (ilock (Some ip) s) (\<lambda>s.
               if i_nlink (inodes s ! ip) <s 1 then Panic ''unlink: nlink < 1''
               else rbind (if i_type (inodes s ! ip) = T_DIR then isdirempty dsw ip s else Ok (True, s)) (\<lambda>(e, s).
                 if \<not> e then rbind (iunlockput ip s) (unlink_bad dp)
                 else rbind (writei dsw dp (replicate dirent_size 0) off (of_nat dirent_size) s) (\<lambda>(r, s).
                   if r \<noteq> of_nat dirent_size then Panic ''unlink: writei''
                   else
                     rbind (if i_type (inodes s ! ip) = T_DIR
                            then iupdate dp (upd_inode dp (\<lambda>i. i\<lparr>i_nlink := i_nlink i - 1\<rparr>) s)
                            else Ok s) (\<lambda>s.
                     rbind (iunlockput dp s) (\<lambda>s.
                     rbind (iupdate ip (upd_inode ip (\<lambda>i. i\<lparr>i_nlink := i_nlink i - 1\<rparr>) s)) (\<lambda>s.
                     rbind (iunlockput ip s) (\<lambda>s.
                     rbind (end_op s) (\<lambda>s. Ok (0, s))))))))))))))"

definition create ::
  "'a kfs_scheme devsw list \<Rightarrow> u8 list \<Rightarrow> u16 \<Rightarrow> u16 \<Rightarrow> u16 \<Rightarrow> 'a kfs_scheme \<Rightarrow> (nat option \<times> 'a kfs_scheme) res" where
  "create dsw path type major minor s =
     rbind (nameiparent dsw path (replicate DIRSIZ 0) s) (\<lambda>(dpo, name, s).
     case dpo of
       None \<Rightarrow> Ok (None, s)
     | Some dp \<Rightarrow>
         rbind (ilock (Some dp) s) (\<lambda>s.
         rbind (dirlookup dsw dp name s) (\<lambda>(r, s).
         case r of
           Some (ip, _) \<Rightarrow>
             rbind (iunlockput dp s) (\<lambda>s.
             rbind (ilock (Some ip) s) (\<lambda>s.
             if type = T_FILE \<and> i_type (inodes s ! ip) = T_FILE then Ok (Some ip, s)
             else rbind (iunlockput ip s) (\<lambda>s. Ok (None, s))))
         | None \<Rightarrow>
             rbind (ialloc (i_dev (inodes s ! dp)) type s) (\<lambda>(ip, s).
             rbind (ilock (Some ip) s) (\<lambda>s.
             rbind (iupdate ip (upd_inode ip (\<lambda>i. i\<lparr>i_major := major, i_minor := minor, i_nlink := 1\<rparr>) s)) (\<lambda>s.
             rbind (if type = T_DIR
                    then rbind (iupdate dp (upd_inode dp (\<lambda>i. i\<lparr>i_nlink := i_nlink i + 1\<rparr>) s)) (\<lambda>s.
                         rbind (dirlink dsw ip (bytes ''.'') (i_inum (inodes s ! ip)) s) (\<lambda>(r, s).
                         if r <s 0 then Panic ''create dots''
                         else rbind (dirlink dsw ip (bytes ''..'') (i_inum (inodes s ! dp)) s) (\<lambda>(r, s).
                              if r <s 0 then Panic ''create dots'' else Ok s)))
                    else Ok s) (\<lambda>s.
             rbind (dirlink dsw dp name (i_inum (inodes s ! ip)) s) (\<lambda>(r, s).
             if r <s 0 then Panic ''create: dirlink''
             else rbind (iunlockput dp s) (\<lambda>s. Ok (Some ip, s))))))))))"

section \<open>open and the rest\<close>

text \<open>The inode \<open>sys_open\<close> will open, locked, or \<open>None\<close> for the return of -1.\<close>

definition open_inode :: "'a kfs_scheme devsw list \<Rightarrow> u8 list \<Rightarrow> cint \<Rightarrow> 'a kfs_scheme \<Rightarrow> (nat option \<times> 'a kfs_scheme) res" where
  "open_inode dsw path omode s =
     (if omode AND O_CREATE \<noteq> 0
      then rbind (create dsw path T_FILE 0 0 s) (\<lambda>(r, s).
           case r of None \<Rightarrow> rbind (end_op s) (\<lambda>s. Ok (None, s)) | Some ip \<Rightarrow> Ok (Some ip, s))
      else rbind (namei dsw path s) (\<lambda>(r, s).
           case r of
             None \<Rightarrow> rbind (end_op s) (\<lambda>s. Ok (None, s))
           | Some ip \<Rightarrow>
               rbind (ilock (Some ip) s) (\<lambda>s.
               if i_type (inodes s ! ip) = T_DIR \<and> omode \<noteq> O_RDONLY
               then rbind (iunlockput ip s) (\<lambda>s. rbind (end_op s) (\<lambda>s. Ok (None, s)))
               else Ok (Some ip, s))))"

text \<open>\<open>filealloc\<close>, then \<open>fdalloc\<close>; what fails is undone.\<close>

definition open_fd :: "'a kfile_scheme \<Rightarrow> ((nat \<times> nat) option \<times> 'a kfile_scheme) res" where
  "open_fd s =
     rbind (filealloc s) (\<lambda>(fo, s).
     case fo of
       None \<Rightarrow> Ok (None, s)
     | Some f \<Rightarrow>
         rbind (fdalloc f s) (\<lambda>(r, s).
         case r of None \<Rightarrow> rbind (fileclose f s) (\<lambda>s. Ok (None, s)) | Some fd \<Rightarrow> Ok (Some (f, fd), s)))"

definition sys_open :: "'a kfile_scheme devsw list \<Rightarrow> 'a kfile_scheme \<Rightarrow> (cint \<times> 'a kfile_scheme) res" where
  "sys_open dsw s =
     arg (argstr 0 s) s (\<lambda>path.
     arg (argint 1 s) s (\<lambda>omode.
     rbind (begin_op_now s) (\<lambda>s.
     rbind (open_inode dsw path omode s) (\<lambda>(r, s).
     case r of
       None \<Rightarrow> Ok (-1, s)
     | Some ip \<Rightarrow>
         rbind (open_fd s) (\<lambda>(r, s).
         case r of
           None \<Rightarrow> rbind (iunlockput ip s) (\<lambda>s. rbind (end_op s) (\<lambda>s. Ok (-1, s)))
         | Some (f, fd) \<Rightarrow>
             rbind (iunlock (Some ip) s) (\<lambda>s.
             rbind (end_op s) (\<lambda>s.
             let s = upd_file f (\<lambda>x. x\<lparr>f_type := FD_INODE, f_ip := ip, f_off := 0,
                       f_readable := (omode AND O_WRONLY = 0),
                       f_writable := (omode AND O_WRONLY \<noteq> 0 \<or> omode AND O_RDWR \<noteq> 0)\<rparr>) s
             in Ok (of_nat fd, s))))))))"

text \<open>\<open>sys_mkdir\<close> and \<open>sys_mknod\<close> open the transaction before they look at their arguments.\<close>

definition create_call :: "(nat option \<times> 'a kfs_scheme) res \<Rightarrow> (cint \<times> 'a kfs_scheme) res" where
  "create_call r =
     rbind r (\<lambda>(ipo, s).
     case ipo of
       None \<Rightarrow> rbind (end_op s) (\<lambda>s. Ok (-1, s))
     | Some ip \<Rightarrow> rbind (iunlockput ip s) (\<lambda>s. rbind (end_op s) (\<lambda>s. Ok (0, s))))"

definition sys_mkdir :: "'a kfs_scheme devsw list \<Rightarrow> 'a kfs_scheme \<Rightarrow> (cint \<times> 'a kfs_scheme) res" where
  "sys_mkdir dsw s =
     rbind (begin_op_now s) (\<lambda>s.
     rbind (argstr 0 s) (\<lambda>p.
     create_call (case p of None \<Rightarrow> Ok (None, s) | Some path \<Rightarrow> create dsw path T_DIR 0 0 s)))"

definition sys_mknod :: "'a kfs_scheme devsw list \<Rightarrow> 'a kfs_scheme \<Rightarrow> (cint \<times> 'a kfs_scheme) res" where
  "sys_mknod dsw s =
     rbind (begin_op_now s) (\<lambda>s.
     rbind (argstr 0 s) (\<lambda>p.
     create_call (case p of
         None \<Rightarrow> Ok (None, s)
       | Some path \<Rightarrow>
           rbind (argint 1 s) (\<lambda>a.
           case a of
             None \<Rightarrow> Ok (None, s)
           | Some major \<Rightarrow>
               rbind (argint 2 s) (\<lambda>b.
               case b of
                 None \<Rightarrow> Ok (None, s)
               | Some minor \<Rightarrow> create dsw path T_DEV (ucast major) (ucast minor) s)))))"

definition sys_chdir :: "'a kfs_scheme devsw list \<Rightarrow> 'a kfs_scheme \<Rightarrow> (cint \<times> 'a kfs_scheme) res" where
  "sys_chdir dsw s =
     rbind (begin_op_now s) (\<lambda>s.
     rbind (argstr 0 s) (\<lambda>p.
     rbind (case p of None \<Rightarrow> Ok (None, s) | Some path \<Rightarrow> namei dsw path s) (\<lambda>(ipo, s).
     case ipo of
       None \<Rightarrow> rbind (end_op s) (\<lambda>s. Ok (-1, s))
     | Some ip \<Rightarrow>
         rbind (ilock (Some ip) s) (\<lambda>s.
         if i_type (inodes s ! ip) \<noteq> T_DIR
         then rbind (iunlockput ip s) (\<lambda>s. rbind (end_op s) (\<lambda>s. Ok (-1, s)))
         else
           rbind (iunlock (Some ip) s) (\<lambda>s.
           with_cur s (\<lambda>c.
           rbind (case p_cwd (procs s ! c) of None \<Rightarrow> Panic ''trap'' | Some d \<Rightarrow> iput d s) (\<lambda>s.
           rbind (end_op s) (\<lambda>s.
           Ok (0, upd_proc c (\<lambda>p. p\<lparr>p_cwd := Some ip\<rparr>) s)))))))))"

text \<open>The loop of \<open>sys_exec\<close> over the argument pointers, \<open>k\<close> entries of \<open>argv\<close> left.\<close>

fun exec_args :: "nat \<Rightarrow> u32 \<Rightarrow> 'a kproc_scheme \<Rightarrow> u8 list list option res" where
  "exec_args 0 a s = Ok None"
| "exec_args (Suc k) a s =
     rbind (fetchint a s) (\<lambda>r.
     case r of
       None \<Rightarrow> Ok None
     | Some uarg \<Rightarrow>
         if uarg = 0 then Ok (Some [])
         else rbind (fetchstr uarg s) (\<lambda>r.
              case r of
                None \<Rightarrow> Ok None
              | Some str \<Rightarrow> rbind (exec_args k (a + 4) s) (\<lambda>r. Ok (map_option ((#) str) r))))"

definition sys_exec :: "'a kfile_scheme devsw list \<Rightarrow> u32 \<Rightarrow> 'a kfile_scheme \<Rightarrow> (cint \<times> 'a kfile_scheme) res" where
  "sys_exec dsw kdata s =
     arg (argstr 0 s) s (\<lambda>path.
     arg (argint 1 s) s (\<lambda>uargv.
     arg (exec_args MAXARG uargv s) s (\<lambda>argv. exec dsw kdata path argv s)))"

definition sys_pipe :: "'a kfile_scheme \<Rightarrow> (cint \<times> 'a kfile_scheme) res" where
  "sys_pipe s =
     arg (argptr 0 8 s) s (\<lambda>fd.
     rbind (pipealloc s) (\<lambda>(r, s).
     case r of
       None \<Rightarrow> Ok (-1, s)
     | Some (rdf, wrf) \<Rightarrow>
         rbind (fdalloc rdf s) (\<lambda>(a, s).
         case a of
           None \<Rightarrow> rbind (fileclose rdf s) (\<lambda>s. rbind (fileclose wrf s) (\<lambda>s. Ok (-1, s)))
         | Some fd0 \<Rightarrow>
             rbind (fdalloc wrf s) (\<lambda>(b, s).
             case b of
               None \<Rightarrow>
                 with_cur s (\<lambda>c.
                 let s = upd_proc c (\<lambda>p. p\<lparr>p_ofile := (p_ofile p)[fd0 := None]\<rparr>) s
                 in rbind (fileclose rdf s) (\<lambda>s. rbind (fileclose wrf s) (\<lambda>s. Ok (-1, s))))
             | Some fd1 \<Rightarrow>
                 rbind (uputs fd (word_bytes (of_nat fd0)) s) (\<lambda>s.
                 rbind (uputs (fd + 4) (word_bytes (of_nat fd1)) s) (\<lambda>s. Ok (0, s)))))))"

end
