(* ===== verification/Traps.thy ===== *)
theory Traps
  imports Prelude
begin

text \<open>
  The trap and interrupt numbers of traps.h that the kernel uses.
\<close>

definition T_SYSCALL :: u32 where "T_SYSCALL = 64"

definition T_IRQ0 :: u32 where "T_IRQ0 = 32"

definition IRQ_TIMER :: u32 where "IRQ_TIMER = 0"

definition IRQ_KBD :: u32 where "IRQ_KBD = 1"

definition IRQ_COM1 :: u32 where "IRQ_COM1 = 4"

definition IRQ_IDE :: u32 where "IRQ_IDE = 14"

definition IRQ_ERROR :: u32 where "IRQ_ERROR = 19"

definition IRQ_SPURIOUS :: u32 where "IRQ_SPURIOUS = 31"

end
