(* ===== verification/Trap.thy ===== *)
theory Trap
  imports Sysfile Traps
begin

text \<open>
  The dispatch of system calls (the rest of syscall.c, with the numbers of syscall.h) and trap.c.
  The trap frame lies in memory at address \<open>tf\<close>. Acknowledging an interrupt at the local APIC and
  the disk interrupt, which the memory disk does not have, are not modelled. \<open>cr2\<close> is the fault
  address register. A call that never returns, or that waits, is \<open>Blocked\<close> or a panic; \<open>resume\<close>
  is what happens while the process is switched out, and \<open>fuel\<close> bounds the sleeps.
\<close>

section \<open>System calls (syscall.h, syscall.c)\<close>

text \<open>The table: entry \<open>n\<close> of \<open>syscalls\<close>, with \<open>None\<close> for a null pointer.\<close>

definition syscalls ::
  "nat \<Rightarrow> ('a ksys_scheme \<Rightarrow> 'a ksys_scheme) \<Rightarrow> 'a ksys_scheme devsw list \<Rightarrow> u32 \<Rightarrow> nat \<Rightarrow>
   ('a ksys_scheme \<Rightarrow> (cint \<times> 'a ksys_scheme) res) option" where
  "syscalls fuel resume dsw kdata =
     map_of
       [(1, sys_fork kdata), (2, sys_exit resume), (3, sys_wait fuel resume), (4, sys_pipe), (5, sys_read dsw),
        (6, sys_kill), (7, sys_exec dsw kdata), (8, sys_fstat), (9, sys_chdir dsw), (10, sys_dup), (11, sys_getpid),
        (12, sys_sbrk), (13, sys_sleep fuel resume), (14, sys_uptime), (15, sys_open dsw), (16, sys_write dsw),
        (17, sys_mknod dsw), (18, sys_unlink dsw), (19, sys_link dsw), (20, sys_mkdir dsw), (21, sys_close),
        (22, sys_set_tickets)]"

definition NSYSCALLS :: cint where "NSYSCALLS = 23"

definition set_eax :: "cint \<Rightarrow> 'a kproc_scheme \<Rightarrow> 'a kproc_scheme res" where
  "set_eax r s = with_cur s (\<lambda>c. Ok (s\<lparr>mem := store32 (mem s) (p_tf (procs s ! c) + tf_eax) r\<rparr>))"

definition syscall ::
  "nat \<Rightarrow> ('a ksys_scheme \<Rightarrow> 'a ksys_scheme) \<Rightarrow> 'a ksys_scheme devsw list \<Rightarrow> u32 \<Rightarrow> 'a ksys_scheme \<Rightarrow> 'a ksys_scheme res" where
  "syscall fuel resume dsw kdata s =
     with_cur s (\<lambda>c.
     let num = load32 (mem s) (p_tf (procs s ! c) + tf_eax);
         f = (if 0 <s num \<and> num <s NSYSCALLS then syscalls fuel resume dsw kdata (unat num) else None)
     in case f of
          Some f \<Rightarrow> rbind (f s) (\<lambda>(r, s). set_eax r s)
        | None \<Rightarrow>
            rbind (cprintf ''%d %s: unknown sys call %d\<newline>''
              (va [(p_pid (procs s ! c), []), (1, cstr (p_name (procs s ! c))), (num, [])]) s) (set_eax (-1)))"

section \<open>Traps (traps.h, trap.c)\<close>

text \<open>\<open>cpunum()\<close> is the number of the running CPU.\<close>

definition timer_tick :: "'a ksys_scheme \<Rightarrow> 'a ksys_scheme res" where
  "timer_tick s =
     (if this_cpu (lk s) = 0
      then rbind (kacquire L_tickslock s) (\<lambda>s.
           rbind (wakeup C_ticks (s\<lparr>ticks := ticks s + 1\<rparr>)) (krelease L_tickslock))
      else Ok s)"

definition trap_default :: "u32 \<Rightarrow> u32 \<Rightarrow> 'a ksys_scheme \<Rightarrow> 'a ksys_scheme res" where
  "trap_default cr2 tf s =
     (let no = load32 (mem s) (tf + tf_trapno); eip = load32 (mem s) (tf + tf_eip);
          cpun = of_nat (this_cpu (lk s))
      in if cur s = None \<or> load16 (mem s) (tf + tf_cs) AND 3 = 0
         then rbind (cprintf ''unexpected trap %d from cpu %d eip %x (cr2=0x%x)\<newline>''
                (va [(no, []), (cpun, []), (eip, []), (cr2, [])]) s) (\<lambda>_. Panic ''trap'')
         else with_cur s (\<lambda>c.
              rbind (cprintf ''pid %d %s: trap %d err %d on cpu %d eip 0x%x addr 0x%x--kill proc\<newline>''
                (va [(p_pid (procs s ! c), []), (1, cstr (p_name (procs s ! c))), (no, []),
                     (load32 (mem s) (tf + tf_err), []), (cpun, []), (eip, []), (cr2, [])]) s) (\<lambda>s.
              Ok (upd_proc c (\<lambda>p. p\<lparr>p_killed := True\<rparr>) s))))"

definition interrupt :: "u32 \<Rightarrow> u32 \<Rightarrow> 'a ksys_scheme \<Rightarrow> 'a ksys_scheme res" where
  "interrupt cr2 tf s =
     (let no = load32 (mem s) (tf + tf_trapno)
      in if no = T_IRQ0 + IRQ_TIMER then timer_tick s
         else if no = T_IRQ0 + IRQ_IDE \<or> no = T_IRQ0 + IRQ_IDE + 1 then Ok s
         else if no = T_IRQ0 + IRQ_KBD then kbdintr s
         else if no = T_IRQ0 + IRQ_COM1 then uartintr s
         else if no = T_IRQ0 + 7 \<or> no = T_IRQ0 + IRQ_SPURIOUS
         then cprintf ''cpu%d: spurious interrupt at %x:%x\<newline>''
                (va [(of_nat (this_cpu (lk s)), []), (ucast (load16 (mem s) (tf + tf_cs)), []), (load32 (mem s) (tf + tf_eip), [])]) s
         else trap_default cr2 tf s)"

text \<open>\<open>if(proc && proc->killed && ...) exit();\<close>\<close>

definition exit_if :: "('a ksys_scheme \<Rightarrow> 'a ksys_scheme) \<Rightarrow> bool \<Rightarrow> 'a ksys_scheme \<Rightarrow> 'a ksys_scheme res" where
  "exit_if resume b s =
     (case cur s of
        None \<Rightarrow> Ok s
      | Some c \<Rightarrow> if p_killed (procs s ! c) \<and> b then exit resume s else Ok s)"

definition trap ::
  "nat \<Rightarrow> ('a ksys_scheme \<Rightarrow> 'a ksys_scheme) \<Rightarrow> 'a ksys_scheme devsw list \<Rightarrow> u32 \<Rightarrow> u32 \<Rightarrow> u32 \<Rightarrow>
   'a ksys_scheme \<Rightarrow> 'a ksys_scheme res" where
  "trap fuel resume dsw kdata cr2 tf s =
     (if load32 (mem s) (tf + tf_trapno) = T_SYSCALL
      then with_cur s (\<lambda>c.
           rbind (exit_if resume True s) (\<lambda>s.
           rbind (syscall fuel resume dsw kdata (upd_proc c (\<lambda>p. p\<lparr>p_tf := tf\<rparr>) s)) (\<lambda>s.
           exit_if resume True s)))
      else
        rbind (interrupt cr2 tf s) (\<lambda>s.
        rbind (exit_if resume (load16 (mem s) (tf + tf_cs) AND 3 = DPL_USER) s) (\<lambda>s.
        rbind (case cur s of
                 None \<Rightarrow> Ok s
               | Some c \<Rightarrow> if p_state (procs s ! c) = RUNNING \<and> load32 (mem s) (tf + tf_trapno) = T_IRQ0 + IRQ_TIMER
                           then yield resume s else Ok s) (\<lambda>s.
        exit_if resume (load16 (mem s) (tf + tf_cs) AND 3 = DPL_USER) s))))"

end
