(* ===== verification/Ulib.thy ===== *)
theory Ulib
  imports Strings Fcntl
begin

text \<open>
  The user library: ulib.c and printf.c. C strings are lists of bytes as in Strings; system
  calls that a function makes are its parameters, or its input and output as byte lists
  (\<open>read\<close> of one byte from descriptor 0, \<open>write\<close> of one byte to a descriptor).
\<close>

section \<open>ulib.c\<close>

text \<open>\<open>strcpy\<close> runs until it meets a NUL; the bound is on the number of bytes.\<close>

fun ustrcpy :: "nat \<Rightarrow> memory \<Rightarrow> u32 \<Rightarrow> u32 \<Rightarrow> memory option" where
  "ustrcpy 0 m s t = None"
| "ustrcpy (Suc fuel) m s t =
     (let c = m t; m = m(s := c)
      in if c \<noteq> 0 then ustrcpy fuel m (s + 1) (t + 1) else Some m)"

fun strcmp :: "u8 list \<Rightarrow> u8 list \<Rightarrow> int" where
  "strcmp [] q = bdiff 0 (hd0 q)"
| "strcmp (c # p) q = (if c \<noteq> 0 \<and> c = hd0 q then strcmp p (tl q) else bdiff c (hd0 q))"

fun ustrlen :: "u8 list \<Rightarrow> nat" where
  "ustrlen [] = 0"
| "ustrlen (c # s) = (if c = 0 then 0 else Suc (ustrlen s))"

definition umemset :: "memory \<Rightarrow> u32 \<Rightarrow> u32 \<Rightarrow> nat \<Rightarrow> memory" where
  "umemset m dst c n = stosb m dst (ucast c) n"

text \<open>The string from the found character on.\<close>

fun strchr :: "u8 list \<Rightarrow> u8 \<Rightarrow> u8 list option" where
  "strchr [] c = None"
| "strchr (x # s) c = (if x = 0 then None else if x = c then Some (x # s) else strchr s c)"

text \<open>The bytes stored before the NUL, and the input left.\<close>

fun gets_loop :: "nat \<Rightarrow> u8 list \<Rightarrow> u8 list \<times> u8 list" where
  "gets_loop 0 input = ([], input)"
| "gets_loop (Suc n) [] = ([], [])"
| "gets_loop (Suc n) (c # input) =
     (if c = 10 \<or> c = 13 then ([c], input)
      else let (b, rest) = gets_loop n input in (c # b, rest))"

definition gets :: "int \<Rightarrow> u8 list \<Rightarrow> u8 list \<times> u8 list" where
  "gets mx input = gets_loop (nat (mx - 1)) input"

definition ustat ::
  "(u8 list \<Rightarrow> cint \<Rightarrow> 's \<Rightarrow> cint \<times> 's) \<Rightarrow> (cint \<Rightarrow> 's \<Rightarrow> cint \<times> 'st \<times> 's) \<Rightarrow> (cint \<Rightarrow> 's \<Rightarrow> 's) \<Rightarrow>
   u8 list \<Rightarrow> 'st \<Rightarrow> 's \<Rightarrow> cint \<times> 'st \<times> 's" where
  "ustat open_call fstat_call close_call n st s =
     (let (fd, s) = open_call n O_RDONLY s
      in if fd <s 0 then (-1, st, s)
         else let (r, st, s) = fstat_call fd s in (r, st, close_call fd s))"

fun atoi_loop :: "cint \<Rightarrow> u8 list \<Rightarrow> cint" where
  "atoi_loop n [] = n"
| "atoi_loop n (c # s) = (if 48 \<le> c \<and> c \<le> 57 then atoi_loop (n * 10 + ucast c - 48) s else n)"

definition atoi :: "u8 list \<Rightarrow> cint" where
  "atoi s = atoi_loop 0 s"

text \<open>\<open>while(n-- > 0)\<close>: nothing is copied for a negative count.\<close>

definition umemmove :: "memory \<Rightarrow> u32 \<Rightarrow> u32 \<Rightarrow> cint \<Rightarrow> memory" where
  "umemmove m dst src n = copy_fwd m src dst (nat (sint n))"

section \<open>printf.c\<close>

definition udigits :: "u8 list" where
  "udigits = bytes ''0123456789ABCDEF''"

text \<open>The digits, least significant first, as the \<open>do\<close> loop stores them.\<close>

function uprintdigits :: "nat \<Rightarrow> nat \<Rightarrow> u8 list" where
  "uprintdigits x base =
     udigits ! (x mod base) # (if base \<le> 1 \<or> x div base = 0 then [] else uprintdigits (x div base) base)"
  by pat_completeness auto
termination
  by (relation "measure fst") (auto intro!: div_less_dividend gr0I)

declare uprintdigits.simps [simp del]

definition uprintint :: "cint \<Rightarrow> nat \<Rightarrow> bool \<Rightarrow> u8 list" where
  "uprintint xx base sg =
     (let neg = sg \<and> xx <s 0;
          x = (if neg then - xx else xx);
          buf = uprintdigits (unat x) base;
          buf = (if neg then buf @ [chr CHR ''-''] else buf)
      in rev buf)"

text \<open>The characters \<open>printf\<close> puts: \<open>pct\<close> is its variable \<open>state\<close>, \<open>n\<close> the argument \<open>ap\<close> is at.
  The first component of an argument is the word, the second the C string at that address.\<close>

fun uformat :: "u8 list \<Rightarrow> bool \<Rightarrow> (nat \<Rightarrow> carg) \<Rightarrow> nat \<Rightarrow> u8 list" where
  "uformat [] pct args n = []"
| "uformat (c # fmt) pct args n =
     (if c = 0 then []
      else if \<not> pct then
        (if c = chr CHR ''%'' then uformat fmt True args n else c # uformat fmt False args n)
      else if c = chr CHR ''d'' then uprintint (fst (args n)) 10 True @ uformat fmt False args (Suc n)
      else if c = chr CHR ''x'' \<or> c = chr CHR ''p''
      then uprintint (fst (args n)) 16 False @ uformat fmt False args (Suc n)
      else if c = chr CHR ''s''
      then (if fst (args n) = 0 then bytes ''(null)'' else cstr (snd (args n))) @ uformat fmt False args (Suc n)
      else if c = chr CHR ''c'' then ucast (fst (args n)) # uformat fmt False args (Suc n)
      else if c = chr CHR ''%'' then c # uformat fmt False args n
      else chr CHR ''%'' # c # uformat fmt False args n)"

text \<open>What has been written to each descriptor.\<close>

definition uprintf :: "cint \<Rightarrow> u8 list \<Rightarrow> (nat \<Rightarrow> carg) \<Rightarrow> (cint \<Rightarrow> u8 list) \<Rightarrow> cint \<Rightarrow> u8 list" where
  "uprintf fd fmt args out = out(fd := out fd @ uformat fmt False args 0)"

section \<open>Lemmas\<close>

lemma ustrlen_eq: "ustrlen s = length (cstr s)"
  by (induction s) auto

lemma strcmp_0_iff: "strcmp p q = 0 \<longleftrightarrow> cstr p = cstr q"
proof (induction p q rule: strcmp.induct)
  case (1 q)
  then show ?case by (cases q) auto
next
  case (2 c p q)
  then show ?case by (cases q) auto
qed

lemma strchr_None_iff: "strchr s c = None \<longleftrightarrow> c \<notin> set (cstr s)"
  by (induction s) auto

lemma strchr_SomeD: "strchr s c = Some t \<Longrightarrow> \<exists>pre rest. s = pre @ c # rest \<and> t = c # rest \<and> c \<notin> set pre \<and> 0 \<notin> set pre \<and> c \<noteq> 0"
proof (induction s)
  case (Cons x s)
  show ?case
  proof (cases "x = c")
    case True
    then show ?thesis using Cons.prems by (intro exI [of _ "[]"] exI [of _ s]) (auto split: if_splits)
  next
    case False
    then have "x \<noteq> 0" "strchr s c = Some t" using Cons.prems by (auto split: if_splits)
    then obtain pre rest where "s = pre @ c # rest" "t = c # rest" "c \<notin> set pre" "0 \<notin> set pre" "c \<noteq> 0"
      using Cons.IH by blast
    then show ?thesis using False \<open>x \<noteq> 0\<close> by (intro exI [of _ "x # pre"] exI [of _ rest]) auto
  qed
qed simp

text \<open>\<open>strcpy\<close> returns when the source has a NUL and is not overwritten while it is read.\<close>

lemma ustrcpy_eq:
  assumes "\<forall>i<n. m (t + of_nat i) \<noteq> 0" "m (t + of_nat n) = 0" "n < fuel" "n < unat (s - t)" "n < 4294967295"
  shows "ustrcpy fuel m s t = Some (copy_fwd m t s (Suc n))"
  using assms
proof (induction n arbitrary: fuel m s t)
  case 0
  then show ?case by (cases fuel) (auto simp: Let_def)
next
  case (Suc n)
  obtain f where f: "fuel = Suc f" using Suc.prems(3) by (cases fuel) auto
  have ne: "t + 1 + of_nat i \<noteq> s" if "i \<le> n" for i
  proof
    assume "t + 1 + of_nat i = s"
    then have "s - t = of_nat (Suc i)" by (simp add: algebra_simps)
    then have "unat (s - t) = Suc i" using that Suc.prems(5) unat_of_nat_u32 [of "Suc i"] by (simp del: of_nat_Suc)
    then show False using Suc.prems(4) that by simp
  qed
  let ?m = "m(s := m t)"
  have "m t \<noteq> 0" using Suc.prems(1) [rule_format, of 0] by simp
  moreover have "ustrcpy f ?m (s + 1) (t + 1) = Some (copy_fwd ?m (t + 1) (s + 1) (Suc n))"
  proof (rule Suc.IH)
    show "\<forall>i<n. ?m (t + 1 + of_nat i) \<noteq> 0"
    proof (intro allI impI)
      fix i assume i: "i < n"
      have "m (t + of_nat (Suc i)) \<noteq> 0" using Suc.prems(1) i by blast
      then show "?m (t + 1 + of_nat i) \<noteq> 0" using ne [of i] i by (simp add: ac_simps)
    qed
    show "?m (t + 1 + of_nat n) = 0" using Suc.prems(2) ne [of n] by (simp add: ac_simps)
    show "n < f" using Suc.prems(3) f by simp
    have "s + 1 - (t + 1) = s - t" by simp
    then show "n < unat (s + 1 - (t + 1))" using Suc.prems(4) by simp
    show "n < 4294967295" using Suc.prems(5) by simp
  qed
  ultimately show ?case by (simp add: f Let_def)
qed

section \<open>Numbers\<close>

lemma udigits_nth: "d < 10 \<Longrightarrow> udigits ! d = of_nat (48 + d)"
proof -
  assume "d < 10"
  then have "d \<in> {0, 1, 2, 3, 4, 5, 6, 7, 8, 9}" by auto
  then show ?thesis by (auto simp: udigits_def bytes_def)
qed

lemma atoi_loop_digit: "d < 10 \<Longrightarrow> atoi_loop n (of_nat (48 + d) # s) = atoi_loop (n * 10 + of_nat d) s"
proof -
  assume "d < 10"
  then have "d \<in> {0, 1, 2, 3, 4, 5, 6, 7, 8, 9}" by auto
  then show ?thesis by (auto simp: add.commute [of _ "n * 10"])
qed

lemma atoi_loop_uprintdigits: "atoi_loop 0 (rev (uprintdigits x 10) @ s) = atoi_loop (of_nat x) s"
proof (induction x arbitrary: s rule: less_induct)
  case (less x)
  have d: "udigits ! (x mod 10) = of_nat (48 + x mod 10)" by (rule udigits_nth) simp
  have step: "atoi_loop n (udigits ! (x mod 10) # s) = atoi_loop (n * 10 + of_nat (x mod 10)) s" for n
    unfolding d by (rule atoi_loop_digit) simp
  show ?case
  proof (cases "x div 10 = 0")
    case True
    then have "x mod 10 = x" by (simp add: div_eq_0_iff)
    then show ?thesis using True step [of 0] by (simp add: uprintdigits.simps [of x 10] del: atoi_loop.simps)
  next
    case False
    then have "x div 10 < x" by (intro div_less_dividend) (auto intro!: gr0I)
    from less.IH [OF this, of "udigits ! (x mod 10) # s"]
    have "atoi_loop 0 (rev (uprintdigits x 10) @ s) = atoi_loop (of_nat (x div 10) * 10 + of_nat (x mod 10)) s"
      using False by (subst uprintdigits.simps) (simp add: step del: atoi_loop.simps)
    also have "of_nat (x div 10) * 10 + of_nat (x mod 10) = (of_nat (x div 10 * 10 + x mod 10) :: cint)"
      by (simp only: of_nat_add of_nat_mult of_nat_numeral)
    also have "x div 10 * 10 + x mod 10 = x" by simp
    finally show ?thesis .
  qed
qed

text \<open>
  C28. Round trip of numbers through text: what \<open>printf\<close> writes for \<open>%d\<close> with a
  non-negative \<open>int\<close>, \<open>atoi\<close> reads back as the same number, whatever non-digit
  follows; and \<open>atoi\<close> gives 0 for the text of any negative number, since it knows no sign.
\<close>

theorem printf_atoi_roundtrip:
  assumes "\<not> (48 \<le> c \<and> c \<le> 57)"
  shows "atoi (uformat (bytes ''%d'') False (\<lambda>_. (x, s)) 0 @ c # rest) = (if 0 \<le>s x then x else 0)"
proof -
  have f: "uformat (bytes ''%d'') False (\<lambda>_. (x, s)) 0 = uprintint x 10 True"
    by (simp add: bytes_def)
  have stop: "atoi_loop n (c # rest) = n" for n using assms by auto
  show ?thesis
  proof (cases "0 \<le>s x")
    case True
    then have "\<not> x <s 0" by (simp add: word_sle_eq word_sless_alt)
    then show ?thesis
      using True atoi_loop_uprintdigits [of "unat x" "c # rest"] stop
      by (simp add: f atoi_def uprintint_def del: atoi_loop.simps)
  next
    case False
    then have "x <s 0" by (simp add: word_sle_eq word_sless_alt)
    then show ?thesis using False by (simp add: f atoi_def uprintint_def)
  qed
qed

theorem printf_atoi_roundtrip_witness:
  "atoi (uformat (bytes ''%d'') False (\<lambda>_. (4096, [])) 0 @ 10 # []) = 4096 \<and>
   atoi (uformat (bytes ''%d'') False (\<lambda>_. (-5, [])) 0 @ 0 # []) = 0"
  using printf_atoi_roundtrip [of 10 4096 "[]" "[]"] printf_atoi_roundtrip [of 0 "-5" "[]" "[]"]
  by (simp add: word_sle_eq del: uformat.simps)

end
