(* ===== verification/Sh.thy ===== *)
theory Sh
  imports Ulib
begin

text \<open>
  sh.c: the tokenizer, the recursive-descent parser and the interpreter of commands. The line
  is a list of bytes and the pointers into it are indices; the end \<open>es\<close> is its length, where
  the NUL stands. Allocation is taken to succeed. \<open>panic\<close> prints its message and exits: it
  is \<open>Panic\<close> here. The four mutually recursive parsing functions take a bound on the depth
  of calls and are \<open>Blocked\<close> when it is used up, which it never is from \<open>parsecmd\<close>.
  \<open>runcmd\<close> gives the tree of the system calls that the process makes.
\<close>

section \<open>Commands\<close>

definition MAXARGS :: nat where "MAXARGS = 10"

text \<open>\<open>execcmd\<close> holds the pairs \<open>argv[i]\<close>, \<open>eargv[i]\<close>; \<open>redircmd\<close> the file, its end, the mode
  and the descriptor.\<close>

datatype cmd =
    execcmd "(nat \<times> nat) list"
  | redircmd cmd nat nat cint nat
  | pipecmd cmd cmd
  | listcmd cmd cmd
  | backcmd cmd

section \<open>Tokens\<close>

definition whitespace :: "u8 list" where "whitespace = [32, 9, 13, 10, 11]"

definition symbols :: "u8 list" where "symbols = bytes ''<|>&;()''"

abbreviation isin :: "u8 \<Rightarrow> u8 list \<Rightarrow> bool" where
  "isin c cs \<equiv> strchr cs c \<noteq> None"

definition char_at :: "u8 list \<Rightarrow> nat \<Rightarrow> u8" where
  "char_at b s = (if s < length b then b ! s else 0)"

function skip_ws :: "u8 list \<Rightarrow> nat \<Rightarrow> nat" where
  "skip_ws b s = (if s < length b \<and> isin (char_at b s) whitespace then skip_ws b (s + 1) else s)"
  by pat_completeness auto
termination by (relation "measure (\<lambda>(b, s). length b - s)") auto

function skip_word :: "u8 list \<Rightarrow> nat \<Rightarrow> nat" where
  "skip_word b s =
     (if s < length b \<and> \<not> isin (char_at b s) whitespace \<and> \<not> isin (char_at b s) symbols then skip_word b (s + 1) else s)"
  by pat_completeness auto
termination by (relation "measure (\<lambda>(b, s). length b - s)") auto

declare skip_ws.simps [simp del] skip_word.simps [simp del]

text \<open>The token, the values stored through \<open>q\<close> and \<open>eq\<close>, and the new \<open>*ps\<close>.\<close>

definition gettoken :: "u8 list \<Rightarrow> nat \<Rightarrow> u8 \<times> nat \<times> nat \<times> nat" where
  "gettoken b ps =
     (let s = skip_ws b ps; q = s; c = char_at b s;
          (ret, s) =
            (if c = 0 then (c, s)
             else if c \<in> {chr CHR ''|'', chr CHR ''('', chr CHR '')'', chr CHR '';'', chr CHR ''&'', chr CHR ''<''}
             then (c, s + 1)
             else if c = chr CHR ''>''
             then (if char_at b (s + 1) = chr CHR ''>'' then (chr CHR ''+'', s + 2) else (c, s + 1))
             else (chr CHR ''a'', skip_word b s))
      in (ret, q, s, skip_ws b s))"

definition peek :: "u8 list \<Rightarrow> nat \<Rightarrow> u8 list \<Rightarrow> bool \<times> nat" where
  "peek b ps toks = (let s = skip_ws b ps in (char_at b s \<noteq> 0 \<and> isin (char_at b s) toks, s))"

lemma skip_ws_ge: "s \<le> skip_ws b s"
  by (induction b s rule: skip_ws.induct) (subst skip_ws.simps, auto)

lemma skip_word_ge: "s \<le> skip_word b s"
  by (induction b s rule: skip_word.induct) (subst skip_word.simps, auto)

lemma skip_ws_le: "s \<le> length b \<Longrightarrow> skip_ws b s \<le> length b"
  by (induction b s rule: skip_ws.induct) (subst skip_ws.simps, auto)

lemma skip_word_le: "s \<le> length b \<Longrightarrow> skip_word b s \<le> length b"
  by (induction b s rule: skip_word.induct) (subst skip_word.simps, auto)

lemma skip_ws_idem [simp]: "skip_ws b (skip_ws b s) = skip_ws b s"
  by (induction b s rule: skip_ws.induct) (metis skip_ws.simps)

lemma skip_ws_stop: "skip_ws b s < length b \<Longrightarrow> \<not> isin (char_at b (skip_ws b s)) whitespace"
  by (induction b s rule: skip_ws.induct) (metis skip_ws.simps)

lemma symbols_eq: "symbols = [60, 124, 62, 38, 59, 40, 41]"
  by (simp add: symbols_def bytes_def)

text \<open>A token other than the end of the line has at least one character.\<close>

lemma gettoken_progress:
  assumes "gettoken b ps = (tok, q, eq, ps')" "tok \<noteq> 0"
  shows "ps \<le> q" "q < length b" "q < eq" "eq \<le> ps'"
proof -
  let ?s = "skip_ws b ps"
  have q: "q = ?s" using assms(1) by (simp add: gettoken_def Let_def split: prod.splits)
  have c: "char_at b ?s \<noteq> 0" using assms(1,2) by (auto simp: gettoken_def Let_def)
  then show l: "q < length b" unfolding q by (auto simp: char_at_def split: if_splits)
  show "ps \<le> q" unfolding q by (rule skip_ws_ge)
  have w: "?s < skip_word b ?s"
    if "char_at b ?s \<notin> {chr CHR ''|'', chr CHR ''('', chr CHR '')'', chr CHR '';'', chr CHR ''&'', chr CHR ''<'', chr CHR ''>''}"
  proof -
    have "\<not> isin (char_at b ?s) symbols" using that by (auto simp: symbols_eq)
    moreover have "\<not> isin (char_at b ?s) whitespace" using skip_ws_stop l unfolding q by blast
    ultimately have "skip_word b ?s = skip_word b (?s + 1)" using l unfolding q by (subst skip_word.simps) simp
    then show ?thesis using skip_word_ge [of "?s + 1" b] by simp
  qed
  show "q < eq"
    using assms(1) c w unfolding q by (auto simp: gettoken_def Let_def split: if_splits)
  show "eq \<le> ps'" using assms(1) skip_ws_ge by (auto simp: gettoken_def Let_def split: prod.splits)
qed

lemma peek_gettoken:
  assumes "peek b ps toks = (True, ps1)" "gettoken b ps1 = (tok, q, eq, ps2)"
  shows "ps \<le> ps1" "ps1 < length b" "ps1 < ps2" "tok \<noteq> 0"
proof -
  have p: "ps1 = skip_ws b ps" "char_at b ps1 \<noteq> 0" using assms(1) by (auto simp: peek_def Let_def)
  show "ps \<le> ps1" unfolding p(1) by (rule skip_ws_ge)
  show "ps1 < length b" using p(2) by (auto simp: char_at_def split: if_splits)
  have "skip_ws b ps1 = ps1" using p(1) by simp
  then show t: "tok \<noteq> 0" using assms(2) p(2) by (auto simp: gettoken_def Let_def split: if_splits)
  show "ps1 < ps2" using gettoken_progress [OF assms(2) t] by linarith
qed

section \<open>The parser\<close>

function (sequential) parseredirs :: "u8 list \<Rightarrow> cmd \<Rightarrow> nat \<Rightarrow> (cmd \<times> nat) res" where
  "parseredirs b c ps =
     (case peek b ps (bytes ''<>'') of
        (False, ps) \<Rightarrow> Ok (c, ps)
      | (True, ps) \<Rightarrow>
          (case gettoken b ps of (tok, _, _, ps) \<Rightarrow>
           case gettoken b ps of (tok', q, eq, ps) \<Rightarrow>
             if tok' \<noteq> chr CHR ''a'' then Panic ''missing file for redirection''
             else parseredirs b
               (if tok = chr CHR ''<'' then redircmd c q eq O_RDONLY 0
                else if tok = chr CHR ''>'' then redircmd c q eq (O_WRONLY OR O_CREATE) 1
                else if tok = chr CHR ''+'' then redircmd c q eq (O_WRONLY OR O_CREATE) 1
                else c) ps))"
  by pat_completeness auto
termination
proof (relation "measure (\<lambda>(b, c, ps). length b - ps)", simp, goal_cases)
  case (1 b c ps x ps1 tok r1 q1 r2 eq1 ps2 tok' r3 q r4 eq ps3)
  then have "peek b ps (bytes ''<>'') = (True, ps1)" "gettoken b ps1 = (tok, q1, eq1, ps2)" "gettoken b ps2 = (tok', q, eq, ps3)" "tok' \<noteq> 0"
    by simp_all
  from peek_gettoken [OF this(1,2)] gettoken_progress [OF this(3,4)] show ?case by simp
qed

text \<open>\<open>cmd->argv[argc] = q\<close>: \<open>cmd\<close> is the command inside the redirections around it.\<close>

primrec add_arg :: "nat \<times> nat \<Rightarrow> cmd \<Rightarrow> cmd" where
  "add_arg a (execcmd as) = execcmd (as @ [a])"
| "add_arg a (redircmd c q eq mode fd) = redircmd (add_arg a c) q eq mode fd"
| "add_arg a (pipecmd l r) = pipecmd l r"
| "add_arg a (listcmd l r) = listcmd l r"
| "add_arg a (backcmd c) = backcmd c"

function parseargs :: "u8 list \<Rightarrow> cmd \<Rightarrow> nat \<Rightarrow> nat \<Rightarrow> (cmd \<times> nat) res" where
  "parseargs b c argc ps =
     (case peek b ps (bytes ''|)&;'') of (p, ps) \<Rightarrow>
        if p then Ok (c, ps)
        else case gettoken b ps of (tok, q, eq, ps) \<Rightarrow>
          if tok = 0 then Ok (c, ps)
          else if tok \<noteq> chr CHR ''a'' then Panic ''syntax''
          else let c = add_arg (q, eq) c; argc = argc + 1
               in if argc \<ge> MAXARGS then Panic ''too many args''
                  else rbind (parseredirs b c ps) (\<lambda>(c, ps). parseargs b c argc ps))"
  by pat_completeness auto
termination by (relation "measure (\<lambda>(b, c, argc, ps). MAXARGS - argc)") auto

function (sequential) backs :: "u8 list \<Rightarrow> cmd \<Rightarrow> nat \<Rightarrow> cmd \<times> nat" where
  "backs b c ps =
     (case peek b ps (bytes ''&'') of
        (False, ps) \<Rightarrow> (c, ps)
      | (True, ps) \<Rightarrow> (case gettoken b ps of (_, _, _, ps) \<Rightarrow> backs b (backcmd c) ps))"
  by pat_completeness auto
termination
proof (relation "measure (\<lambda>(b, c, ps). length b - ps)", simp, goal_cases)
  case (1 b c ps x ps1 tok r1 q r2 eq ps2)
  then have "peek b ps (bytes ''&'') = (True, ps1)" "gettoken b ps1 = (tok, q, eq, ps2)" by simp_all
  from peek_gettoken [OF this] show ?case by simp
qed

declare parseredirs.simps [simp del] parseargs.simps [simp del] backs.simps [simp del]

fun parseline :: "nat \<Rightarrow> u8 list \<Rightarrow> nat \<Rightarrow> (cmd \<times> nat) res"
  and parsepipe :: "nat \<Rightarrow> u8 list \<Rightarrow> nat \<Rightarrow> (cmd \<times> nat) res"
  and parseexec :: "nat \<Rightarrow> u8 list \<Rightarrow> nat \<Rightarrow> (cmd \<times> nat) res"
  and parseblock :: "nat \<Rightarrow> u8 list \<Rightarrow> nat \<Rightarrow> (cmd \<times> nat) res" where
  "parseline 0 b ps = Blocked"
| "parseline (Suc d) b ps =
     rbind (parsepipe d b ps) (\<lambda>(c, ps).
       case backs b c ps of (c, ps) \<Rightarrow>
       case peek b ps (bytes '';'') of (p, ps) \<Rightarrow>
         if p then case gettoken b ps of (_, _, _, ps) \<Rightarrow>
           rbind (parseline d b ps) (\<lambda>(r, ps). Ok (listcmd c r, ps))
         else Ok (c, ps))"
| "parsepipe 0 b ps = Blocked"
| "parsepipe (Suc d) b ps =
     rbind (parseexec d b ps) (\<lambda>(c, ps).
       case peek b ps (bytes ''|'') of (p, ps) \<Rightarrow>
         if p then case gettoken b ps of (_, _, _, ps) \<Rightarrow>
           rbind (parsepipe d b ps) (\<lambda>(r, ps). Ok (pipecmd c r, ps))
         else Ok (c, ps))"
| "parseexec 0 b ps = Blocked"
| "parseexec (Suc d) b ps =
     (case peek b ps (bytes ''('') of (p, ps) \<Rightarrow>
        if p then parseblock d b ps
        else rbind (parseredirs b (execcmd []) ps) (\<lambda>(c, ps). parseargs b c 0 ps))"
| "parseblock 0 b ps = Blocked"
| "parseblock (Suc d) b ps =
     (case peek b ps (bytes ''('') of (p, ps) \<Rightarrow>
        if \<not> p then Panic ''parseblock''
        else case gettoken b ps of (_, _, _, ps) \<Rightarrow>
          rbind (parseline d b ps) (\<lambda>(c, ps).
            case peek b ps (bytes '')'') of (p, ps) \<Rightarrow>
              if \<not> p then Panic ''syntax - missing )''
              else case gettoken b ps of (_, _, _, ps) \<Rightarrow> parseredirs b c ps))"

primrec nulterminate :: "cmd \<Rightarrow> u8 list \<Rightarrow> u8 list" where
  "nulterminate (execcmd as) b = fold (\<lambda>(q, eq) b. b[eq := 0]) as b"
| "nulterminate (redircmd c q eq mode fd) b = (nulterminate c b)[eq := 0]"
| "nulterminate (pipecmd l r) b = nulterminate r (nulterminate l b)"
| "nulterminate (listcmd l r) b = nulterminate r (nulterminate l b)"
| "nulterminate (backcmd c) b = nulterminate c b"

text \<open>The command and the line with its strings terminated. Before it panics for text left
  over, \<open>parsecmd\<close> also prints that text.\<close>

definition parsecmd :: "u8 list \<Rightarrow> (cmd \<times> u8 list) res" where
  "parsecmd s =
     (let b = cstr s
      in rbind (parseline (4 * length b + 4) b 0) (\<lambda>(c, ps).
           case peek b ps [] of (_, ps) \<Rightarrow>
             if ps \<noteq> length b then Panic ''syntax'' else Ok (c, nulterminate c b)))"

section \<open>The interpreter\<close>

text \<open>The system calls of a process, with the continuations for their outcomes: \<open>Open\<close> for a
  descriptor or an error, \<open>Fork\<close> for the child, the parent and an error, \<open>PipeCall\<close> for the two
  descriptors or an error. \<open>ExecCall\<close> continues only when it failed.\<close>

datatype prog =
    Exit
  | Print nat "u8 list" prog
  | ExecCall "u8 list" "u8 list list" prog
  | Close nat prog
  | Open "u8 list" cint prog prog
  | Fork prog prog prog
  | Wait prog
  | PipeCall "nat \<Rightarrow> nat \<Rightarrow> prog" prog
  | Dup nat prog

definition sh_panic :: "u8 list \<Rightarrow> prog" where
  "sh_panic s = Print 2 (uformat (bytes ''%s'' @ [10]) False (\<lambda>_. (1, s)) 0) Exit"

definition fork1 :: "prog \<Rightarrow> prog \<Rightarrow> prog" where
  "fork1 child parent = Fork child parent (sh_panic (bytes ''fork''))"

definition str_at :: "u8 list \<Rightarrow> nat \<Rightarrow> u8 list" where
  "str_at b q = cstr (drop q b)"

primrec runcmd :: "u8 list \<Rightarrow> cmd \<Rightarrow> prog" where
  "runcmd b (execcmd as) =
     (if as = [] then Exit
      else let path = str_at b (fst (hd as))
           in ExecCall path (map (str_at b \<circ> fst) as)
                (Print 2 (uformat (bytes ''exec %s failed'' @ [10]) False (\<lambda>_. (1, path)) 0) Exit))"
| "runcmd b (redircmd c q eq mode fd) =
     Close fd (Open (str_at b q) mode (runcmd b c)
       (Print 2 (uformat (bytes ''open %s failed'' @ [10]) False (\<lambda>_. (1, str_at b q)) 0) Exit))"
| "runcmd b (listcmd l r) = fork1 (runcmd b l) (Wait (runcmd b r))"
| "runcmd b (pipecmd l r) =
     PipeCall (\<lambda>p0 p1.
       fork1 (Close 1 (Dup p1 (Close p0 (Close p1 (runcmd b l)))))
         (fork1 (Close 0 (Dup p0 (Close p0 (Close p1 (runcmd b r)))))
           (Close p0 (Close p1 (Wait (Wait Exit))))))
       (sh_panic (bytes ''pipe''))"
| "runcmd b (backcmd c) = fork1 (runcmd b c) Exit"

text \<open>\<open>main\<close> reads lines of at most 99 characters until the end of the input. A round is a
  change of directory by the shell itself, or a line that a child parses and runs.\<close>

definition getcmd :: "u8 list \<Rightarrow> (u8 list \<times> u8 list) option" where
  "getcmd input = (case gets 100 input of (buf, rest) \<Rightarrow> if hd0 buf = 0 then None else Some (buf, rest))"

definition sh_round :: "u8 list \<Rightarrow> u8 list + (cmd \<times> u8 list) res" where
  "sh_round buf =
     (let b = cstr buf
      in if take 3 b = bytes ''cd '' then Inl (cstr (drop 3 (b[length b - 1 := 0]))) else Inr (parsecmd buf))"

lemma gets_loop_rest: "gets_loop n input = (b, rest) \<Longrightarrow> length b + length rest = length input"
  by (induction n input arbitrary: b rule: gets_loop.induct) (auto split: if_splits prod.splits)

function sh_main :: "u8 list \<Rightarrow> (u8 list + (cmd \<times> u8 list) res) list" where
  "sh_main input =
     (case getcmd input of None \<Rightarrow> [] | Some (buf, rest) \<Rightarrow> sh_round buf # sh_main rest)"
  by pat_completeness auto
termination
proof (relation "measure length", simp, goal_cases)
  case (1 input p buf rest)
  then have g: "gets_loop 99 input = (buf, rest)" "hd0 buf \<noteq> 0"
    by (auto simp: getcmd_def gets_def split: prod.splits if_splits)
  then have "0 < length buf" by auto
  with gets_loop_rest [OF g(1)] have "length rest < length input" by linarith
  then show ?case by simp
qed

declare sh_main.simps [simp del]

section \<open>The parser ends\<close>

lemma skip_ws_bound: "s \<le> length b \<Longrightarrow> s \<le> skip_ws b s \<and> skip_ws b s \<le> length b"
  using skip_ws_ge skip_ws_le by blast

lemma peek_bound: "peek b ps t = (p, ps') \<Longrightarrow> ps \<le> length b \<Longrightarrow> ps \<le> ps' \<and> ps' \<le> length b"
  using skip_ws_bound by (auto simp: peek_def Let_def)

lemma gettoken_bound:
  assumes "gettoken b ps = (tok, q, eq, ps')" "ps \<le> length b"
  shows "ps \<le> ps' \<and> ps' \<le> length b"
proof -
  have s: "ps \<le> skip_ws b ps" "skip_ws b ps \<le> length b" using skip_ws_bound [OF assms(2)] by blast+
  have "skip_ws b ps \<le> eq \<and> eq \<le> length b"
    using assms(1) s skip_word_ge [of "skip_ws b ps" b] skip_word_le [of "skip_ws b ps" b]
    by (auto simp: gettoken_def Let_def char_at_def Suc_le_eq split: if_splits)
  moreover have "ps' = skip_ws b eq" using assms(1) by (simp add: gettoken_def Let_def split: prod.splits)
  ultimately show ?thesis using s skip_ws_bound [of eq b] by simp
qed

text \<open>A result that returns, does not move back and stays in the line.\<close>

definition fine :: "u8 list \<Rightarrow> nat \<Rightarrow> (cmd \<times> nat) res \<Rightarrow> bool" where
  "fine b ps r \<longleftrightarrow> r \<noteq> Blocked \<and> (\<forall>c ps'. r = Ok (c, ps') \<longrightarrow> ps \<le> ps' \<and> ps' \<le> length b)"

lemma fine_bind:
  assumes "fine b ps r" "\<And>c ps'. r = Ok (c, ps') \<Longrightarrow> ps \<le> ps' \<Longrightarrow> ps' \<le> length b \<Longrightarrow> fine b ps' (f (c, ps'))"
  shows "fine b ps (rbind r f)"
  using assms by (cases r) (force simp: fine_def)+

lemma fine_mono: "fine b ps' r \<Longrightarrow> ps \<le> ps' \<Longrightarrow> fine b ps r"
  by (auto simp: fine_def)

lemma peek_redir_token:
  assumes "peek b ps (bytes ''<>'') = (True, ps1)" "gettoken b ps1 = (tok, q, eq, ps2)"
  shows "tok = chr CHR ''<'' \<or> tok = chr CHR ''>'' \<or> tok = chr CHR ''+''"
proof -
  have p: "ps1 = skip_ws b ps" "char_at b ps1 = 60 \<or> char_at b ps1 = 62"
    using assms(1) by (auto simp: peek_def Let_def bytes_def split: if_splits)
  then have "skip_ws b ps1 = ps1" by simp
  then show ?thesis using assms(2) p(2) by (auto simp: gettoken_def Let_def split: if_splits)
qed

lemma parseredirs_induct:
  assumes stop: "\<And>c ps. P c ps (Ok (c, skip_ws b ps))"
    and panic: "\<And>c ps. P c ps (Panic ''missing file for redirection'')"
    and step: "\<And>c ps ps2 q eq ps3 c' r. ps < ps3 \<Longrightarrow> ps3 \<le> length b \<Longrightarrow> gettoken b ps2 = (chr CHR ''a'', q, eq, ps3) \<Longrightarrow>
      c' = redircmd c q eq O_RDONLY 0 \<or> c' = redircmd c q eq (O_WRONLY OR O_CREATE) 1 \<Longrightarrow> P c' ps3 r \<Longrightarrow> P c ps r"
  shows "P c ps (parseredirs b c ps)"
proof (induction "length b - ps" arbitrary: c ps rule: less_induct)
  case less
  obtain p ps1 where p: "peek b ps (bytes ''<>'') = (p, ps1)" by fastforce
  show ?case
  proof (cases p)
    case False
    moreover have "ps1 = skip_ws b ps" using p by (simp add: peek_def Let_def)
    ultimately show ?thesis using stop p by (subst parseredirs.simps) simp
  next
    case True
    obtain tok q1 eq1 ps2 where g: "gettoken b ps1 = (tok, q1, eq1, ps2)" by (metis prod_cases4)
    obtain tok' q eq ps3 where g': "gettoken b ps2 = (tok', q, eq, ps3)" by (metis prod_cases4)
    have p1: "peek b ps (bytes ''<>'') = (True, ps1)" using p True by simp
    note pg = peek_gettoken [OF p1 g]
    have b2: "ps2 \<le> length b" using gettoken_bound [OF g] pg(2) by simp
    show ?thesis
    proof (cases "tok' = chr CHR ''a''")
      case False
      then show ?thesis using p True g g' panic by (subst parseredirs.simps) simp
    next
      case t: True
      let ?c = "if tok = chr CHR ''<'' then redircmd c q eq O_RDONLY 0
                else if tok = chr CHR ''>'' then redircmd c q eq (O_WRONLY OR O_CREATE) 1
                else if tok = chr CHR ''+'' then redircmd c q eq (O_WRONLY OR O_CREATE) 1 else c"
      have b3: "ps2 \<le> ps3" "ps3 \<le> length b" using gettoken_bound [OF g' b2] by blast+
      have lt: "ps < ps3" using pg b3(1) by linarith
      have "length b - ps3 < length b - ps" using lt b3(2) by linarith
      then have "P ?c ps3 (parseredirs b ?c ps3)" by (rule less.hyps)
      moreover have "?c = redircmd c q eq O_RDONLY 0 \<or> ?c = redircmd c q eq (O_WRONLY OR O_CREATE) 1"
        using peek_redir_token [OF p1 g] by auto
      ultimately have "P c ps (parseredirs b ?c ps3)"
        using step [OF lt b3(2), of ps2 q eq ?c c] g' t by blast
      then show ?thesis using p True g g' t by (subst parseredirs.simps) simp
    qed
  qed
qed

lemma parseredirs_fine: "ps \<le> length b \<Longrightarrow> fine b ps (parseredirs b c ps)"
proof (rule parseredirs_induct [where P = "\<lambda>c ps r. ps \<le> length b \<longrightarrow> fine b ps r", rule_format])
  show "fine b ps (Ok (c, skip_ws b ps))" if "ps \<le> length b" for c ps
    using skip_ws_bound [OF that] by (simp add: fine_def)
qed (auto simp: fine_def)

lemma parseargs_fine: "ps \<le> length b \<Longrightarrow> fine b ps (parseargs b c argc ps)"
proof (induction b c argc ps rule: parseargs.induct)
  case (1 b c argc ps)
  obtain p ps1 where p: "peek b ps (bytes ''|)&;'') = (p, ps1)" by fastforce
  obtain tok q eq ps2 where g: "gettoken b ps1 = (tok, q, eq, ps2)" by (metis prod_cases4)
  have b1: "ps \<le> ps1" "ps1 \<le> length b" using peek_bound [OF p 1(2)] by blast+
  have b2: "ps1 \<le> ps2" "ps2 \<le> length b" using gettoken_bound [OF g b1(2)] by blast+
  have le: "ps \<le> ps2" using b1 b2 by linarith
  let ?c = "add_arg (q, eq) c"
  have "fine b ps2 (rbind (parseredirs b ?c ps2) (\<lambda>(c, ps). parseargs b c (argc + 1) ps))"
    if "\<not> p" "tok = chr CHR ''a''" "\<not> MAXARGS \<le> argc + 1"
  proof (rule fine_bind [OF parseredirs_fine [OF b2(2)]])
    fix c' ps' assume "parseredirs b ?c ps2 = Ok (c', ps')" "ps' \<le> length b"
    then show "fine b ps' (case (c', ps') of (c, ps) \<Rightarrow> parseargs b c (argc + 1) ps)"
      using 1(1) [OF p [symmetric] that(1) g [symmetric] refl refl] that(2,3) by simp
  qed
  from fine_mono [OF this le] b1 b2 le show ?case
    by (subst parseargs.simps) (auto simp: p g fine_def Let_def)
qed

lemma backs_bound: "ps \<le> length b \<Longrightarrow> backs b c ps = (c', ps') \<Longrightarrow> ps \<le> ps' \<and> ps' \<le> length b"
proof (induction "length b - ps" arbitrary: c ps rule: less_induct)
  case less
  obtain p ps1 where p: "peek b ps (bytes ''&'') = (p, ps1)" by fastforce
  show ?case
  proof (cases p)
    case False
    then have "ps' = ps1" using less.prems(2) p by (subst (asm) backs.simps) simp
    then show ?thesis using peek_bound [OF p less.prems(1)] by simp
  next
    case True
    obtain tok q eq ps2 where g: "gettoken b ps1 = (tok, q, eq, ps2)" by (metis prod_cases4)
    have p1: "peek b ps (bytes ''&'') = (True, ps1)" using p True by simp
    note pg = peek_gettoken [OF p1 g]
    have b2: "ps2 \<le> length b" using gettoken_bound [OF g] pg(2) by simp
    have "backs b (backcmd c) ps2 = (c', ps')" using less.prems(2) p True g by (subst (asm) backs.simps) simp
    moreover have "length b - ps2 < length b - ps" using pg b2 by linarith
    ultimately have "ps2 \<le> ps' \<and> ps' \<le> length b" using less.hyps b2 by blast
    then show ?thesis using pg by linarith
  qed
qed

lemma depth_step: "ps < ps' \<Longrightarrow> ps' \<le> n \<Longrightarrow> 4 * (n - ps) + k \<le> Suc d \<Longrightarrow> m \<le> k + 3 \<Longrightarrow> 4 * (n - ps') + m \<le> (d :: nat)"
proof -
  assume a: "ps < ps'" "ps' \<le> n" "4 * (n - ps) + k \<le> Suc d" "m \<le> k + 3"
  then have "Suc (n - ps') \<le> n - ps" by simp
  then show ?thesis using a(3,4) by linarith
qed

lemma depth_same: "ps \<le> ps' \<Longrightarrow> 4 * (n - ps) + Suc m \<le> Suc d \<Longrightarrow> 4 * (n - ps') + m \<le> (d :: nat)"
proof -
  assume a: "ps \<le> ps'" "4 * (n - ps) + Suc m \<le> Suc d"
  then have "n - ps' \<le> n - ps" by simp
  then show ?thesis using a(2) by linarith
qed

text \<open>Depth that is enough at position \<open>ps\<close>: four calls for every character left.\<close>

lemma parse_fine:
  "ps \<le> length b \<Longrightarrow> 4 * (length b - ps) + 4 \<le> d \<Longrightarrow> fine b ps (parseline d b ps)"
  "ps \<le> length b \<Longrightarrow> 4 * (length b - ps) + 3 \<le> d \<Longrightarrow> fine b ps (parsepipe d b ps)"
  "ps \<le> length b \<Longrightarrow> 4 * (length b - ps) + 2 \<le> d \<Longrightarrow> fine b ps (parseexec d b ps)"
  "ps \<le> length b \<Longrightarrow> 4 * (length b - ps) + 1 \<le> d \<Longrightarrow> fine b ps (parseblock d b ps)"
proof (induction d b ps and d b ps and d b ps and d b ps rule: parseline_parsepipe_parseexec_parseblock.induct)
  case (2 d b ps)
  have f: "fine b ps (parsepipe d b ps)" using 2 by simp
  show ?case unfolding parseline.simps
  proof (rule fine_bind [OF f])
    fix c ps1 assume r: "parsepipe d b ps = Ok (c, ps1)" "ps \<le> ps1" "ps1 \<le> length b"
    obtain c' ps2 where k: "backs b c ps1 = (c', ps2)" by fastforce
    obtain p ps3 where p: "peek b ps2 (bytes '';'') = (p, ps3)" by fastforce
    obtain tok q eq ps4 where g: "gettoken b ps3 = (tok, q, eq, ps4)" by (metis prod_cases4)
    have b2: "ps1 \<le> ps2" "ps2 \<le> length b" using backs_bound [OF r(3) k] by blast+
    have b3: "ps2 \<le> ps3" "ps3 \<le> length b" using peek_bound [OF p b2(2)] by blast+
    have "fine b ps1 (rbind (parseline d b ps4) (\<lambda>(r, ps). Ok (listcmd c' r, ps)))" if p
    proof -
      have "peek b ps2 (bytes '';'') = (True, ps3)" using p that by simp
      note pg = peek_gettoken [OF this g]
      have b4: "ps4 \<le> length b" using gettoken_bound [OF g b3(2)] by blast
      have lt: "ps < ps4" using pg b2 r(2) by linarith
      have "fine b ps4 (parseline d b ps4)"
        by (rule 2(2) [OF r(1) refl k [symmetric] p [symmetric] that g [symmetric] refl refl b4])
          (rule depth_step [OF lt b4 2(4)], simp)
      then have "fine b ps4 (rbind (parseline d b ps4) (\<lambda>(r, ps). Ok (listcmd c' r, ps)))"
        by (rule fine_bind) (simp add: fine_def)
      then show ?thesis by (rule fine_mono) (use pg b2 b3 in linarith)
    qed
    then show "fine b ps1 (case (c, ps1) of (c, ps) \<Rightarrow> case backs b c ps of (c, ps) \<Rightarrow>
       case peek b ps (bytes '';'') of (p, ps) \<Rightarrow>
         if p then case gettoken b ps of (_, _, _, ps) \<Rightarrow>
           rbind (parseline d b ps) (\<lambda>(r, ps). Ok (listcmd c r, ps))
         else Ok (c, ps))"
      using b2 b3 by (simp add: k p g fine_def)
  qed
next
  case (4 d b ps)
  have f: "fine b ps (parseexec d b ps)" using 4 by simp
  show ?case unfolding parsepipe.simps
  proof (rule fine_bind [OF f])
    fix c ps1 assume r: "parseexec d b ps = Ok (c, ps1)" "ps \<le> ps1" "ps1 \<le> length b"
    obtain p ps3 where p: "peek b ps1 (bytes ''|'') = (p, ps3)" by fastforce
    obtain tok q eq ps4 where g: "gettoken b ps3 = (tok, q, eq, ps4)" by (metis prod_cases4)
    have b3: "ps1 \<le> ps3" "ps3 \<le> length b" using peek_bound [OF p r(3)] by blast+
    have "fine b ps1 (rbind (parsepipe d b ps4) (\<lambda>(r, ps). Ok (pipecmd c r, ps)))" if p
    proof -
      have "peek b ps1 (bytes ''|'') = (True, ps3)" using p that by simp
      note pg = peek_gettoken [OF this g]
      have b4: "ps4 \<le> length b" using gettoken_bound [OF g b3(2)] by blast
      have lt: "ps < ps4" using pg r(2) by linarith
      have "fine b ps4 (parsepipe d b ps4)"
        by (rule 4(2) [OF r(1) refl p [symmetric] that g [symmetric] refl refl b4])
          (rule depth_step [OF lt b4 4(4)], simp)
      then have "fine b ps4 (rbind (parsepipe d b ps4) (\<lambda>(r, ps). Ok (pipecmd c r, ps)))"
        by (rule fine_bind) (simp add: fine_def)
      then show ?thesis by (rule fine_mono) (use pg b3 in linarith)
    qed
    then show "fine b ps1 (case (c, ps1) of (c, ps) \<Rightarrow>
       case peek b ps (bytes ''|'') of (p, ps) \<Rightarrow>
         if p then case gettoken b ps of (_, _, _, ps) \<Rightarrow>
           rbind (parsepipe d b ps) (\<lambda>(r, ps). Ok (pipecmd c r, ps))
         else Ok (c, ps))"
      using b3 by (simp add: p g fine_def)
  qed
next
  case (6 d b ps)
  obtain p ps1 where p: "peek b ps (bytes ''('') = (p, ps1)" by fastforce
  have b1: "ps \<le> ps1" "ps1 \<le> length b" using peek_bound [OF p 6(2)] by blast+
  have "fine b ps1 (parseblock d b ps1)" if p
    by (rule 6(1) [OF p [symmetric] that b1(2)]) (rule depth_same [OF b1(1)], use 6(3) in simp)
  moreover have "fine b ps1 (rbind (parseredirs b (execcmd []) ps1) (\<lambda>(c, ps). parseargs b c 0 ps))"
    by (rule fine_bind [OF parseredirs_fine [OF b1(2)]]) (simp add: parseargs_fine)
  ultimately show ?case using b1(1) by (auto simp: p intro: fine_mono)
next
  case (8 d b ps)
  obtain p ps1 where p: "peek b ps (bytes ''('') = (p, ps1)" by fastforce
  obtain tok q eq ps2 where g: "gettoken b ps1 = (tok, q, eq, ps2)" by (metis prod_cases4)
  have b1: "ps \<le> ps1" "ps1 \<le> length b" using peek_bound [OF p 8(2)] by blast+
  have b2: "ps1 \<le> ps2" "ps2 \<le> length b" using gettoken_bound [OF g b1(2)] by blast+
  let ?k = "\<lambda>(c, ps). case peek b ps (bytes '')'') of (p, ps) \<Rightarrow>
              if \<not> p then Panic ''syntax - missing )''
              else case gettoken b ps of (_, _, _, ps) \<Rightarrow> parseredirs b c ps"
  have "fine b ps2 (rbind (parseline d b ps2) ?k)" if p
  proof (rule fine_bind)
    have "peek b ps (bytes ''('') = (True, ps1)" using p that by simp
    note pg = peek_gettoken [OF this g]
    have lt: "ps < ps2" using pg by linarith
    show "fine b ps2 (parseline d b ps2)"
      by (rule 8(1) [OF p [symmetric] _ g [symmetric] refl refl b2(2)])
        (use that in simp, rule depth_step [OF lt b2(2) 8(3)], simp)
    fix c ps3 assume r: "ps2 \<le> ps3" "ps3 \<le> length b"
    obtain p' ps4 where p': "peek b ps3 (bytes '')'') = (p', ps4)" by fastforce
    obtain tok' q' eq' ps5 where g': "gettoken b ps4 = (tok', q', eq', ps5)" by (metis prod_cases4)
    have b4: "ps3 \<le> ps4" "ps4 \<le> length b" using peek_bound [OF p' r(2)] by blast+
    have b5: "ps4 \<le> ps5" "ps5 \<le> length b" using gettoken_bound [OF g' b4(2)] by blast+
    have "fine b ps3 (parseredirs b c ps5)"
      by (rule fine_mono [OF parseredirs_fine [OF b5(2)]]) (use b4(1) b5(1) in linarith)
    then show "fine b ps3 (?k (c, ps3))" by (simp add: p' g' fine_def)
  qed
  then show ?case using b1 b2 fine_mono [of b ps2 _ ps] by (auto simp: p g fine_def)
qed simp_all

section \<open>Well-formed commands\<close>

definition word_char :: "u8 \<Rightarrow> bool" where
  "word_char c \<longleftrightarrow> \<not> isin c whitespace \<and> \<not> isin c symbols"

text \<open>The positions of a whole word of the line.\<close>

definition is_word :: "u8 list \<Rightarrow> nat \<times> nat \<Rightarrow> bool" where
  "is_word b w = (case w of (q, eq) \<Rightarrow> q < eq \<and> eq \<le> length b \<and> (\<forall>i. q \<le> i \<longrightarrow> i < eq \<longrightarrow> word_char (b ! i)) \<and>
     (eq < length b \<longrightarrow> \<not> word_char (b ! eq)))"

primrec cmd_ok :: "u8 list \<Rightarrow> cmd \<Rightarrow> bool" where
  "cmd_ok b (execcmd as) \<longleftrightarrow> length as < MAXARGS \<and> (\<forall>a\<in>set as. is_word b a)"
| "cmd_ok b (redircmd c q eq mode fd) \<longleftrightarrow> cmd_ok b c \<and> is_word b (q, eq) \<and>
     (mode = O_RDONLY \<and> fd = 0 \<or> mode = O_WRONLY OR O_CREATE \<and> fd = 1)"
| "cmd_ok b (pipecmd l r) \<longleftrightarrow> cmd_ok b l \<and> cmd_ok b r"
| "cmd_ok b (listcmd l r) \<longleftrightarrow> cmd_ok b l \<and> cmd_ok b r"
| "cmd_ok b (backcmd c) \<longleftrightarrow> cmd_ok b c"

primrec words :: "cmd \<Rightarrow> (nat \<times> nat) list" where
  "words (execcmd as) = as"
| "words (redircmd c q eq mode fd) = words c @ [(q, eq)]"
| "words (pipecmd l r) = words l @ words r"
| "words (listcmd l r) = words l @ words r"
| "words (backcmd c) = words c"

lemma words_ok: "cmd_ok b c \<Longrightarrow> w \<in> set (words c) \<Longrightarrow> is_word b w"
  by (induction c) auto

lemma skip_word_word:
  "s \<le> i \<Longrightarrow> i < skip_word b s \<Longrightarrow> word_char (b ! i)"
  "skip_word b s < length b \<Longrightarrow> \<not> word_char (b ! skip_word b s)"
proof (induction b s rule: skip_word.induct)
  case (1 b s)
  have e: "skip_word b s = (if s < length b \<and> word_char (b ! s) then skip_word b (s + 1) else s)"
    by (subst skip_word.simps) (simp add: word_char_def char_at_def)
  { case 1
    then have c: "s < length b \<and> word_char (b ! s)" "i < skip_word b (s + 1)" using e by (auto split: if_splits)
    show ?case
    proof (cases "s = i")
      case False
      then show ?thesis using "1.IH"(1) c 1(1) by (simp add: word_char_def char_at_def)
    qed (use c in simp) }
  { case 2
    show ?case
    proof (cases "s < length b \<and> word_char (b ! s)")
      case True
      then show ?thesis using "1.IH"(2) 2 e by (simp add: word_char_def char_at_def)
    qed (use 2 e in auto) }
qed

lemma gettoken_word:
  assumes "gettoken b ps = (chr CHR ''a'', q, eq, ps')"
  shows "is_word b (q, eq)"
proof -
  note p = gettoken_progress [OF assms]
  have "q = skip_ws b ps" "eq = skip_word b q"
    using assms by (auto simp: gettoken_def Let_def split: if_splits prod.splits)
  then show ?thesis
    using p skip_word_word(1) [of q _ b] skip_word_word(2) [of b q] skip_word_le [of q b] by (auto simp: is_word_def)
qed

primrec exec_len :: "cmd \<Rightarrow> nat" where
  "exec_len (execcmd as) = length as"
| "exec_len (redircmd c q eq mode fd) = exec_len c"
| "exec_len (pipecmd l r) = 0"
| "exec_len (listcmd l r) = 0"
| "exec_len (backcmd c) = 0"

lemma exec_len_add: "exec_len (add_arg a c) \<le> Suc (exec_len c)"
  by (induction c) auto

lemma cmd_ok_add: "cmd_ok b c \<Longrightarrow> is_word b a \<Longrightarrow> Suc (exec_len c) < MAXARGS \<Longrightarrow> cmd_ok b (add_arg a c)"
  by (induction c) auto

definition okres :: "u8 list \<Rightarrow> (cmd \<times> nat) res \<Rightarrow> bool" where
  "okres b r \<longleftrightarrow> (\<forall>c ps. r = Ok (c, ps) \<longrightarrow> cmd_ok b c)"

lemma okres_bind: "okres b r \<Longrightarrow> (\<And>c ps. r = Ok (c, ps) \<Longrightarrow> cmd_ok b c \<Longrightarrow> okres b (f (c, ps))) \<Longrightarrow> okres b (rbind r f)"
  by (cases r) (auto simp: okres_def)

lemma okres_simps [simp]: "okres b (Ok (c, ps)) = cmd_ok b c" "okres b (Panic e)" "okres b Blocked"
  by (simp_all add: okres_def)

lemma parseredirs_ok:
  "cmd_ok b c \<longrightarrow> (case parseredirs b c ps of Ok (c', ps') \<Rightarrow> cmd_ok b c' \<and> exec_len c' = exec_len c | _ \<Rightarrow> True)"
  by (rule parseredirs_induct) (auto dest: gettoken_word [simplified] split: res.splits)

lemma parseredirs_okres: "cmd_ok b c \<Longrightarrow> okres b (parseredirs b c ps)"
  using parseredirs_ok [of b c ps] by (auto simp: okres_def)

lemma parseargs_ok: "cmd_ok b c \<Longrightarrow> exec_len c \<le> argc \<Longrightarrow> argc < MAXARGS \<Longrightarrow> okres b (parseargs b c argc ps)"
proof (induction b c argc ps rule: parseargs.induct)
  case (1 b c argc ps)
  obtain p ps1 where p: "peek b ps (bytes ''|)&;'') = (p, ps1)" by fastforce
  obtain tok q eq ps2 where g: "gettoken b ps1 = (tok, q, eq, ps2)" by (metis prod_cases4)
  let ?c = "add_arg (q, eq) c"
  have "okres b (rbind (parseredirs b ?c ps2) (\<lambda>(c, ps). parseargs b c (argc + 1) ps))"
    if t: "\<not> p" "tok = chr CHR ''a''" "\<not> MAXARGS \<le> argc + 1"
  proof (cases "parseredirs b ?c ps2")
    case (Ok r)
    obtain c' ps' where r: "parseredirs b ?c ps2 = Ok (c', ps')" using Ok by (cases r) auto
    have "is_word b (q, eq)" using g t(2) by (intro gettoken_word) simp
    then have "cmd_ok b ?c" using 1(2,3) t(3) by (intro cmd_ok_add) simp_all
    then have "cmd_ok b c'" "exec_len c' = exec_len ?c" using parseredirs_ok [of b ?c ps2] r by auto
    moreover have "exec_len ?c \<le> argc + 1" using exec_len_add [of "(q, eq)" c] 1(3) by simp
    ultimately show ?thesis
      using 1(1) [OF p [symmetric] t(1) g [symmetric] refl refl _ _ refl refl _ r refl] t(2,3) r by simp
  qed simp_all
  then show ?case using 1(2) by (subst parseargs.simps) (simp add: p g Let_def)
qed

lemma backs_ok: "cmd_ok b c \<Longrightarrow> backs b c ps = (c', ps') \<Longrightarrow> cmd_ok b c'"
proof (induction b c ps rule: backs.induct)
  case (1 b c ps)
  obtain p ps1 where p: "peek b ps (bytes ''&'') = (p, ps1)" by fastforce
  obtain tok q eq ps2 where g: "gettoken b ps1 = (tok, q, eq, ps2)" by (metis prod_cases4)
  show ?case
  proof (cases p)
    case True
    have "backs b (backcmd c) ps2 = (c', ps')" using 1(3) p g True by (subst (asm) backs.simps) simp
    then show ?thesis using 1(1) [OF p [symmetric] _ g [symmetric] refl refl] True 1(2) by simp
  next
    case False
    then show ?thesis using 1(2,3) p by (subst (asm) backs.simps) simp
  qed
qed

lemma parse_ok:
  "okres b (parseline d b ps)" "okres b (parsepipe d b ps)" "okres b (parseexec d b ps)" "okres b (parseblock d b ps)"
proof (induction d b ps and d b ps and d b ps and d b ps rule: parseline_parsepipe_parseexec_parseblock.induct)
  case (2 d b ps)
  show ?case unfolding parseline.simps
  proof (rule okres_bind [OF 2(1)], unfold prod.case)
    fix c ps1 assume r: "parsepipe d b ps = Ok (c, ps1)" "cmd_ok b c"
    obtain c' ps2 where k: "backs b c ps1 = (c', ps2)" by fastforce
    obtain p ps3 where p: "peek b ps2 (bytes '';'') = (p, ps3)" by fastforce
    obtain tok q eq ps4 where g: "gettoken b ps3 = (tok, q, eq, ps4)" by (metis prod_cases4)
    have c': "cmd_ok b c'" using backs_ok [OF r(2) k] .
    have "okres b (rbind (parseline d b ps4) (\<lambda>(r, ps). Ok (listcmd c' r, ps)))" if p
      by (rule okres_bind [OF 2(2) [OF r(1) refl k [symmetric] p [symmetric] that g [symmetric] refl refl]]) (simp add: c')
    then show "okres b (case backs b c ps1 of (c, ps) \<Rightarrow> case peek b ps (bytes '';'') of (p, ps) \<Rightarrow>
         if p then case gettoken b ps of (_, _, _, ps) \<Rightarrow> rbind (parseline d b ps) (\<lambda>(r, ps). Ok (listcmd c r, ps))
         else Ok (c, ps))" using c' by (simp add: k p g)
  qed
next
  case (4 d b ps)
  show ?case unfolding parsepipe.simps
  proof (rule okres_bind [OF 4(1)], unfold prod.case)
    fix c ps1 assume r: "parseexec d b ps = Ok (c, ps1)" "cmd_ok b c"
    obtain p ps3 where p: "peek b ps1 (bytes ''|'') = (p, ps3)" by fastforce
    obtain tok q eq ps4 where g: "gettoken b ps3 = (tok, q, eq, ps4)" by (metis prod_cases4)
    have "okres b (rbind (parsepipe d b ps4) (\<lambda>(r, ps). Ok (pipecmd c r, ps)))" if p
      by (rule okres_bind [OF 4(2) [OF r(1) refl p [symmetric] that g [symmetric] refl refl]]) (simp add: r)
    then show "okres b (case peek b ps1 (bytes ''|'') of (p, ps) \<Rightarrow>
         if p then case gettoken b ps of (_, _, _, ps) \<Rightarrow> rbind (parsepipe d b ps) (\<lambda>(r, ps). Ok (pipecmd c r, ps))
         else Ok (c, ps))" using r by (simp add: p g)
  qed
next
  case (6 d b ps)
  obtain p ps1 where p: "peek b ps (bytes ''('') = (p, ps1)" by fastforce
  have e: "cmd_ok b (execcmd [])" by (simp add: MAXARGS_def)
  have "okres b (rbind (parseredirs b (execcmd []) ps1) (\<lambda>(c, ps). parseargs b c 0 ps))"
  proof (cases "parseredirs b (execcmd []) ps1")
    case (Ok r)
    then show ?thesis using parseredirs_ok [of b "execcmd []" ps1] e parseargs_ok [of b "fst r" 0 "snd r"]
      by (cases r) (simp add: MAXARGS_def)
  qed simp_all
  then show ?case using 6 by (simp add: p)
next
  case (8 d b ps)
  obtain p ps1 where p: "peek b ps (bytes ''('') = (p, ps1)" by fastforce
  obtain tok q eq ps2 where g: "gettoken b ps1 = (tok, q, eq, ps2)" by (metis prod_cases4)
  have "okres b (rbind (parseline d b ps2) (\<lambda>(c, ps). case peek b ps (bytes '')'') of (p, ps) \<Rightarrow>
      if \<not> p then Panic ''syntax - missing )'' else case gettoken b ps of (_, _, _, ps) \<Rightarrow> parseredirs b c ps))" if p
  proof (rule okres_bind)
    show "okres b (parseline d b ps2)" using 8 [OF p [symmetric] _ g [symmetric] refl refl] that by simp
    fix c ps3 assume "cmd_ok b c"
    then show "okres b (case (c, ps3) of (c, ps) \<Rightarrow> case peek b ps (bytes '')'') of (p, ps) \<Rightarrow>
      if \<not> p then Panic ''syntax - missing )'' else case gettoken b ps of (_, _, _, ps) \<Rightarrow> parseredirs b c ps)"
      by (simp add: parseredirs_okres split: prod.splits)
  qed
  then show ?case by (simp add: p g)
qed simp_all

text \<open>Terminating the words of a command leaves every word as it was.\<close>

lemma nulterminate_nth:
  "length (nulterminate c b) = length b"
  "i < length b \<Longrightarrow> nulterminate c b ! i = (if i \<in> snd ` set (words c) then 0 else b ! i)"
proof -
  have f: "length (fold (\<lambda>(q, eq) b. b[eq := 0]) as b) = length b \<and>
    (\<forall>i<length b. fold (\<lambda>(q, eq) b. b[eq := 0]) as b ! i = (if i \<in> snd ` set as then 0 else b ! i))"
    for as :: "(nat \<times> nat) list" and b :: "u8 list"
  proof (induction as arbitrary: b)
    case (Cons a as)
    obtain q e where a: "a = (q, e)" by fastforce
    show ?case using Cons.IH [of "b[e := 0]"] by (simp add: a nth_list_update)
  qed simp
  have "length (nulterminate c b) = length b \<and>
    (\<forall>i<length b. nulterminate c b ! i = (if i \<in> snd ` set (words c) then 0 else b ! i))"
  proof (induction c arbitrary: b)
    case (execcmd as)
    then show ?case using f by simp
  next
    case (redircmd c q eq mode fd)
    have "length (nulterminate c b) = length b" using redircmd [of b] by blast
    then show ?case using redircmd [of b] by (cases "eq < length b") (simp_all add: nth_list_update image_Un)
  next
    case (pipecmd l r)
    show ?case using pipecmd(1) [of b] pipecmd(2) [of "nulterminate l b"] by (simp add: image_Un)
  next
    case (listcmd l r)
    show ?case using listcmd(1) [of b] listcmd(2) [of "nulterminate l b"] by (simp add: image_Un)
  qed simp
  then show "length (nulterminate c b) = length b"
    "i < length b \<Longrightarrow> nulterminate c b ! i = (if i \<in> snd ` set (words c) then 0 else b ! i)" by blast+
qed

lemma cstr_word:
  assumes "q \<le> eq" "eq \<le> length b" "\<forall>i. q \<le> i \<longrightarrow> i < eq \<longrightarrow> b ! i \<noteq> 0" "eq < length b \<longrightarrow> b ! eq = 0"
  shows "cstr (drop q b) = take (eq - q) (drop q b)"
proof -
  have d: "drop q b = take (eq - q) (drop q b) @ drop eq b"
    using assms(1) append_take_drop_id [of "eq - q" "drop q b"] by simp
  have n: "\<forall>x\<in>set (take (eq - q) (drop q b)). x \<noteq> 0"
  proof
    fix x assume "x \<in> set (take (eq - q) (drop q b))"
    then obtain i where "i < eq - q" "x = b ! (q + i)" using assms(1,2) by (auto simp: in_set_conv_nth)
    then show "x \<noteq> 0" using assms(3) by simp
  qed
  have "cstr (xs @ ys) = xs" if "\<forall>x\<in>set xs. x \<noteq> 0" "ys = [] \<or> hd ys = 0" for xs ys
    using that by (induction xs; cases ys) auto
  moreover have "drop eq b = [] \<or> hd (drop eq b) = 0" using assms(4) hd_drop_conv_nth [of eq b] by fastforce
  ultimately show ?thesis using n d by metis
qed

lemma nulterminate_words:
  assumes c: "cmd_ok b c" "(q, eq) \<in> set (words c)" "0 \<notin> set b"
  shows "str_at (nulterminate c b) q = take (eq - q) (drop q b)"
proof -
  let ?b = "nulterminate c b"
  note l = nulterminate_nth [where c = c and b = b]
  have w: "q < eq" "eq \<le> length b" "\<And>i. q \<le> i \<Longrightarrow> i < eq \<Longrightarrow> word_char (b ! i)"
    using words_ok [OF c(1,2)] by (auto simp: is_word_def)
  have out: "i \<notin> snd ` set (words c)" if "q \<le> i" "i < eq" for i
  proof
    assume "i \<in> snd ` set (words c)"
    then obtain q' where "(q', i) \<in> set (words c)" by auto
    then have "i < length b \<longrightarrow> \<not> word_char (b ! i)" using words_ok [OF c(1)] by (auto simp: is_word_def)
    then show False using w(2,3) that by simp
  qed
  have same: "?b ! i = b ! i" if "q \<le> i" "i < eq" for i using l(2) [of i] out [OF that] that w(2) by simp
  have "cstr (drop q ?b) = take (eq - q) (drop q ?b)"
  proof (rule cstr_word)
    show "\<forall>i. q \<le> i \<longrightarrow> i < eq \<longrightarrow> ?b ! i \<noteq> 0" using same c(3) w(2) by (metis nth_mem order.strict_trans2)
    have "eq \<in> snd ` set (words c)" using c(2) by force
    then show "eq < length ?b \<longrightarrow> ?b ! eq = 0" using l by simp
  qed (use w l in simp_all)
  also have "\<dots> = take (eq - q) (drop q b)"
    using w(1,2) same by (intro nth_equalityI) (simp_all add: l(1))
  finally show ?thesis by (simp add: str_at_def)
qed

section \<open>Properties\<close>

text \<open>
  C24. The parser always ends: for every line \<open>parsecmd\<close> returns a command or panics with a
  syntax error; the recursion, whose depth the length of the line bounds, never runs on.
\<close>

theorem parsecmd_terminates: "parsecmd s \<noteq> Blocked"
proof -
  have "fine (cstr s) 0 (parseline (4 * length (cstr s) + 4) (cstr s) 0)" by (rule parse_fine(1)) simp_all
  then show ?thesis
    by (cases "parseline (4 * length (cstr s) + 4) (cstr s) 0") (auto simp: parsecmd_def Let_def fine_def split: prod.splits)
qed

text \<open>
  C23. A command that \<open>parsecmd\<close> returns is well formed: every simple command has fewer than
  MAXARGS arguments, so \<open>argv\<close> has room for its final null; every redirection is of
  descriptor 0 for reading or 1 for writing; and the NULs written into the line end each
  word exactly where it ended, so every argument and file name is read back as the
  non-empty run of word characters that was typed.
\<close>

theorem parsecmd_well_formed:
  assumes "parsecmd s = Ok (c, b)"
  shows "cmd_ok (cstr s) c \<and>
    (\<forall>(q, eq)\<in>set (words c). str_at b q = take (eq - q) (drop q (cstr s)) \<and> str_at b q \<noteq> [] \<and>
       (\<forall>x\<in>set (str_at b q). word_char x))"
proof -
  obtain ps where p: "parseline (4 * length (cstr s) + 4) (cstr s) 0 = Ok (c, ps)" "b = nulterminate c (cstr s)"
    using assms by (cases "parseline (4 * length (cstr s) + 4) (cstr s) 0")
      (auto simp: parsecmd_def Let_def split: prod.splits if_splits)
  have ok: "cmd_ok (cstr s) c" using parse_ok(1) [of "cstr s" "4 * length (cstr s) + 4" 0] p(1) by (simp only: okres_simps)
  have "0 \<notin> set (cstr s)" by (auto simp: cstr_def dest: set_takeWhileD)
  then have s: "str_at b q = take (eq - q) (drop q (cstr s))" if "(q, eq) \<in> set (words c)" for q eq
    using nulterminate_words [OF ok that] p(2) by simp
  have "take (eq - q) (drop q (cstr s)) \<noteq> [] \<and> (\<forall>x\<in>set (take (eq - q) (drop q (cstr s))). word_char x)"
    if "(q, eq) \<in> set (words c)" for q eq
    using words_ok [OF ok that] by (auto simp: is_word_def in_set_conv_nth)
  then show ?thesis using ok s by auto
qed

theorem parsecmd_well_formed_witness:
  "parsecmd (bytes ''ls a|wc>f'') = Ok (pipecmd (execcmd [(0, 2), (3, 4)]) (redircmd (execcmd [(5, 7)]) 8 9 (O_WRONLY OR O_CREATE) 1),
     [108, 115, 0, 97, 0, 119, 99, 0, 102]) \<and>
   str_at [108, 115, 0, 97, 0, 119, 99, 0, 102] 5 = bytes ''wc''"
proof -
  have p: "parsecmd (bytes ''ls a|wc>f'') = Ok (pipecmd (execcmd [(0, 2), (3, 4)]) (redircmd (execcmd [(5, 7)]) 8 9 (O_WRONLY OR O_CREATE) 1),
     [108, 115, 0, 97, 0, 119, 99, 0, 102])" by code_simp
  from parsecmd_well_formed [OF p] have "str_at [108, 115, 0, 97, 0, 119, 99, 0, 102] 5 = take (7 - 5) (drop 5 (cstr (bytes ''ls a|wc>f'')))"
    by auto
  with p show ?thesis by (simp add: bytes_def)
qed

text \<open>The calls that change the descriptors of a process: \<open>dup\<close> takes the lowest free one.\<close>

definition lowest_free :: "(nat \<Rightarrow> 'f option) \<Rightarrow> nat" where
  "lowest_free t = (LEAST fd. t fd = None)"

inductive fd_step :: "prog \<times> (nat \<Rightarrow> 'f option) \<Rightarrow> prog \<times> (nat \<Rightarrow> 'f option) \<Rightarrow> bool" where
  "fd_step (Close fd p, t) (p, t(fd := None))"
| "fd_step (Dup fd p, t) (p, t(lowest_free t := t fd))"



end
