(* ===== verification/Umalloc.thy ===== *)
theory Umalloc
  imports Kalloc
begin

text \<open>
  The user memory allocator: umalloc.c. Headers are pairs of words in the byte memory of the
  process, \<open>base\<close> is the address of the static header, and the system call \<open>sbrk\<close> is a parameter
  with the laws of the locale \<open>heap_source\<close>; \<open>usbrk\<close> is what sys_sbrk and growproc do as seen by
  the process. The loops over the circular free list are partial functions: \<open>None\<close> is a loop that
  does not end.
\<close>

section \<open>Headers\<close>

record uheap =
  um :: memory
  freep :: u32
  brk :: u32

definition hptr :: "uheap \<Rightarrow> u32 \<Rightarrow> u32" where
  "hptr h a = load32 (um h) a"

definition hsize :: "uheap \<Rightarrow> u32 \<Rightarrow> u32" where
  "hsize h a = load32 (um h) (a + 4)"

definition set_hptr :: "u32 \<Rightarrow> u32 \<Rightarrow> uheap \<Rightarrow> uheap" where
  "set_hptr a v h = h\<lparr>um := store32 (um h) a v\<rparr>"

definition set_hsize :: "u32 \<Rightarrow> u32 \<Rightarrow> uheap \<Rightarrow> uheap" where
  "set_hsize a v h = h\<lparr>um := store32 (um h) (a + 4) v\<rparr>"

section \<open>free\<close>

partial_function (option) free_scan :: "u32 \<Rightarrow> u32 \<Rightarrow> uheap \<Rightarrow> u32 option" where
  "free_scan bp p h =
     (if p < bp \<and> bp < hptr h p then Some p
      else if hptr h p \<le> p \<and> (p < bp \<or> bp < hptr h p) then Some p
      else free_scan bp (hptr h p) h)"

definition join_next :: "u32 \<Rightarrow> u32 \<Rightarrow> uheap \<Rightarrow> uheap" where
  "join_next bp p h =
     (if bp + 8 * hsize h bp = hptr h p
      then let h = set_hsize bp (hsize h bp + hsize h (hptr h p)) h in set_hptr bp (hptr h (hptr h p)) h
      else set_hptr bp (hptr h p) h)"

definition join_prev :: "u32 \<Rightarrow> u32 \<Rightarrow> uheap \<Rightarrow> uheap" where
  "join_prev bp p h =
     (if p + 8 * hsize h p = bp
      then let h = set_hsize p (hsize h p + hsize h bp) h in set_hptr p (hptr h bp) h
      else set_hptr p bp h)"

definition free :: "u32 \<Rightarrow> uheap \<Rightarrow> uheap option" where
  "free ap h =
     (let bp = ap - 8
      in case free_scan bp (freep h) h of
           None \<Rightarrow> None
         | Some p \<Rightarrow> Some ((join_prev bp p (join_next bp p h))\<lparr>freep := p\<rparr>))"

section \<open>malloc\<close>

text \<open>\<open>sbrk\<close> for a process of size \<open>brk\<close>; \<open>grow\<close> says whether the kernel has the pages.\<close>

definition usbrk :: "(u32 \<Rightarrow> u32 \<Rightarrow> bool) \<Rightarrow> cint \<Rightarrow> uheap \<Rightarrow> u32 \<times> uheap" where
  "usbrk grow n h =
     (let old = brk h; new = old + n
      in if 0 <s n
         then (if new \<ge> KERNBASE then (-1, h)
               else if new < old then (old, h)
               else if grow old new then (old, h\<lparr>brk := new\<rparr>) else (-1, h))
         else if n <s 0
         then (if new \<ge> old then (old, h) else if new = 0 then (-1, h) else (old, h\<lparr>brk := new\<rparr>))
         else (old, h))"

definition morecore :: "(cint \<Rightarrow> uheap \<Rightarrow> u32 \<times> uheap) \<Rightarrow> u32 \<Rightarrow> uheap \<Rightarrow> (u32 \<times> uheap) option" where
  "morecore sbrk nu h =
     (let nu = (if nu < 4096 then 4096 else nu);
          (p, h) = sbrk (nu * 8) h
      in if p = -1 then Some (0, h)
         else case free (p + 8) (set_hsize p nu h) of None \<Rightarrow> None | Some h \<Rightarrow> Some (freep h, h))"

definition take_block :: "u32 \<Rightarrow> u32 \<Rightarrow> u32 \<Rightarrow> uheap \<Rightarrow> u32 \<times> uheap" where
  "take_block nunits prevp p h =
     (if hsize h p = nunits
      then (p + 8, (set_hptr prevp (hptr h p) h)\<lparr>freep := prevp\<rparr>)
      else let h = set_hsize p (hsize h p - nunits) h;
               p = p + 8 * hsize h p;
               h = set_hsize p nunits h
           in (p + 8, h\<lparr>freep := prevp\<rparr>))"

partial_function (option) malloc_loop ::
  "(cint \<Rightarrow> uheap \<Rightarrow> u32 \<times> uheap) \<Rightarrow> u32 \<Rightarrow> u32 \<Rightarrow> u32 \<Rightarrow> uheap \<Rightarrow> (u32 \<times> uheap) option" where
  "malloc_loop sbrk nunits prevp p h =
     (if nunits \<le> hsize h p then Some (take_block nunits prevp p h)
      else if p = freep h
      then Option.bind (morecore sbrk nunits h) (\<lambda>(p, h).
             if p = 0 then Some (0, h) else malloc_loop sbrk nunits p (hptr h p) h)
      else malloc_loop sbrk nunits p (hptr h p) h)"

definition nunits :: "u32 \<Rightarrow> u32" where
  "nunits nbytes = (nbytes + 8 - 1) div 8 + 1"

definition malloc :: "(cint \<Rightarrow> uheap \<Rightarrow> u32 \<times> uheap) \<Rightarrow> u32 \<Rightarrow> u32 \<Rightarrow> uheap \<Rightarrow> (u32 \<times> uheap) option" where
  "malloc sbrk base nbytes h =
     (let h = (if freep h = 0 then set_hsize base 0 ((set_hptr base base h)\<lparr>freep := base\<rparr>) else h)
      in malloc_loop sbrk (nunits nbytes) (freep h) (hptr h (freep h)) h)"

section \<open>Headers that do not overlap\<close>

abbreviation hb :: "u32 \<Rightarrow> bool" where
  "hb x \<equiv> unat x + 8 \<le> 4294967296"

definition hsep :: "u32 \<Rightarrow> u32 \<Rightarrow> bool" where
  "hsep x y \<longleftrightarrow> unat x + 8 \<le> unat y \<or> unat y + 8 \<le> unat x"

lemma store32_other:
  assumes "unat z < unat a \<or> unat a + 4 \<le> unat z" "unat a + 4 \<le> 4294967296"
  shows "store32 m a v z = m z"
proof -
  have "unat (a + of_nat i) = unat a + i" if "i < 4" for i
    using that assms(2) by (subst unat_add_u32) simp_all
  from this [of 0] this [of 1] this [of 2] this [of 3] have "z \<noteq> a" "z \<noteq> a + 1" "z \<noteq> a + 2" "z \<noteq> a + 3"
    using assms(1) by auto
  then show ?thesis by (simp add: store32_def)
qed

lemma load32_store32_sep:
  assumes "unat a + 4 \<le> unat b \<or> unat b + 4 \<le> unat a" "unat a + 4 \<le> 4294967296" "unat b + 4 \<le> 4294967296"
  shows "load32 (store32 m a v) b = load32 m b"
proof (rule load32_cong)
  fix i :: nat assume "i < 4"
  then have "unat (b + of_nat i) = unat b + i" using assms(3) by (subst unat_add_u32) simp_all
  then show "store32 m a v (b + of_nat i) = m (b + of_nat i)" using assms \<open>i < 4\<close> by (intro store32_other) auto
qed

lemma hb_4: "hb x \<Longrightarrow> unat (x + 4) = unat x + 4"
  by (subst unat_add_u32) simp_all

lemma hdr_set [simp]:
  "brk (set_hptr x v h) = brk h" "freep (set_hptr x v h) = freep h"
  "brk (set_hsize x v h) = brk h" "freep (set_hsize x v h) = freep h"
  "hptr (h\<lparr>freep := p\<rparr>) = hptr h" "hsize (h\<lparr>freep := p\<rparr>) = hsize h"
  "hptr (h\<lparr>brk := p\<rparr>) = hptr h" "hsize (h\<lparr>brk := p\<rparr>) = hsize h"
  by (simp_all add: set_hptr_def set_hsize_def hptr_def hsize_def fun_eq_iff)

lemma hptr_set_hptr: "hb x \<Longrightarrow> hb y \<Longrightarrow> y = x \<or> hsep x y \<Longrightarrow> hptr (set_hptr x v h) y = (if y = x then v else hptr h y)"
  by (auto simp: hptr_def set_hptr_def hsep_def load32_store32_sep)

lemma hsize_set_hptr: "hb x \<Longrightarrow> hb y \<Longrightarrow> y = x \<or> hsep x y \<Longrightarrow> hsize (set_hptr x v h) y = hsize h y"
  by (auto simp: hsize_def set_hptr_def hsep_def hb_4 load32_store32_sep)

lemma hptr_set_hsize: "hb x \<Longrightarrow> hb y \<Longrightarrow> y = x \<or> hsep x y \<Longrightarrow> hptr (set_hsize x v h) y = hptr h y"
  by (auto simp: hptr_def set_hsize_def hsep_def hb_4 load32_store32_sep)

lemma hsize_set_hsize: "hb x \<Longrightarrow> hb y \<Longrightarrow> y = x \<or> hsep x y \<Longrightarrow> hsize (set_hsize x v h) y = (if y = x then v else hsize h y)"
  by (auto simp: hsize_def set_hsize_def hsep_def hb_4 load32_store32_sep)

lemmas hdr_simps = hptr_set_hptr hsize_set_hptr hptr_set_hsize hsize_set_hsize

lemma um_set_other:
  assumes "hb x" "unat z < unat x \<or> unat x + 8 \<le> unat z"
  shows "um (set_hptr x v h) z = um h z" "um (set_hsize x v h) z = um h z"
proof -
  have "unat (x + 4) = unat x + 4" using assms(1) by (rule hb_4)
  then show "um (set_hptr x v h) z = um h z" "um (set_hsize x v h) z = um h z"
    using assms by (auto simp: set_hptr_def set_hsize_def intro!: store32_other)
qed

section \<open>The free list\<close>

fun links :: "(u32 \<Rightarrow> u32) \<Rightarrow> u32 list \<Rightarrow> u32 \<Rightarrow> bool" where
  "links f [] e = True"
| "links f (x # xs) e = (f x = hd (xs @ [e]) \<and> links f xs e)"

lemma links_append: "links f (xs @ ys) e \<longleftrightarrow> links f xs (hd (ys @ [e])) \<and> links f ys e"
  by (induction xs) (auto simp: hd_append)

lemma links_cong: "(\<And>x. x \<in> set xs \<Longrightarrow> f x = g x) \<Longrightarrow> links f xs e = links g xs e"
  by (induction xs) auto

text \<open>Changing the link of the last node changes where the list ends.\<close>

lemma links_last: "links f (xs @ [x]) e \<Longrightarrow> x \<notin> set xs \<Longrightarrow> (\<And>y. y \<in> set xs \<Longrightarrow> g y = f y) \<Longrightarrow> g x = e' \<Longrightarrow> links g (xs @ [x]) e'"
  using links_cong [of xs g f x] by (simp add: links_append)

definition hi :: "uheap \<Rightarrow> u32 \<Rightarrow> nat" where
  "hi h x = unat x + 8 * unat (hsize h x)"

definition apart :: "uheap \<Rightarrow> u32 \<Rightarrow> u32 \<Rightarrow> bool" where
  "apart h x y \<longleftrightarrow> hi h x \<le> unat y \<or> hi h y \<le> unat x"

text \<open>Blocks are whole units between the end of the static header and the break and no two of them
  overlap; \<open>bs\<close> are the free ones, in order of address, and \<open>A\<close> the allocated ones. The list of the
  free blocks goes through the static header and back to it.\<close>

definition block_ok :: "u32 \<Rightarrow> uheap \<Rightarrow> u32 \<Rightarrow> bool" where
  "block_ok base h x \<longleftrightarrow> hsize h x \<noteq> 0 \<and> unat base + 8 \<le> unat x \<and> hi h x \<le> unat (brk h)"

definition blocks_ok :: "u32 \<Rightarrow> uheap \<Rightarrow> u32 list \<Rightarrow> u32 set \<Rightarrow> bool" where
  "blocks_ok base h bs A \<longleftrightarrow>
     base \<noteq> 0 \<and> unat base + 8 \<le> unat (brk h) \<and> brk h \<le> KERNBASE \<and> hsize h base = 0 \<and>
     sorted_wrt (\<lambda>x y. hi h x \<le> unat y) bs \<and> set bs \<inter> A = {} \<and>
     (\<forall>x\<in>set bs \<union> A. block_ok base h x) \<and> (\<forall>a\<in>A. \<forall>x\<in>set bs \<union> A. x \<noteq> a \<longrightarrow> apart h a x)"

definition heap_ok :: "u32 \<Rightarrow> uheap \<Rightarrow> u32 list \<Rightarrow> u32 set \<Rightarrow> bool" where
  "heap_ok base h bs A \<longleftrightarrow>
     blocks_ok base h bs A \<and> freep h \<in> set (base # bs) \<and> links (hptr h) (base # bs) base"

definition region :: "uheap \<Rightarrow> u32 \<Rightarrow> nat set" where
  "region h x = {unat x..<hi h x}"

definition ufree :: "uheap \<Rightarrow> u32 list \<Rightarrow> nat set" where
  "ufree h bs = (\<Union>x\<in>set bs. region h x)"

lemma unat_8_mult:
  fixes a n :: u32
  assumes "unat a + 8 * unat n < 4294967296"
  shows "unat (a + 8 * n) = unat a + 8 * unat n"
proof -
  have "unat (8 * n) = 8 * unat n" using assms by (subst unat_mult_lem [THEN iffD1]) simp_all
  then show ?thesis using assms by (subst unat_add_u32) simp_all
qed

lemma blocks_okD:
  assumes "blocks_ok base h bs A"
  shows "base \<noteq> 0" "unat base + 8 \<le> unat (brk h)" "unat (brk h) \<le> 2147483648" "hsize h base = 0"
    "sorted_wrt (\<lambda>x y. hi h x \<le> unat y) bs" "set bs \<inter> A = {}"
    "\<And>x. x \<in> set bs \<union> A \<Longrightarrow> block_ok base h x" "\<And>a x. a \<in> A \<Longrightarrow> x \<in> set bs \<union> A \<Longrightarrow> x \<noteq> a \<Longrightarrow> apart h a x"
  using assms by (auto simp: blocks_ok_def KERNBASE_def word_le_nat_alt)

lemma block_okD:
  assumes "block_ok base h x" "unat (brk h) \<le> 2147483648"
  shows "unat base + 8 \<le> unat x" "unat x + 8 \<le> hi h x" "hi h x \<le> 2147483648" "hb x" "x \<noteq> base" "hi h x \<le> unat (brk h)"
    "unat (x + 8 * hsize h x) = hi h x"
proof -
  have "unat (hsize h x) > 0" using assms(1) by (simp add: block_ok_def unat_gt_0)
  then show 1: "unat base + 8 \<le> unat x" "unat x + 8 \<le> hi h x" "hi h x \<le> unat (brk h)"
    using assms(1) by (simp_all add: block_ok_def hi_def)
  then show "hi h x \<le> 2147483648" using assms(2) by simp
  with 1 show "hb x" "x \<noteq> base" by auto
  show "unat (x + 8 * hsize h x) = hi h x" using \<open>hi h x \<le> 2147483648\<close> by (simp add: hi_def unat_8_mult)
qed

lemma sorted_apart: "sorted_wrt (\<lambda>x y. hi h x \<le> unat y) bs \<Longrightarrow> x \<in> set bs \<Longrightarrow> y \<in> set bs \<Longrightarrow> x \<noteq> y \<Longrightarrow> apart h x y"
  by (induction bs) (auto simp: apart_def)

lemma blocks_apart:
  assumes "blocks_ok base h bs A" "x \<in> set bs \<union> A" "y \<in> set bs \<union> A" "x \<noteq> y"
  shows "apart h x y"
  using blocks_okD(5,8) [OF assms(1)] assms(2-4) sorted_apart [of h bs x y] by (auto simp: apart_def)

lemma blocks_hsep:
  assumes "blocks_ok base h bs A" "x \<in> insert base (set bs \<union> A)" "y \<in> insert base (set bs \<union> A)"
  shows "hb x" "y = x \<or> hsep x y"
proof -
  note D = blocks_okD [OF assms(1)]
  note B = block_okD [OF D(7) D(3)]
  show "hb x" using assms(2) B(4) [of x] D(2,3) by auto
  show "y = x \<or> hsep x y"
  proof (cases "x = base \<or> y = base")
    case True
    then show ?thesis using assms(2,3) B(1) [of x] B(1) [of y] by (auto simp: hsep_def)
  next
    case False
    then have "x \<in> set bs \<union> A" "y \<in> set bs \<union> A" using assms(2,3) by auto
    then show ?thesis using blocks_apart [OF assms(1), of x y] B(2) [of x] B(2) [of y] by (auto simp: hsep_def apart_def)
  qed
qed

lemma blocks_cong:
  assumes "blocks_ok base h bs A" "brk h' = brk h" "\<And>x. x \<in> insert base (set bs \<union> A) \<Longrightarrow> hsize h' x = hsize h x"
  shows "blocks_ok base h' bs A" "ufree h' bs = ufree h bs"
proof -
  have h: "hi h' x = hi h x" if "x \<in> set bs \<union> A" for x using assms(3) [of x] that by (simp add: hi_def)
  have s: "sorted_wrt (\<lambda>x y. hi h' x \<le> unat y) bs"
    using blocks_okD(5) [OF assms(1)] h by (auto elim!: sorted_wrt_mono_rel [rotated])
  show "blocks_ok base h' bs A"
    using assms(1) s h assms(2,3) by (auto simp: blocks_ok_def block_ok_def apart_def)
  show "ufree h' bs = ufree h bs" using h by (simp add: ufree_def region_def)
qed

lemma heap_freep: "heap_ok base h bs A \<Longrightarrow> p \<in> set (base # bs) \<Longrightarrow> heap_ok base (h\<lparr>freep := p\<rparr>) bs A"
  using blocks_cong [of base h bs A "h\<lparr>freep := p\<rparr>"] by (simp add: heap_ok_def)

text \<open>Returning an allocated block to its place in the list.\<close>

lemma blocks_insert:
  assumes "blocks_ok base h (ls @ rs) A" "b \<in> A" "\<And>x. x \<in> set ls \<Longrightarrow> x < b" "\<And>x. x \<in> set rs \<Longrightarrow> b < x"
  shows "blocks_ok base h (ls @ b # rs) (A - {b})" "ufree h (ls @ b # rs) = ufree h (ls @ rs) \<union> region h b"
proof -
  note D = blocks_okD [OF assms(1)]
  note B = block_okD [OF D(7) D(3)]
  have l: "hi h x \<le> unat b" if "x \<in> set ls" for x
  proof -
    have "apart h b x" using D(8) [OF assms(2), of x] that assms(3) by auto
    then show ?thesis using assms(3) [OF that] B(2) [of b] assms(2) by (auto simp: apart_def word_less_nat_alt)
  qed
  have r: "hi h b \<le> unat x" if "x \<in> set rs" for x
  proof -
    have "apart h b x" using D(8) [OF assms(2), of x] that assms(4) by auto
    then show ?thesis using assms(4) [OF that] B(2) [of x] that by (auto simp: apart_def word_less_nat_alt)
  qed
  have "sorted_wrt (\<lambda>x y. hi h x \<le> unat y) (ls @ b # rs)" using D(5) l r by (simp add: sorted_wrt_append)
  moreover have "\<forall>x\<in>set (ls @ b # rs) \<union> (A - {b}). block_ok base h x" using D(7) assms(2) by auto
  moreover have "\<forall>a\<in>A - {b}. \<forall>x\<in>set (ls @ b # rs) \<union> (A - {b}). x \<noteq> a \<longrightarrow> apart h a x" using D(8) assms(2) by auto
  ultimately show "blocks_ok base h (ls @ b # rs) (A - {b})"
    using assms(1) D(6) by (auto simp: blocks_ok_def)
  show "ufree h (ls @ b # rs) = ufree h (ls @ rs) \<union> region h b" by (auto simp: ufree_def)
qed

text \<open>Two free blocks that touch become one.\<close>

lemma blocks_merge:
  assumes ok: "blocks_ok base h (ls @ x # y # rs) A" and t: "hi h x = unat y"
    and b: "brk h' = brk h" and x: "hsize h' x = hsize h x + hsize h y"
    and z: "\<And>z. z \<in> insert base (set ls \<union> set rs \<union> A) \<Longrightarrow> hsize h' z = hsize h z"
  shows "blocks_ok base h' (ls @ x # rs) A" "ufree h' (ls @ x # rs) = ufree h (ls @ x # y # rs)"
    "region h' x = region h x \<union> region h y"
proof -
  note D = blocks_okD [OF ok]
  note B = block_okD [OF D(7) D(3)]
  have y2: "hi h y \<le> 2147483648" "unat y + 8 \<le> hi h y" "unat x + 8 \<le> hi h x" using B(2,3) by simp_all
  have "unat (hsize h x + hsize h y) = unat (hsize h x) + unat (hsize h y)"
    using y2 t by (intro unat_add_u32) (simp add: hi_def)
  then have hx: "hi h' x = hi h y" using t x by (simp add: hi_def)
  have hz: "hi h' z = hi h z" if "z \<in> set ls \<union> set rs \<union> A" for z using z [of z] that by (simp add: hi_def)
  have s: "sorted_wrt (\<lambda>x y. hi h x \<le> unat y) (ls @ x # y # rs)" by (rule D(5))
  have "\<forall>u\<in>set ls. \<forall>v\<in>set rs. hi h u \<le> unat v" "\<forall>u\<in>set ls. hi h u \<le> unat x" "\<forall>v\<in>set rs. hi h y \<le> unat v"
    "sorted_wrt (\<lambda>x y. hi h x \<le> unat y) ls" "sorted_wrt (\<lambda>x y. hi h x \<le> unat y) rs"
    using s by (auto simp: sorted_wrt_append)
  then have s': "sorted_wrt (\<lambda>x y. hi h' x \<le> unat y) (ls @ x # rs)"
    using hx hz by (auto simp: sorted_wrt_append elim!: sorted_wrt_mono_rel [rotated])
  have bk: "\<forall>u\<in>set (ls @ x # rs) \<union> A. block_ok base h' u"
  proof
    fix u assume u: "u \<in> set (ls @ x # rs) \<union> A"
    have "unat (hsize h' x) > 0" using x y2 hx t by (simp add: hi_def)
    then have "hsize h' x \<noteq> 0" by auto
    then show "block_ok base h' u"
      using u D(7) [of u] D(7) [of x] D(7) [of y] z [of u] hz [of u] hx b x by (cases "u = x") (auto simp: block_ok_def)
  qed
  have ap: "\<forall>a\<in>A. \<forall>u\<in>set (ls @ x # rs) \<union> A. u \<noteq> a \<longrightarrow> apart h' a u"
  proof (intro ballI impI)
    fix a u assume a: "a \<in> A" "u \<in> set (ls @ x # rs) \<union> A" "u \<noteq> a"
    have ne: "a \<noteq> x" "a \<noteq> y" using D(6) a(1) by auto
    show "apart h' a u"
    proof (cases "u = x")
      case True
      have 1: "apart h a x" "apart h a y" using D(8) [OF a(1)] ne by auto
      have "unat a + 8 \<le> hi h a" using B(2) [of a] a(1) by simp
      then show ?thesis using 1 True hx hz [of a] a(1) y2 t by (auto simp: apart_def)
    next
      case False
      then show ?thesis using D(8) [OF a(1), of u] a(2,3) hz [of a] hz [of u] a(1) by (auto simp: apart_def)
    qed
  qed
  show "blocks_ok base h' (ls @ x # rs) A"
    using ok b z s' bk ap D(6) by (auto simp: blocks_ok_def)
  show xy: "region h' x = region h x \<union> region h y" using hx t y2 by (auto simp: region_def)
  have "region h' z = region h z" if "z \<in> set ls \<union> set rs" for z using hz that by (auto simp: region_def)
  then show "ufree h' (ls @ x # rs) = ufree h (ls @ x # y # rs)" using xy by (auto simp: ufree_def)
qed

lemma sorted_mem_less:
  assumes "blocks_ok base h (ls @ b # rs) A" 
  shows "x \<in> set ls \<Longrightarrow> x < b" "x \<in> set rs \<Longrightarrow> b < x"
proof -
  note D = blocks_okD [OF assms]
  note B = block_okD [OF D(7) D(3)]
  show "x < b" if "x \<in> set ls" using D(5) that B(2) [of x] by (auto simp: sorted_wrt_append word_less_nat_alt)
  show "b < x" if "x \<in> set rs" using D(5) that B(2) [of b] by (auto simp: sorted_wrt_append word_less_nat_alt)
qed

lemma blocks_ne:
  assumes "blocks_ok base h (ls @ b # rs) A"
  shows "b \<notin> set ls" "b \<notin> set rs" "b \<noteq> base" "base \<notin> set ls" "base \<notin> set rs" "set ls \<inter> set rs = {}" "b \<notin> A"
proof -
  note L = sorted_mem_less [OF assms]
  note D = blocks_okD [OF assms]
  note B = block_okD [OF D(7) D(3)]
  show "b \<notin> set ls" using L(1) [of b] by blast
  show "b \<notin> set rs" using L(2) [of b] by blast
  show "b \<noteq> base" "base \<notin> set ls" "base \<notin> set rs" using B(5) by auto
  show "set ls \<inter> set rs = {}" using L by (meson disjoint_iff order_less_asym)
  show "b \<notin> A" using D(6) by auto
qed

lemma links_snoc: "links f (xs @ [p]) e \<Longrightarrow> f p = e"
  by (simp add: links_append)

lemma last_link: "links f (base # ls) e \<Longrightarrow> f (last (base # ls)) = e"
  using links_snoc [of f "butlast (base # ls)" "last (base # ls)" e] append_butlast_last_id [of "base # ls"] by simp

lemma join_next_spec:
  assumes ok: "blocks_ok base h (ls @ b # rs) A" and l: "links (hptr h) (base # ls) (hd (rs @ [base]))"
    and r: "links (hptr h) rs base" and p: "p = last (base # ls)"
  shows "\<exists>rs'. blocks_ok base (join_next b p h) (ls @ b # rs') A \<and>
    links (hptr (join_next b p h)) (base # ls) (hd (rs @ [base])) \<and> links (hptr (join_next b p h)) (b # rs') base \<and>
    ufree (join_next b p h) (ls @ b # rs') = ufree h (ls @ b # rs) \<and> region h b \<subseteq> region (join_next b p h) b \<and>
    brk (join_next b p h) = brk h \<and> (\<forall>z. unat z < unat b \<or> unat b + 8 \<le> unat z \<longrightarrow> um (join_next b p h) z = um h z)"
proof -
  let ?h = "join_next b p h" and ?q = "hd (rs @ [base])" and ?D = "insert base (set (ls @ b # rs) \<union> A)"
  note D = blocks_okD [OF ok] and N = blocks_ne [OF ok]
  note B = block_okD [OF D(7) D(3)]
  note S = blocks_hsep [OF ok]
  have bD: "b \<in> ?D" and pD: "p \<in> ?D" and qD: "?q \<in> ?D" using p by (auto simp: hd_append)
  have q: "hptr h p = ?q" unfolding p by (rule last_link [OF l])
  have hb: "unat (b + 8 * hsize h b) = hi h b" "unat base + 8 \<le> unat b" "unat b + 8 \<le> hi h b" using B(7,1,2) [of b] by auto
  have lc: "links (hptr ?h) (base # ls) ?q" if "\<And>x. x \<in> ?D \<Longrightarrow> hptr ?h x = (if x = b then v else hptr h x)" for v
    using l N that by (subst links_cong [where g = "hptr h"]) auto
  show ?thesis
  proof (cases "b + 8 * hsize h b = ?q")
    case False
    have j: "?h = set_hptr b ?q h" using False q by (simp add: join_next_def)
    have hp: "hptr ?h x = (if x = b then ?q else hptr h x)" and hs: "hsize ?h x = hsize h x" if "x \<in> ?D" for x
      unfolding j using S(1) [OF bD bD] S(1) [OF that that] S(2) [OF bD that] by (auto simp: hdr_simps)
    have "links (hptr ?h) rs base" using r N hp by (subst links_cong [where g = "hptr h"]) auto
    moreover have "hptr ?h b = ?q" using hp [OF bD] by simp
    ultimately have "links (hptr ?h) (b # rs) base" by simp
    then show ?thesis
      using blocks_cong [OF ok, of ?h] hs lc [OF hp] um_set_other [OF S(1) [OF bD bD]]
      by (intro exI [of _ rs]) (auto simp: j region_def hi_def)
  next
    case True
    have "rs \<noteq> []"
    proof
      assume "rs = []"
      then have "unat (b + 8 * hsize h b) = unat base" using True by simp
      then show False using hb by simp
    qed
    then obtain y rs1 where rs: "rs = y # rs1" by (cases rs) auto
    then have qy: "?q = y" and t: "hi h b = unat y" using True hb(1) by auto
    have yD: "y \<in> ?D" and yb: "y \<noteq> b" using rs N by auto
    let ?v = "hsize h b + hsize h y" and ?n = "hd (rs1 @ [base])"
    have ny: "hptr h y = ?n" using r rs by simp
    have j: "?h = set_hptr b ?n (set_hsize b ?v h)"
      using True q qy S(1) [OF bD bD] S(1) [OF pD pD] S(1) [OF yD yD] S(2) [OF bD pD] S(2) [OF bD yD] yb ny
      by (simp add: join_next_def Let_def hdr_simps)
    have hp: "hptr ?h x = (if x = b then ?n else hptr h x)" and hs: "hsize ?h x = (if x = b then ?v else hsize h x)" if "x \<in> ?D" for x
      unfolding j using S(1) [OF bD bD] S(1) [OF that that] S(2) [OF bD that] by (auto simp: hdr_simps)
    have ok1: "blocks_ok base h (ls @ b # y # rs1) A" using ok rs by simp
    have sz: "hsize ?h z = hsize h z" if "z \<in> insert base (set ls \<union> set rs1 \<union> A)" for z
      using hs [of z] that N rs by auto
    have bsz: "hsize ?h b = hsize h b + hsize h y" using hs [OF bD] by simp
    have br: "brk ?h = brk h" by (simp add: j)
    note M = blocks_merge [OF ok1 t br bsz sz]
    have "links (hptr ?h) rs1 base" using r N hp rs by (subst links_cong [where g = "hptr h"]) auto
    moreover have "hptr ?h b = ?n" using hp [OF bD] by simp
    ultimately have "links (hptr ?h) (b # rs1) base" by simp
    moreover have "\<forall>z. unat z < unat b \<or> unat b + 8 \<le> unat z \<longrightarrow> um ?h z = um h z"
      using um_set_other [OF S(1) [OF bD bD]] by (simp add: j)
    ultimately show ?thesis using M br lc [OF hp] by (intro exI [of _ rs1]) (simp add: rs)
  qed
qed

lemma join_prev_spec:
  assumes ok: "blocks_ok base h (ls @ b # rs) A" and l: "links (hptr h) (base # ls) e"
    and r: "links (hptr h) (b # rs) base" and p: "p = last (base # ls)"
  shows "\<exists>bs. blocks_ok base (join_prev b p h) bs A \<and> links (hptr (join_prev b p h)) (base # bs) base \<and> p \<in> set (base # bs) \<and>
    ufree (join_prev b p h) bs = ufree h (ls @ b # rs) \<and> (\<exists>x\<in>set bs. region h b \<subseteq> region (join_prev b p h) x) \<and>
    brk (join_prev b p h) = brk h \<and> (\<forall>z. unat z < unat p \<or> unat p + 8 \<le> unat z \<longrightarrow> um (join_prev b p h) z = um h z)"
proof -
  let ?h = "join_prev b p h" and ?D = "insert base (set (ls @ b # rs) \<union> A)"
  note D = blocks_okD [OF ok] and N = blocks_ne [OF ok]
  note B = block_okD [OF D(7) D(3)]
  note S = blocks_hsep [OF ok]
  define xs where "xs = butlast (base # ls)"
  have xp: "base # ls = xs @ [p]" unfolding xs_def p by (simp only: append_butlast_last_id list.distinct not_False_eq_True)
  have dist: "distinct (base # ls)"
  proof -
    have "sorted_wrt (\<lambda>x y. hi h x \<le> unat y) ls" using D(5) by (simp add: sorted_wrt_append)
    moreover have "\<And>x. x \<in> set ls \<Longrightarrow> unat x + 8 \<le> hi h x" using B(2) by simp
    ultimately have "distinct ls" by (induction ls) fastforce+
    then show ?thesis using N by simp
  qed
  then have px: "p \<notin> set xs" unfolding xp by simp
  have set_xp: "set (base # ls) = insert p (set xs)" unfolding xp by simp
  have bD: "b \<in> ?D" and pD: "p \<in> ?D" and pb: "p \<noteq> b" and prs: "p \<notin> set rs" using set_xp N by auto
  have um: "\<forall>z. unat z < unat p \<or> unat p + 8 \<le> unat z \<longrightarrow> um (set_hptr p v (set_hsize p w h)) z = um h z"
    "\<forall>z. unat z < unat p \<or> unat p + 8 \<le> unat z \<longrightarrow> um (set_hptr p v h) z = um h z" for v w
    using um_set_other [OF S(1) [OF pD pD]] by simp_all
  have xsD: "y \<in> ?D" if "y \<in> set xs" for y using that set_xp by auto
  have ll: "links g (xs @ [p]) v" if g: "\<And>x. x \<in> ?D \<Longrightarrow> g x = (if x = p then v else hptr h x)" for g v
  proof (rule links_last)
    show "links (hptr h) (xs @ [p]) e" using l unfolding xp .
    show "p \<notin> set xs" by (rule px)
    show "g y = hptr h y" if "y \<in> set xs" for y using g [OF xsD [OF that]] that px by auto
    show "g p = v" using g [OF pD] by simp
  qed
  show ?thesis
  proof (cases "p + 8 * hsize h p = b")
    case False
    have j: "?h = set_hptr p b h" using False by (simp add: join_prev_def)
    have hp: "hptr ?h x = (if x = p then b else hptr h x)" and hs: "hsize ?h x = hsize h x" if "x \<in> ?D" for x
      unfolding j using S(1) [OF pD pD] S(1) [OF that that] S(2) [OF pD that] by (auto simp: hdr_simps)
    have "links (hptr ?h) (xs @ [p]) b" using hp by (rule ll)
    moreover have "links (hptr ?h) (b # rs) base" using r pb prs hp by (subst links_cong [where g = "hptr h"]) auto
    ultimately have "links (hptr ?h) ((xs @ [p]) @ b # rs) base" unfolding links_append by simp
    then have "links (hptr ?h) (base # ls @ b # rs) base" unfolding xp [symmetric] append_Cons .
    moreover have "region h b = region ?h b" using hs [OF bD] by (simp add: region_def hi_def)
    ultimately show ?thesis using blocks_cong [OF ok, of ?h] hs um(2) set_xp by (intro exI [of _ "ls @ b # rs"]) (auto simp: j)
  next
    case True
    have "ls \<noteq> []"
    proof
      assume "ls = []"
      then show False using True p D(4) N(3) by simp
    qed
    then obtain ls1 where ls: "ls = ls1 @ [p]" using p by (metis append_butlast_last_id last_ConsR)
    have xs: "xs = base # ls1" using xp ls by simp
    let ?v = "hsize h p + hsize h b" and ?n = "hptr h b"
    have j: "?h = set_hptr p ?n (set_hsize p ?v h)"
      using True S(1) [OF bD bD] S(1) [OF pD pD] S(2) [OF pD bD] by (simp add: join_prev_def Let_def hdr_simps)
    have hp: "hptr ?h x = (if x = p then ?n else hptr h x)" and hs: "hsize ?h x = (if x = p then ?v else hsize h x)" if "x \<in> ?D" for x
      unfolding j using S(1) [OF pD pD] S(1) [OF that that] S(2) [OF pD that] by (auto simp: hdr_simps)
    have ok1: "blocks_ok base h (ls1 @ p # b # rs) A" using ok ls by simp
    have "p \<in> set ls" using ls by simp
    then have t: "hi h p = unat b" using B(7) [of p] True by simp
    have np: "p \<noteq> base" "p \<notin> set ls1" "p \<notin> A" using blocks_ne [OF ok1] by auto
    have sz: "hsize ?h z = hsize h z" if "z \<in> insert base (set ls1 \<union> set rs \<union> A)" for z
      using hs [of z] that np prs ls by auto
    have psz: "hsize ?h p = hsize h p + hsize h b" using hs [OF pD] by simp
    have br: "brk ?h = brk h" by (simp add: j)
    note M = blocks_merge [OF ok1 t br psz sz]
    have "links (hptr ?h) (xs @ [p]) ?n" using hp by (rule ll)
    moreover have "?n = hd (rs @ [base])" using r by simp
    moreover have "links (hptr ?h) rs base" using r prs hp by (subst links_cong [where g = "hptr h"]) auto
    ultimately have "links (hptr ?h) ((xs @ [p]) @ rs) base" unfolding links_append by simp
    then have "links (hptr ?h) (base # ls1 @ p # rs) base" unfolding xs append_Cons append_assoc append_Nil .
    then show ?thesis using M br um(1) by (intro exI [of _ "ls1 @ p # rs"]) (auto simp: j ls)
  qed
qed

section \<open>free finds the place\<close>

lemma free_scan_below:
  assumes "links (hptr h) (x # xs) e" "sorted_wrt (<) (x # xs)" "\<And>y. y \<in> set (x # xs) \<Longrightarrow> y < b"
    "b < e \<or> e \<le> last (x # xs)"
  shows "free_scan b x h = Some (last (x # xs))"
  using assms
proof (induction xs arbitrary: x)
  case Nil
  then show ?case by (subst free_scan.simps) auto
next
  case (Cons y ys)
  have "free_scan b x h = free_scan b y h"
    using Cons.prems(1,2) Cons.prems(3) [of y] by (subst free_scan.simps) auto
  also have "\<dots> = Some (last (y # ys))" using Cons.prems by (intro Cons.IH) auto
  finally show ?case by simp
qed

lemma free_scan_above:
  assumes "links (hptr h) (x # xs) base" "sorted_wrt (<) (x # xs)" "\<And>y. y \<in> set (x # xs) \<Longrightarrow> b < y" "base < b"
  shows "free_scan b x h = free_scan b base h"
  using assms
proof (induction xs arbitrary: x)
  case Nil
  then show ?case using Nil.prems(3) [of x] by (subst free_scan.simps) auto
next
  case (Cons y ys)
  have "free_scan b x h = free_scan b y h"
    using Cons.prems(1,2) Cons.prems(3) [of x] by (subst free_scan.simps) auto
  also have "\<dots> = free_scan b base h" using Cons.prems by (intro Cons.IH) auto
  finally show ?case .
qed

lemma sorted_nodes:
  assumes "blocks_ok base h bs A"
  shows "sorted_wrt (<) (base # bs)"
proof -
  note D = blocks_okD [OF assms]
  note B = block_okD [OF D(7) D(3)]
  have "sorted_wrt (<) bs" using D(5) B(2)
    by (auto simp: word_less_nat_alt elim!: sorted_wrt_mono_rel [rotated]) (meson le_trans less_le_trans not_less_eq_eq not_le add_leE less_add_same_cancel1 zero_less_numeral)
  then show ?thesis using B(1) by (force simp: word_less_nat_alt)
qed

lemma free_scan_place:
  assumes "heap_ok base h (ls @ rs) A" "base < b" "\<And>x. x \<in> set ls \<Longrightarrow> x < b" "\<And>x. x \<in> set rs \<Longrightarrow> b < x"
  shows "free_scan b (freep h) h = Some (last (base # ls))"
proof -
  have ok: "blocks_ok base h (ls @ rs) A" and fp: "freep h \<in> set (base # ls) \<union> set rs"
    and l: "links (hptr h) ((base # ls) @ rs) base" using assms(1) by (auto simp: heap_ok_def)
  have s: "sorted_wrt (<) ((base # ls) @ rs)" using sorted_nodes [OF ok] by simp
  have below: "free_scan b x h = Some (last (base # ls))" if xin: "x \<in> set (base # ls)" for x
  proof -
    obtain us vs where u: "base # ls = us @ x # vs" using split_list [OF xin] by blast
    have 1: "links (hptr h) (x # vs) (hd (rs @ [base]))" using l unfolding links_append u by simp
    have 2: "sorted_wrt (<) (x # vs)" using s unfolding u by (simp add: sorted_wrt_append)
    have su: "set (x # vs) \<subseteq> set (base # ls)" unfolding u by auto
    have 3: "y < b" if "y \<in> set (x # vs)" for y using su that assms(2,3) by auto
    have la: "last (x # vs) = last (base # ls)" unfolding u by simp
    have 4: "b < hd (rs @ [base]) \<or> hd (rs @ [base]) \<le> last (x # vs)"
    proof (cases rs)
      case Nil
      have "base \<le> last (base # ls)" using s by (cases ls rule: rev_cases) (auto simp: sorted_wrt_append)
      then show ?thesis using Nil la by simp
    qed (use assms(4) in auto)
    show ?thesis using free_scan_below [OF 1 2 3 4] la by simp
  qed
  show ?thesis
  proof (cases "freep h \<in> set (base # ls)")
    case True
    then show ?thesis by (rule below)
  next
    case False
    then have "freep h \<in> set rs" using fp by blast
    then obtain us vs where u: "rs = us @ freep h # vs" using split_list by metis
    have 1: "links (hptr h) (freep h # vs) base" using l unfolding u links_append by simp
    have 2: "sorted_wrt (<) (freep h # vs)" using s unfolding u by (simp add: sorted_wrt_append)
    have 3: "b < y" if "y \<in> set (freep h # vs)" for y using that assms(4) u by auto
    show ?thesis using free_scan_above [OF 1 2 3 assms(2)] below [of base] by simp
  qed
qed

definition header :: "u32 \<Rightarrow> nat set" where
  "header x = {unat x..<unat x + 8}"

lemma free_spec:
  assumes ok: "heap_ok base h bs A" and b: "b \<in> A"
  shows "\<exists>h' bs'. free (b + 8) h = Some h' \<and> heap_ok base h' bs' (A - {b}) \<and> brk h' = brk h \<and>
    ufree h' bs' = ufree h bs \<union> region h b \<and> (\<exists>x\<in>set bs'. region h b \<subseteq> region h' x) \<and> (\<forall>z. unat z \<notin> ufree h' bs' \<union> header base \<longrightarrow> um h' z = um h z)"
proof -
  define ls rs where "ls = takeWhile (\<lambda>x. x < b) bs" and "rs = dropWhile (\<lambda>x. x < b) bs"
  have bs: "bs = ls @ rs" by (simp add: ls_def rs_def)
  have ok1: "blocks_ok base h (ls @ rs) A" and l: "links (hptr h) ((base # ls) @ rs) base" using ok bs by (auto simp: heap_ok_def)
  note D = blocks_okD [OF ok1]
  note B = block_okD [OF D(7) D(3)]
  have base: "base < b" using B(1) [of b] b by (simp add: word_less_nat_alt)
  have L: "x < b" if "x \<in> set ls" for x using that unfolding ls_def by (blast dest: set_takeWhileD)
  have R: "b < x" if xr: "x \<in> set rs" for x
  proof -
    have "sorted_wrt (<) bs" using sorted_nodes [OF ok1] bs by simp
    then have s: "sorted_wrt (<) rs" using bs by (simp add: sorted_wrt_append)
    obtain y ys where y: "rs = y # ys" using xr by (cases rs) auto
    then have "\<not> y < b" unfolding rs_def by (metis dropWhile_eq_Cons_conv)
    moreover have "y \<in> set bs" using y bs by simp
    then have "y \<noteq> b" using D(6) b bs by auto
    ultimately have "b < y" by simp
    then show ?thesis using xr s y by auto
  qed
  let ?p = "last (base # ls)"
  note I = blocks_insert [OF ok1 b L R]
  have l1: "links (hptr h) (base # ls) (hd (rs @ [base]))" and l2: "links (hptr h) rs base" using l unfolding links_append by auto
  let ?h1 = "join_next b ?p h" and ?h2 = "join_prev b ?p (join_next b ?p h)"
  obtain rs' where n: "blocks_ok base ?h1 (ls @ b # rs') (A - {b})" "links (hptr ?h1) (base # ls) (hd (rs @ [base]))"
    "links (hptr ?h1) (b # rs') base" "ufree ?h1 (ls @ b # rs') = ufree h (ls @ b # rs)" "region h b \<subseteq> region ?h1 b" "brk ?h1 = brk h"
    "\<forall>z. unat z < unat b \<or> unat b + 8 \<le> unat z \<longrightarrow> um ?h1 z = um h z"
    using join_next_spec [OF I(1) l1 l2 refl] by blast
  obtain bs' where q: "blocks_ok base ?h2 bs' (A - {b})" "links (hptr ?h2) (base # bs') base" "?p \<in> set (base # bs')"
    "ufree ?h2 bs' = ufree ?h1 (ls @ b # rs')" "\<exists>x\<in>set bs'. region ?h1 b \<subseteq> region ?h2 x" "brk ?h2 = brk ?h1"
    "\<forall>z. unat z < unat ?p \<or> unat ?p + 8 \<le> unat z \<longrightarrow> um ?h2 z = um ?h1 z"
    using join_prev_spec [OF n(1,2,3) refl] by blast
  let ?h' = "?h2\<lparr>freep := ?p\<rparr>"
  have fr: "free (b + 8) h = Some ?h'"
    using free_scan_place [of base h ls rs A b] ok bs base L R by (simp add: free_def Let_def)
  have uf: "ufree ?h' bs' = ufree h bs \<union> region h b" using q(4) n(4) I(2) bs by (simp add: ufree_def region_def hi_def)
  have ok': "heap_ok base ?h' bs' (A - {b})"
    using heap_freep [of base "?h2\<lparr>freep := ?p\<rparr>" bs' "A - {b}" ?p] q(1-3) blocks_cong [OF q(1), of ?h'] by (simp add: heap_ok_def)
  have um: "um ?h' z = um h z" if z: "unat z \<notin> ufree ?h' bs' \<union> header base" for z
  proof -
    have "header b \<subseteq> region h b" using B(2) [of b] b by (auto simp: header_def region_def)
    moreover have "header ?p \<subseteq> ufree h bs \<union> header base"
    proof (cases "ls = []")
      case False
      then have "?p \<in> set ls" by simp
      then show ?thesis using B(2) [of ?p] bs by (fastforce simp: header_def ufree_def region_def)
    qed simp
    ultimately have "unat z \<notin> header b" "unat z \<notin> header ?p" using z uf by auto
    then have "um ?h2 z = um ?h1 z" "um ?h1 z = um h z" using n(7) q(7) by (auto simp: header_def simp del: last.simps)
    then show ?thesis by simp
  qed
  have "\<exists>x\<in>set bs'. region h b \<subseteq> region ?h' x" using n(5) q(5) by (auto simp: region_def hi_def)
  then show ?thesis using fr ok' uf um n(6) q(6) by (intro exI [of _ ?h'] exI [of _ bs']) simp
qed

section \<open>Taking a block\<close>

lemma links_pred:
  assumes "links f (xs @ q # ys) e" "distinct (xs @ q # ys)" "q \<noteq> e" "x \<in> set (xs @ q # ys)" "f x = q"
  shows "xs \<noteq> [] \<and> x = last xs"
proof -
  obtain us vs where u: "xs @ q # ys = us @ x # vs" using split_list [OF assms(4)] by blast
  have "f x = hd (vs @ [e])" using assms(1) unfolding u links_append by simp
  then have "vs \<noteq> []" "hd vs = q" using assms(3,5) by (auto simp: hd_append)
  then obtain ws where "vs = q # ws" by (cases vs) auto
  then have v: "xs @ q # ys = (us @ [x]) @ q # ws" using u by simp
  have "q \<notin> set xs" "q \<notin> set ys" using assms(2) by auto
  then have "xs = us @ [x]" using v append_Cons_eq_iff [of q xs ys "us @ [x]" ws] by blast
  then show ?thesis by simp
qed

lemma blocks_distinct: "blocks_ok base h bs A \<Longrightarrow> distinct (base # bs)"
  using sorted_nodes strict_sorted_iff by blast

lemma blocks_remove:
  assumes "blocks_ok base h (ls @ q # rs) A"
  shows "blocks_ok base h (ls @ rs) (insert q A)" "ufree h (ls @ rs) = ufree h (ls @ q # rs) - region h q" 
    "region h q \<subseteq> ufree h (ls @ q # rs)"
proof -
  note D = blocks_okD [OF assms] and N = blocks_ne [OF assms]
  have ap: "apart h q x" if "x \<in> set (ls @ rs) \<union> A" for x
    using blocks_apart [OF assms, of q x] that N by auto
  have "\<forall>a\<in>insert q A. \<forall>x\<in>set (ls @ rs) \<union> insert q A. x \<noteq> a \<longrightarrow> apart h a x"
    using ap D(8) by (auto simp: apart_def)
  moreover have "\<forall>x\<in>set (ls @ rs) \<union> insert q A. block_ok base h x" using D(7) by auto
  moreover have "set (ls @ rs) \<inter> insert q A = {}" using D(6) N by auto
  ultimately show "blocks_ok base h (ls @ rs) (insert q A)" using assms D(5) by (auto simp: blocks_ok_def sorted_wrt_append)
  have "region h x \<inter> region h q = {}" if "x \<in> set (ls @ rs)" for x
    using ap [of x] that by (auto simp: apart_def region_def)
  then show "ufree h (ls @ rs) = ufree h (ls @ q # rs) - region h q" by (auto simp: ufree_def)
  show "region h q \<subseteq> ufree h (ls @ q # rs)" by (auto simp: ufree_def)
qed

text \<open>The end of a free block becomes a block of its own.\<close>

lemma blocks_split:
  assumes ok: "blocks_ok base h (ls @ q # rs) A" and b: "brk h' = brk h"
    and q: "unat q + 8 \<le> unat q'" "hi h' q = unat q'" "hi h' q' = hi h q" "unat q' + 8 \<le> hi h q"
    and z: "\<And>z. z \<in> insert base (set ls \<union> set rs \<union> A) \<Longrightarrow> hsize h' z = hsize h z"
  shows "blocks_ok base h' (ls @ q # rs) (insert q' A)" "ufree h' (ls @ q # rs) = ufree h (ls @ q # rs) - region h' q'"
    "region h' q' \<subseteq> ufree h (ls @ q # rs)"
proof -
  note D = blocks_okD [OF ok] and N = blocks_ne [OF ok]
  note B = block_okD [OF D(7) D(3)]
  have hz: "hi h' z = hi h z" if "z \<in> set ls \<union> set rs \<union> A" for z using z [of z] that by (simp add: hi_def)
  have ap: "apart h q x" if "x \<in> set ls \<union> set rs \<union> A" for x using blocks_apart [OF ok, of q x] that N by auto
  have ap': "apart h' q' x \<and> x \<noteq> q'" if x: "x \<in> set ls \<union> set rs \<union> A" for x
    using ap [OF x] hz [OF x] q B(2) [of x] x by (auto simp: apart_def)
  have apq: "apart h' a q" if "a \<in> A" for a using ap [of a] that hz [of a] q by (auto simp: apart_def)
  have s: "sorted_wrt (\<lambda>x y. hi h x \<le> unat y) (ls @ q # rs)" by (rule D(5))
  have "\<forall>u\<in>set ls. \<forall>v\<in>set rs. hi h u \<le> unat v" "\<forall>u\<in>set ls. hi h u \<le> unat q" "\<forall>v\<in>set rs. hi h q \<le> unat v"
    "sorted_wrt (\<lambda>x y. hi h x \<le> unat y) ls" "sorted_wrt (\<lambda>x y. hi h x \<le> unat y) rs"
    using s by (auto simp: sorted_wrt_append)
  then have s': "sorted_wrt (\<lambda>x y. hi h' x \<le> unat y) (ls @ q # rs)"
    using hz q by (auto simp: sorted_wrt_append elim!: sorted_wrt_mono_rel [rotated])
  have bq: "block_ok base h' q" "block_ok base h' q'"
    using q b B(1) [of q] B(6) [of q] by (auto simp: block_ok_def hi_def)
  have bk: "\<forall>u\<in>set (ls @ q # rs) \<union> insert q' A. block_ok base h' u"
    using bq D(7) z hz b by (auto simp: block_ok_def)
  have "apart h' a x" if ax: "a \<in> insert q' A" "x \<in> set (ls @ q # rs) \<union> insert q' A" "x \<noteq> a" for a x
  proof (cases "a = q'")
    case True
    then show ?thesis using ap' [of x] ax q by (cases "x = q") (auto simp: apart_def)
  next
    case False
    then have a: "a \<in> A" using ax by simp
    consider "x = q'" | "x = q" | "x \<in> set ls \<union> set rs \<union> A" using ax by auto
    then show ?thesis
    proof cases
      case 1
      then show ?thesis using ap' [of a] a by (auto simp: apart_def)
    next
      case 2
      then show ?thesis using apq [OF a] by simp
    next
      case 3
      then show ?thesis using D(8) [OF a, of x] ax(3) hz [of a] hz [of x] a by (auto simp: apart_def)
    qed
  qed
  moreover have "set (ls @ q # rs) \<inter> insert q' A = {}" using D(6) ap' q(1) by auto
  ultimately show "blocks_ok base h' (ls @ q # rs) (insert q' A)" using ok b z s' bk by (simp add: blocks_ok_def)
  have r: "region h' q \<union> region h' q' = region h q" "region h' q \<inter> region h' q' = {}" using q by (auto simp: region_def)
  have x1: "region h' x = region h x" and x2: "region h x \<inter> region h q = {}" if "x \<in> set ls \<union> set rs" for x
    using ap [of x] hz [of x] that by (auto simp: apart_def region_def)
  have "region h' q' \<subseteq> region h q" using r by blast
  then have x3: "region h x - region h' q' = region h x" if "x \<in> set ls \<union> set rs" for x using x2 [OF that] by blast
  have "region h q - region h' q' = region h' q" using r by blast
  then show "ufree h' (ls @ q # rs) = ufree h (ls @ q # rs) - region h' q'" using x1 x3 by (simp add: ufree_def Un_Diff UN_extend_simps(6))
  show "region h' q' \<subseteq> ufree h (ls @ q # rs)" using r by (auto simp: ufree_def)
qed

text \<open>What \<open>malloc\<close> promises of a block of \<open>n\<close> units that it takes from the free memory \<open>U\<close>.\<close>

definition took :: "u32 \<Rightarrow> u32 \<Rightarrow> uheap \<Rightarrow> nat set \<Rightarrow> u32 set \<Rightarrow> u32 \<Rightarrow> uheap \<Rightarrow> bool" where
  "took base n h U A r h' \<longleftrightarrow> 8 \<le> unat r \<and> r - 8 \<notin> A \<and> hsize h' (r - 8) = n \<and> region h' (r - 8) \<subseteq> U \<and>
     (\<forall>z. unat z \<notin> U \<union> header base \<longrightarrow> um h' z = um h z) \<and>
     (\<exists>bs. heap_ok base h' bs (insert (r - 8) A) \<and> ufree h' bs = U - region h' (r - 8))"

lemma region_freep [simp]: "region (h\<lparr>freep := p\<rparr>) = region h"
  by (simp add: region_def hi_def fun_eq_iff)

lemma ufree_freep [simp]: "ufree (h\<lparr>freep := p\<rparr>) = ufree h"
  by (simp add: ufree_def fun_eq_iff)

lemma header_free: 
  assumes "blocks_ok base h bs A" "x \<in> set (base # bs)" "unat z \<notin> ufree h bs \<union> header base"
  shows "unat z < unat x \<or> unat x + 8 \<le> unat z"
proof -
  note D = blocks_okD [OF assms(1)]
  note B = block_okD [OF D(7) D(3)]
  have "header x \<subseteq> ufree h bs \<union> header base" using assms(2) B(2) [of x] by (fastforce simp: header_def ufree_def region_def)
  then have "unat z \<notin> header x" using assms(3) by blast
  then show ?thesis by (auto simp: header_def)
qed

lemma take_exact:
  assumes hok: "heap_ok base h (ls @ q # rs) A" and p: "prev \<in> set (base # ls @ q # rs)" "hptr h prev = q"
  shows "took base (hsize h q) h (ufree h (ls @ q # rs)) A (q + 8) ((set_hptr prev (hptr h q) h)\<lparr>freep := prev\<rparr>)"
proof -
  have ok: "blocks_ok base h (ls @ q # rs) A" and l: "links (hptr h) ((base # ls) @ q # rs) base" using hok by (simp_all add: heap_ok_def)
  let ?h = "set_hptr prev (hptr h q) h" and ?D = "insert base (set (ls @ q # rs) \<union> A)"
  note D = blocks_okD [OF ok] and N = blocks_ne [OF ok] and S = blocks_hsep [OF ok]
  note B = block_okD [OF D(7) D(3)]
  have d: "distinct ((base # ls) @ q # rs)" using blocks_distinct [OF ok] by simp
  have last: "prev = last (base # ls)" using links_pred [OF l d _ _ p(2)] p(1) N(3) by auto
  define xs where "xs = butlast (base # ls)"
  have xp: "base # ls = xs @ [prev]" unfolding xs_def last by (simp only: append_butlast_last_id list.distinct not_False_eq_True)
  have px: "prev \<notin> set xs" "prev \<noteq> q" "prev \<notin> set rs" and sx: "set (base # ls) = insert prev (set xs)" using d unfolding xp by auto
  have pD: "prev \<in> ?D" using p(1) by auto
  have hp: "hptr ?h x = (if x = prev then hptr h q else hptr h x)" and hs: "hsize ?h x = hsize h x" if "x \<in> ?D" for x
    using S(1) [OF pD pD] S(1) [OF that that] S(2) [OF pD that] by (auto simp: hdr_simps)
  have l1: "links (hptr h) (xs @ [prev]) q" and l2: "links (hptr h) (q # rs) base" using l unfolding xp links_append by simp_all
  have xsD: "y \<in> ?D" if "y \<in> set xs" for y using that sx by auto
  have "links (hptr ?h) (xs @ [prev]) (hptr h q)"
  proof (rule links_last [OF l1 px(1)])
    show "hptr ?h y = hptr h y" if "y \<in> set xs" for y using hp [OF xsD [OF that]] that px(1) by auto
    show "hptr ?h prev = hptr h q" using hp [OF pD] by simp
  qed
  moreover have "links (hptr ?h) rs base" using l2 px(3) hp by (subst links_cong [where g = "hptr h"]) auto
  moreover have "hptr h q = hd (rs @ [base])" using l2 by simp
  ultimately have "links (hptr ?h) ((xs @ [prev]) @ rs) base" unfolding links_append by simp
  then have lk: "links (hptr ?h) (base # ls @ rs) base" unfolding xp [symmetric] append_Cons .
  note R = blocks_remove [OF ok]
  have hs': "hsize ?h x = hsize h x" if "x \<in> insert base (set (ls @ rs) \<union> insert q A)" for x using hs [of x] that by auto
  note C = blocks_cong [OF R(1), of ?h, OF _ hs', simplified]
  have rq: "region ?h q = region h q" using hs [of q] by (simp add: region_def hi_def)
  have "heap_ok base (?h\<lparr>freep := prev\<rparr>) (ls @ rs) (insert q A)"
    using blocks_cong(1) [OF C(1), of "?h\<lparr>freep := prev\<rparr>"] lk last by (auto simp: heap_ok_def)
  moreover have "ufree (?h\<lparr>freep := prev\<rparr>) (ls @ rs) = ufree h (ls @ q # rs) - region ?h q" using C(2) R(2) rq by simp
  moreover have "um ?h z = um h z" if "unat z \<notin> ufree h (ls @ q # rs) \<union> header base" for z
    using um_set_other(1) [OF S(1) [OF pD pD] header_free [OF ok _ that]] p(1) by simp
  moreover have "unat (q + 8) = unat q + 8" using B(2,3) [of q] by (subst unat_add_u32) simp_all
  ultimately show ?thesis using hs [of q] N(7) rq R(3) unfolding took_def
    by (auto intro!: exI [of _ "ls @ rs"])
qed

lemma take_tail:
  fixes n :: u32
  assumes hok: "heap_ok base h (ls @ q # rs) A" and p: "prev \<in> set (base # ls @ q # rs)" and n: "n \<noteq> 0" "n < hsize h q"
    and q': "q' = q + 8 * (hsize h q - n)"
  shows "took base n h (ufree h (ls @ q # rs)) A (q' + 8) ((set_hsize q' n (set_hsize q (hsize h q - n) h))\<lparr>freep := prev\<rparr>)"
proof -
  have ok: "blocks_ok base h (ls @ q # rs) A" and l: "links (hptr h) (base # ls @ q # rs) base" using hok by (simp_all add: heap_ok_def)
  let ?k = "hsize h q - n" and ?D = "insert base (set (ls @ q # rs) \<union> A)"
  let ?h1 = "set_hsize q ?k h" and ?h = "set_hsize q' n (set_hsize q (hsize h q - n) h)"
  note D = blocks_okD [OF ok] and N = blocks_ne [OF ok] and S = blocks_hsep [OF ok]
  note B = block_okD [OF D(7) D(3)]
  have qD: "q \<in> ?D" by simp
  have k: "unat ?k = unat (hsize h q) - unat n" "0 < unat n" "unat n < unat (hsize h q)"
    using n by (auto simp: unat_sub_u32 word_less_nat_alt unat_gt_0)
  have hq: "hi h q = unat q + 8 * unat (hsize h q)" "hi h q \<le> 2147483648" using B(3) [of q] by (simp_all add: hi_def)
  have uq': "unat q' = unat q + 8 * unat ?k" unfolding q' using hq k by (intro unat_8_mult) simp
  then have e: "unat q + 8 \<le> unat q'" "unat q' + 8 \<le> hi h q" "unat q' + 8 * unat n = hi h q" using k hq by simp_all
  have sep: "hsep q' x" if "x \<in> ?D" for x
  proof (cases "x = q \<or> x = base")
    case True
    then show ?thesis using e B(1) [of q] by (auto simp: hsep_def)
  next
    case False
    then have x: "x \<in> set (ls @ q # rs) \<union> A" using that by auto
    then have "apart h q x" using blocks_apart [OF ok, of q x] False by auto
    then show ?thesis using e B(2) [OF x] by (auto simp: apart_def hsep_def)
  qed
  have hq': "hb q'" using e hq by simp
  have hp: "hptr ?h x = hptr h x" and hs: "hsize ?h x = (if x = q then ?k else hsize h x)" if "x \<in> ?D" for x
    using S(1) [OF that that] S(1) [OF qD qD] S(2) [OF qD that] sep [OF that] hq'
    by (auto simp: hdr_simps hsep_def)
  have hsq': "hsize ?h q' = n" using hq' by (simp add: hsize_set_hsize)
  have hi: "hi ?h q = unat q'" "hi ?h q' = hi h q" using hs [OF qD] hsq' uq' e by (simp_all add: hi_def)
  have sz: "hsize ?h z = hsize h z" if "z \<in> insert base (set ls \<union> set rs \<union> A)" for z using hs [of z] that N by auto
  note P = blocks_split [OF ok _ e(1) hi e(2) sz, simplified]
  have "links (hptr ?h) (base # ls @ q # rs) base" using l hp by (subst links_cong [where g = "hptr h"]) auto
  then have "heap_ok base (?h\<lparr>freep := prev\<rparr>) (ls @ q # rs) (insert q' A)"
    using blocks_cong(1) [OF P(1), of "?h\<lparr>freep := prev\<rparr>"] p by (auto simp: heap_ok_def)
  moreover have "ufree (?h\<lparr>freep := prev\<rparr>) (ls @ q # rs) = ufree h (ls @ q # rs) - region ?h q'" using P(2) by simp
  moreover have "um ?h z = um h z" if z: "unat z \<notin> ufree h (ls @ q # rs) \<union> header base" for z
  proof -
    have "header q' \<subseteq> region ?h q'" using hi e by (auto simp: header_def region_def)
    then have "unat z \<notin> header q'" using P(3) z by blast
    then show ?thesis using um_set_other(2) [OF S(1) [OF qD qD] header_free [OF ok _ z]] um_set_other(2) [OF hq']
      by (auto simp: header_def)
  qed
  moreover have "unat (q' + 8) = unat q' + 8" using hq e by (subst unat_add_u32) simp_all
  moreover have "q' \<notin> A" using sep [of q'] by (auto simp: hsep_def)
  ultimately show ?thesis using hsq' P(3) unfolding took_def by (auto intro!: exI [of _ "ls @ q # rs"])
qed

section \<open>The search of malloc\<close>

lemma malloc_scan:
  assumes "links (hptr h) (p # ps) e" "last (p # ps) = freep h" "freep h \<notin> set (butlast (p # ps))" "hptr h prev = p"
  shows "if \<exists>x\<in>set (p # ps). n \<le> hsize h x
    then \<exists>prev' q. malloc_loop sbrk n prev p h = Some (take_block n prev' q h) \<and> n \<le> hsize h q \<and>
      q \<in> set (p # ps) \<and> prev' \<in> insert prev (set (p # ps)) \<and> hptr h prev' = q
    else malloc_loop sbrk n prev p h = Option.bind (morecore sbrk n h) (\<lambda>(p, h).
      if p = 0 then Some (0, h) else malloc_loop sbrk n p (hptr h p) h)"
  using assms
proof (induction ps arbitrary: p prev)
  case Nil
  then show ?case using malloc_loop.simps [of sbrk n prev p h] by (cases "n \<le> hsize h p") auto
next
  case (Cons y ys)
  have y: "hptr h p = y" and np: "p \<noteq> freep h" using Cons.prems(1,3) by auto
  show ?case
  proof (cases "n \<le> hsize h p")
    case True
    then show ?thesis using Cons.prems(4) malloc_loop.simps [of sbrk n prev p h] by auto
  next
    case False
    then have e: "malloc_loop sbrk n prev p h = malloc_loop sbrk n p y h" using np y by (subst malloc_loop.simps) simp
    have "if \<exists>x\<in>set (y # ys). n \<le> hsize h x
      then \<exists>prev' q. malloc_loop sbrk n p y h = Some (take_block n prev' q h) \<and> n \<le> hsize h q \<and>
        q \<in> set (y # ys) \<and> prev' \<in> insert p (set (y # ys)) \<and> hptr h prev' = q
      else malloc_loop sbrk n p y h = Option.bind (morecore sbrk n h) (\<lambda>(p, h).
        if p = 0 then Some (0, h) else malloc_loop sbrk n p (hptr h p) h)"
      using Cons.prems y by (intro Cons.IH) auto
    moreover have "(\<exists>x\<in>set (p # y # ys). n \<le> hsize h x) = (\<exists>x\<in>set (y # ys). n \<le> hsize h x)" using False by simp
    ultimately show ?thesis unfolding e by (auto split: if_splits)
  qed
qed

text \<open>The list as \<open>malloc\<close> goes round it: from the node after \<open>freep\<close> to \<open>freep\<close>.\<close>

lemma heap_round:
  assumes "heap_ok base h bs A"
  obtains p ps where "links (hptr h) (p # ps) (hptr h (freep h))" "last (p # ps) = freep h" "freep h \<notin> set (butlast (p # ps))"
    "hptr h (freep h) = p" "set (p # ps) = set (base # bs)"
proof -
  have ok: "blocks_ok base h bs A" and f: "freep h \<in> set (base # bs)" and l: "links (hptr h) (base # bs) base"
    using assms by (auto simp: heap_ok_def)
  obtain us vs where u: "base # bs = us @ freep h # vs" using split_list [OF f] by blast
  have d: "distinct (us @ freep h # vs)" using blocks_distinct [OF ok] u by metis
  have b: "base = hd (us @ [freep h])" using u by (cases us) auto
  have l1: "links (hptr h) us (freep h)" "hptr h (freep h) = hd (vs @ [base])" "links (hptr h) vs base"
    using l unfolding u links_append by simp_all
  let ?qs = "vs @ us @ [freep h]"
  have "links (hptr h) ?qs (hptr h (freep h))" using l1 b by (cases us) (auto simp: links_append hd_append)
  moreover have "hd ?qs = hptr h (freep h)" using l1(2) b by (cases vs) auto
  moreover have "set ?qs = set (base # bs)" unfolding u by auto
  moreover have "butlast ?qs = vs @ us" by (simp add: butlast_append)
  moreover obtain p ps where "?qs = p # ps" by (cases ?qs) auto
  moreover have "freep h \<notin> set (vs @ us)" using d by auto
  ultimately show ?thesis using that [of p ps] by (metis last_snoc append_assoc list.sel(1))
qed

lemma take_spec:
  assumes ok: "heap_ok base h bs A" and n: "n \<noteq> 0" "n \<le> hsize h q" and q: "q \<in> set (base # bs)"
    and p: "prev \<in> set (base # bs)" "hptr h prev = q"
  shows "\<exists>r h'. take_block n prev q h = (r, h') \<and> brk h' = brk h \<and> took base n h (ufree h bs) A r h'"
proof -
  have ok1: "blocks_ok base h bs A" using ok by (simp add: heap_ok_def)
  have "q \<noteq> base" using n blocks_okD(4) [OF ok1] by auto
  then have "q \<in> set bs" using q by auto
  then obtain ls rs where bs: "bs = ls @ q # rs" using split_list by metis
  show ?thesis
  proof (cases "hsize h q = n")
    case True
    then show ?thesis using take_exact [of base h ls q rs A prev] ok p bs by (simp add: take_block_def)
  next
    case False
    have hb: "hb q" using blocks_hsep(1) [OF ok1, of q q] q by auto
    then have "hsize (set_hsize q v h) q = v" for v by (simp add: hsize_set_hsize)
    then show ?thesis using take_tail [of base h ls q rs A prev n _] ok p bs n False by (simp add: take_block_def Let_def)
  qed
qed

section \<open>Growing the heap\<close>

lemma pos_cint:
  fixes n :: cint
  shows "0 <s n \<longleftrightarrow> 0 < unat n \<and> unat n < 2147483648"
proof -
  have u: "0 \<le> uint n" "uint n < 4294967296" using uint_bounded [of n] by simp_all
  have "sint n = (uint n + 2147483648) mod 4294967296 - 2147483648"
    by (simp add: sint_uint signed_take_bit_eq_take_bit_shift take_bit_eq_mod)
  also have "\<dots> = (if uint n < 2147483648 then uint n else uint n - 4294967296)"
  proof (cases "uint n < 2147483648")
    case True
    then show ?thesis using u by (simp add: mod_pos_pos_trivial)
  next
    case False
    have "(uint n + 2147483648) mod 4294967296 = (uint n + 2147483648 - 4294967296) mod 4294967296" by (rule minus_mod_self2 [symmetric])
    also have "\<dots> = uint n + 2147483648 - 4294967296" using u False by (intro mod_pos_pos_trivial) simp_all
    finally show ?thesis using False by simp
  qed
  finally have "sint n = (if uint n < 2147483648 then uint n else uint n - 4294967296)" .
  moreover obtain k where "unat n = k" "uint n = int k" by simp
  ultimately show ?thesis using u by (auto simp: word_sless_alt split: if_splits)
qed

lemma unat_KERNBASE [simp]: "unat KERNBASE = 2147483648"
  by (simp add: KERNBASE_def)

locale heap_source =
  fixes sbrk :: "cint \<Rightarrow> uheap \<Rightarrow> u32 \<times> uheap"
  assumes sbrk_law: "0 <s n \<Longrightarrow> brk h \<le> KERNBASE \<Longrightarrow> sbrk n h = (r, h') \<Longrightarrow>
    r = -1 \<and> h' = h \<or> r = brk h \<and> h' = h\<lparr>brk := brk h + n\<rparr> \<and> brk h \<le> brk h + n \<and> brk h + n \<le> KERNBASE"

interpretation proc_break: heap_source "usbrk grow" for grow
proof
  fix n :: cint and h r h'
  assume a: "0 <s n" "brk h \<le> KERNBASE" "usbrk grow n h = (r, h')"
  then have "unat (brk h + n) = unat (brk h) + unat n" by (intro unat_add_u32) (simp add: pos_cint word_le_nat_alt)
  then have "brk h \<le> brk h + n" by (simp add: word_le_nat_alt)
  then show "r = -1 \<and> h' = h \<or> r = brk h \<and> h' = h\<lparr>brk := brk h + n\<rparr> \<and> brk h \<le> brk h + n \<and> brk h + n \<le> KERNBASE"
    using a(1,3) by (auto simp: usbrk_def Let_def not_le split: if_splits)
qed

text \<open>A new block at the end of the heap, as it is when \<open>morecore\<close> frees it.\<close>

lemma heap_grow:
  assumes hok: "heap_ok base h bs A" and h': "h' = set_hsize (brk h) nu (h\<lparr>brk := brk h + nu * 8\<rparr>)"
    and nu: "nu \<noteq> 0" "unat (brk h) + 8 * unat nu \<le> 2147483648"
  shows "heap_ok base h' bs (insert (brk h) A)" "brk h \<notin> A" "ufree h' bs = ufree h bs"
    "region h' (brk h) = {unat (brk h)..<unat (brk h')}" "hsize h' (brk h) = nu" "unat (brk h') = unat (brk h) + 8 * unat nu"
    "\<And>z. unat z \<notin> region h' (brk h) \<Longrightarrow> um h' z = um h z"
proof -
  have ok: "blocks_ok base h bs A" and l: "links (hptr h) (base # bs) base" and f: "freep h \<in> set (base # bs)" using hok by (simp_all add: heap_ok_def)
  note D = blocks_okD [OF ok] and S = blocks_hsep [OF ok]
  note B = block_okD [OF D(7) D(3)]
  let ?p = "brk h"
  have n0: "0 < unat nu" using nu(1) by (simp add: unat_gt_0)
  show b': "unat (brk h') = unat (brk h) + 8 * unat nu" using nu(2) unat_8_mult [of "brk h" nu] by (simp add: h' mult.commute)
  have hp: "hb ?p" using nu n0 by simp
  have sep: "hsep ?p x" if "x \<in> insert base (set bs \<union> A)" for x
    using that D(2) B(2,6) [of x] by (auto simp: hsep_def)
  have sz: "hsize h' x = hsize h x" and pt: "hptr h' x = hptr h x" if "x \<in> insert base (set bs \<union> A)" for x
    using sep [OF that] S(1) [OF that that] hp by (auto simp: h' hdr_simps hsep_def)
  show ps: "hsize h' ?p = nu" using hp by (simp add: h' hsize_set_hsize)
  then have hip: "hi h' ?p = unat (brk h')" using b' by (simp add: hi_def)
  show "region h' ?p = {unat ?p..<unat (brk h')}" by (simp add: region_def hip)
  show pA: "?p \<notin> A" using sep [of ?p] by (auto simp: hsep_def)
  have hs: "hi h' x = hi h x" if "x \<in> set bs \<union> A" for x using sz [of x] that by (simp add: hi_def)
  have low: "hi h' x \<le> unat ?p" "x \<noteq> ?p" if "x \<in> set bs \<union> A" for x
    using B(6) [OF that] hs [OF that] sep [of x] that by (auto simp: hsep_def)
  have sort: "sorted_wrt (\<lambda>x y. hi h' x \<le> unat y) bs" using D(5) hs by (auto elim!: sorted_wrt_mono_rel [rotated])
  have blk: "block_ok base h' x" if "x \<in> set bs \<union> A" for x
    using D(7) [OF that] sz [of x] hs [OF that] that b' by (auto simp: block_ok_def)
  moreover have "block_ok base h' ?p" using nu(1) ps hip D(2) by (simp add: block_ok_def)
  moreover have "apart h' a x" if "a \<in> insert ?p A" "x \<in> set bs \<union> insert ?p A" "x \<noteq> a" for a x
    using that low(1) [of a] low(1) [of x] D(8) [of a x] hs [of a] hs [of x] by (auto simp: apart_def)
  moreover have "set bs \<inter> insert ?p A = {}" using D(6) low(2) by auto
  moreover have "brk h' \<le> KERNBASE" using b' nu(2) by (simp add: word_le_nat_alt)
  ultimately have "blocks_ok base h' bs (insert ?p A)"
    using D(1,2,4) sort sz [of base] b' by (auto simp: blocks_ok_def)
  moreover have "links (hptr h') (base # bs) base" using l pt by (subst links_cong [where g = "hptr h"]) auto
  ultimately show "heap_ok base h' bs (insert ?p A)" using f by (simp add: heap_ok_def h')
  show "ufree h' bs = ufree h bs" using hs by (simp add: ufree_def region_def)
  show "um h' z = um h z" if "unat z \<notin> region h' ?p" for z
  proof -
    have "header ?p \<subseteq> region h' ?p" using n0 b' hip by (auto simp: header_def region_def)
    then have "unat z \<notin> header ?p" using that by blast
    then show ?thesis using um_set_other(2) [OF hp, of z nu "h\<lparr>brk := brk h + nu * 8\<rparr>"] by (auto simp: header_def h')
  qed
qed

context heap_source
begin

lemma morecore_spec:
  assumes ok: "heap_ok base h bs A" and n: "n \<noteq> 0" "8 * unat n < 2147483648"
  shows "morecore sbrk n h = Some (0, h) \<and> fst (sbrk ((if n < 4096 then 4096 else n) * 8) h) = -1 \<or>
    (\<exists>h' bs'. morecore sbrk n h = Some (freep h', h') \<and> heap_ok base h' bs' A \<and> (\<exists>x\<in>set bs'. n \<le> hsize h' x) \<and>
      unat (brk h) \<le> unat (brk h') \<and> ufree h' bs' = ufree h bs \<union> {unat (brk h)..<unat (brk h')} \<and>
      (\<forall>z. unat z \<notin> ufree h' bs' \<union> header base \<longrightarrow> um h' z = um h z))"
proof -
  define nu where "nu = (if n < 4096 then 4096 else n)"
  have nu: "nu \<noteq> 0" "8 * unat nu < 2147483648" "n \<le> nu" using n by (auto simp: nu_def)
  have "unat (nu * 8) = unat nu * 8" using nu(2) by (subst unat_mult_lem [THEN iffD1]) simp_all
  then have pos: "0 <s nu * 8" using nu by (simp add: pos_cint unat_gt_0)
  have "brk h \<le> KERNBASE" using ok by (simp add: heap_ok_def blocks_ok_def)
  obtain p h1 where s: "sbrk (nu * 8) h = (p, h1)" by fastforce
  from sbrk_law [OF pos \<open>brk h \<le> KERNBASE\<close> s]
  show ?thesis
  proof
    assume "p = -1 \<and> h1 = h"
    then show ?thesis using s by (simp add: morecore_def nu_def [symmetric])
  next
    assume a: "p = brk h \<and> h1 = h\<lparr>brk := brk h + nu * 8\<rparr> \<and> brk h \<le> brk h + nu * 8 \<and> brk h + nu * 8 \<le> KERNBASE"
    let ?h2 = "set_hsize (brk h) nu (h\<lparr>brk := brk h + nu * 8\<rparr>)"
    have "unat (brk h) \<le> 2147483648" using \<open>brk h \<le> KERNBASE\<close> by (simp add: word_le_nat_alt)
    then have "unat (brk h + nu * 8) = unat (brk h) + 8 * unat nu" using nu(2) unat_8_mult [of "brk h" nu] by (simp add: mult.commute)
    moreover have "unat (brk h + nu * 8) \<le> unat KERNBASE" using a unfolding word_le_nat_alt by blast
    ultimately have "unat (brk h) + 8 * unat nu \<le> 2147483648" by simp
    note G = heap_grow [OF ok refl nu(1) this]
    obtain h3 bs3 where f: "free (brk h + 8) ?h2 = Some h3" "heap_ok base h3 bs3 (insert (brk h) A - {brk h})" "brk h3 = brk ?h2"
      "ufree h3 bs3 = ufree ?h2 bs \<union> region ?h2 (brk h)" "\<exists>x\<in>set bs3. region ?h2 (brk h) \<subseteq> region h3 x"
      "\<forall>z. unat z \<notin> ufree h3 bs3 \<union> header base \<longrightarrow> um h3 z = um ?h2 z"
      using free_spec [OF G(1) insertI1] by blast
    have ok3: "heap_ok base h3 bs3 A" using f(2) G(2) by simp
    obtain x where x: "x \<in> set bs3" "region ?h2 (brk h) \<subseteq> region h3 x" using f(5) by blast
    have "card (region ?h2 (brk h)) \<le> card (region h3 x)" using x(2) by (intro card_mono) (simp_all add: region_def)
    then have "unat nu \<le> unat (hsize h3 x)" using G(5) by (simp add: region_def hi_def)
    then have big: "n \<le> hsize h3 x" using nu(3) by (simp add: word_le_nat_alt)
    have "p \<noteq> -1" using a \<open>unat (brk h) \<le> 2147483648\<close> by auto
    then have m: "morecore sbrk n h = Some (freep h3, h3)" using s a f(1) by (simp add: morecore_def nu_def [symmetric])
    have um: "um h3 z = um h z" if "unat z \<notin> ufree h3 bs3 \<union> header base" for z
      using f(6) that G(7) [of z] f(4) by simp
    have "ufree h3 bs3 = ufree h bs \<union> {unat (brk h)..<unat (brk h3)}" using f(3,4) G(3,4) by simp
    then show ?thesis using m ok3 x(1) big um f(3) G(6) by (intro disjI2 exI [of _ h3] exI [of _ bs3]) auto
  qed
qed

lemma malloc_loop_spec:
  assumes ok: "heap_ok base h bs A" and n: "n \<noteq> 0" "8 * unat n < 2147483648"
  shows "\<exists>r h'. malloc_loop sbrk n (freep h) (hptr h (freep h)) h = Some (r, h') \<and>
    (if r = 0 then h' = h \<and> (\<forall>x\<in>set bs. hsize h x < n) \<and> fst (sbrk ((if n < 4096 then 4096 else n) * 8) h) = -1
     else took base n h (ufree h bs \<union> {unat (brk h)..<unat (brk h')}) A r h' \<and> unat (brk h) \<le> unat (brk h') \<and>
       ((\<exists>x\<in>set bs. n \<le> hsize h x) \<longrightarrow> brk h' = brk h))"
proof -
  have found: "\<exists>r h'. malloc_loop sbrk n (freep h) (hptr h (freep h)) h = Some (r, h') \<and> r \<noteq> 0 \<and> brk h' = brk h \<and> took base n h (ufree h bs) A r h'"
    if ok: "heap_ok base h bs A" and e: "\<exists>x\<in>set bs. n \<le> hsize h x" for h bs
  proof -
    obtain p ps where c: "links (hptr h) (p # ps) (hptr h (freep h))" "last (p # ps) = freep h" "freep h \<notin> set (butlast (p # ps))"
      "hptr h (freep h) = p" "set (p # ps) = set (base # bs)" using heap_round [OF ok] .
    have "\<exists>x\<in>set (p # ps). n \<le> hsize h x" using e c(5) by auto
    with malloc_scan [OF c(1-4), of n sbrk] obtain prev q where s: "malloc_loop sbrk n (freep h) p h = Some (take_block n prev q h)"
      "n \<le> hsize h q" "q \<in> set (p # ps)" "prev \<in> insert (freep h) (set (p # ps))" "hptr h prev = q" by auto
    have "freep h \<in> set (base # bs)" using ok by (simp add: heap_ok_def)
    then have "prev \<in> set (base # bs)" "q \<in> set (base # bs)" using s(3,4) c(5) by auto
    from take_spec [OF ok n(1) s(2) this(2,1) s(5)] show ?thesis using s(1) c(4) by (auto simp: took_def)
  qed
  show ?thesis
  proof (cases "\<exists>x\<in>set bs. n \<le> hsize h x")
    case True
    then show ?thesis using found [OF ok True] by auto
  next
    case False
    obtain p ps where c: "links (hptr h) (p # ps) (hptr h (freep h))" "last (p # ps) = freep h" "freep h \<notin> set (butlast (p # ps))"
      "hptr h (freep h) = p" "set (p # ps) = set (base # bs)" using heap_round [OF ok] .
    have "hsize h base = 0" using ok by (simp add: heap_ok_def blocks_ok_def)
    then have "\<not> (\<exists>x\<in>set (p # ps). n \<le> hsize h x)" using False c(5) n(1) by auto
    with malloc_scan [OF c(1-4), of n sbrk] have s: "malloc_loop sbrk n (freep h) p h = Option.bind (morecore sbrk n h) (\<lambda>(p, h).
      if p = 0 then Some (0, h) else malloc_loop sbrk n p (hptr h p) h)" by auto
    from morecore_spec [OF ok n] show ?thesis
    proof
      assume "morecore sbrk n h = Some (0, h) \<and> fst (sbrk ((if n < 4096 then 4096 else n) * 8) h) = -1"
      then show ?thesis using s c(4) False by (auto simp: not_le)
    next
      assume "\<exists>h' bs'. morecore sbrk n h = Some (freep h', h') \<and> heap_ok base h' bs' A \<and> (\<exists>x\<in>set bs'. n \<le> hsize h' x) \<and>
        unat (brk h) \<le> unat (brk h') \<and> ufree h' bs' = ufree h bs \<union> {unat (brk h)..<unat (brk h')} \<and>
        (\<forall>z. unat z \<notin> ufree h' bs' \<union> header base \<longrightarrow> um h' z = um h z)"
      then obtain h1 bs1 where m: "morecore sbrk n h = Some (freep h1, h1)" "heap_ok base h1 bs1 A" "\<exists>x\<in>set bs1. n \<le> hsize h1 x"
        "unat (brk h) \<le> unat (brk h1)" "ufree h1 bs1 = ufree h bs \<union> {unat (brk h)..<unat (brk h1)}"
        "\<forall>z. unat z \<notin> ufree h1 bs1 \<union> header base \<longrightarrow> um h1 z = um h z" by blast
      obtain r h' where f: "malloc_loop sbrk n (freep h1) (hptr h1 (freep h1)) h1 = Some (r, h')" "r \<noteq> 0" "brk h' = brk h1"
        "took base n h1 (ufree h1 bs1) A r h'" using found [OF m(2,3)] by blast
      have "freep h1 \<noteq> 0"
      proof -
        have "freep h1 \<in> set (base # bs1)" "base \<noteq> 0" "\<forall>x\<in>set bs1. unat base + 8 \<le> unat x"
          using m(2) by (auto simp: heap_ok_def blocks_ok_def block_ok_def)
        then show ?thesis by auto
      qed
      then have "malloc_loop sbrk n (freep h) p h = Some (r, h')" using s m(1) f(1) by simp
      moreover have "took base n h (ufree h bs \<union> {unat (brk h)..<unat (brk h')}) A r h'"
        using f(3,4) m(5,6) by (auto simp: took_def)
      ultimately show ?thesis using f(2,3) m(4) c(4) False by (intro exI [of _ r] exI [of _ h']) simp
    qed
  qed
qed

end

section \<open>malloc and free\<close>

lemma nunits_bound:
  assumes "unat nbytes < 2147483632"
  shows "nunits nbytes \<noteq> 0" "8 * unat (nunits nbytes) < 2147483648" "unat nbytes + 8 \<le> 8 * unat (nunits nbytes)"
proof -
  have "nbytes + 8 - 1 = nbytes + 7" by simp
  then have "unat (nbytes + 8 - 1) = unat nbytes + 7" using assms unat_add_u32 [of nbytes 7] by (simp only: unat_numeral) simp
  then have "unat ((nbytes + 8 - 1) div 8) = (unat nbytes + 7) div 8" by (simp add: unat_div)
  moreover have "(unat nbytes + 7) div 8 < 268435456" using assms by (simp add: div_less_iff_less_mult)
  ultimately have u: "unat (nunits nbytes) = (unat nbytes + 7) div 8 + 1" unfolding nunits_def by (subst unat_add_u32) simp_all
  then show "nunits nbytes \<noteq> 0" by auto
  have "8 * ((unat nbytes + 7) div 8) \<le> unat nbytes + 7" by simp
  then show "8 * unat (nunits nbytes) < 2147483648" using u assms by simp
  have "unat nbytes + 7 < 8 + 8 * ((unat nbytes + 7) div 8)" by (rule dividend_less_times_div) simp
  then show "unat nbytes + 8 \<le> 8 * unat (nunits nbytes)" using u by simp
qed

text \<open>The heap before the first call of \<open>malloc\<close>, or with the free blocks \<open>bs\<close> and the allocated blocks \<open>A\<close>.\<close>

definition heap_inv :: "u32 \<Rightarrow> uheap \<Rightarrow> u32 list \<Rightarrow> u32 set \<Rightarrow> bool" where
  "heap_inv base h bs A \<longleftrightarrow> heap_ok base h bs A \<or>
     freep h = 0 \<and> bs = [] \<and> A = {} \<and> base \<noteq> 0 \<and> unat base + 8 \<le> unat (brk h) \<and> brk h \<le> KERNBASE"

lemma heap_init:
  assumes "base \<noteq> 0" "unat base + 8 \<le> unat (brk h)" "brk h \<le> KERNBASE"
  shows "heap_ok base (set_hsize base 0 ((set_hptr base base h)\<lparr>freep := base\<rparr>)) [] {}"
proof -
  have "hb base" using assms by (simp add: word_le_nat_alt)
  then show ?thesis using assms by (simp add: heap_ok_def blocks_ok_def hdr_simps)
qed

text \<open>Blocks outside the memory that changed are as before.\<close>

lemma kept_block:
  assumes ok: "heap_ok base h bs A" and a: "a \<in> A" and f: "\<And>z. unat z \<notin> ufree h bs \<union> N \<union> header base \<Longrightarrow> um h' z = um h z"
    and N: "N \<inter> region h a = {}"
  shows "region h' a = region h a" "unat z \<in> region h a \<Longrightarrow> um h' z = um h z"
proof -
  have ok1: "blocks_ok base h bs A" using ok by (simp add: heap_ok_def)
  note D = blocks_okD [OF ok1]
  note B = block_okD [OF D(7) D(3), of a]
  have out: "w \<notin> ufree h bs \<union> N \<union> header base" if w: "w \<in> region h a" for w
  proof -
    have "w \<notin> region h x" if "x \<in> set bs" for x
    proof -
      have "a \<noteq> x" using D(6) a that by blast
      then show ?thesis using w blocks_apart [OF ok1, of a x] a that by (auto simp: region_def apart_def)
    qed
    moreover have "unat base + 8 \<le> w" using w B(1) a by (auto simp: region_def)
    ultimately show ?thesis using N w by (auto simp: ufree_def header_def)
  qed
  then show "unat z \<in> region h a \<Longrightarrow> um h' z = um h z" for z using f by blast
  have "hsize h' a = hsize h a" unfolding hsize_def
  proof (rule load32_cong)
    fix i :: nat assume "i < 4"
    have "unat (a + 4 + of_nat i) = unat a + 4 + i" using B(2,3) a \<open>i < 4\<close> hb_4 [of a] by (subst unat_add_u32) simp_all
    then have "unat (a + 4 + of_nat i) \<in> region h a" using B(2) a \<open>i < 4\<close> by (simp add: region_def)
    then show "um h' (a + 4 + of_nat i) = um h (a + 4 + of_nat i)" using out f by blast
  qed
  then show "region h' a = region h a" by (simp add: region_def hi_def)
qed

lemma heap_disjoint: "heap_ok base h bs (insert b A) \<Longrightarrow> b \<notin> A \<Longrightarrow> a \<in> A \<Longrightarrow> region h a \<inter> region h b = {}"
  by (cases "a = b") (use blocks_apart [of base h bs "insert b A" a b] in \<open>auto simp: heap_ok_def region_def apart_def\<close>)

lemma malloc_inited:
  assumes "heap_inv base h bs A"
  obtains h1 where "heap_ok base h1 bs A" "brk h1 = brk h" "ufree h1 bs = ufree h bs" "\<And>x. x \<in> set bs \<Longrightarrow> hsize h1 x = hsize h x"
    "\<And>z. unat z \<notin> header base \<Longrightarrow> um h1 z = um h z" "A \<noteq> {} \<Longrightarrow> h1 = h"
    "malloc sbrk base nbytes h = malloc_loop sbrk (nunits nbytes) (freep h1) (hptr h1 (freep h1)) h1"
proof (cases "heap_ok base h bs A")
  case True
  then have "freep h \<in> set (base # bs)" "base \<noteq> 0" "\<forall>x\<in>set bs. unat base + 8 \<le> unat x"
    by (auto simp: heap_ok_def blocks_ok_def block_ok_def)
  then have "freep h \<noteq> 0" by auto
  then show ?thesis using that [of h] True by (simp add: malloc_def)
next
  case False
  then have i: "freep h = 0" "bs = []" "A = {}" "base \<noteq> 0" "unat base + 8 \<le> unat (brk h)" "brk h \<le> KERNBASE"
    using assms by (auto simp: heap_inv_def)
  let ?h = "set_hsize base 0 ((set_hptr base base h)\<lparr>freep := base\<rparr>)"
  have hb: "hb base" using i(5,6) by (simp add: word_le_nat_alt)
  have "um ?h z = um h z" if "unat z \<notin> header base" for z using that um_set_other [OF hb, of z] by (auto simp: header_def)
  then show ?thesis using that [of ?h] heap_init [OF i(4-6)] i(1-3) by (simp add: malloc_def ufree_def Let_def)
qed

section \<open>Properties\<close>

text \<open>C14. For any request below 2 GB less 16 bytes, \<open>malloc\<close> returns. When it returns a block, the block has
  room for the request, lies in memory that was free or has just come from \<open>sbrk\<close>, overlaps no allocated
  block, and exactly its bytes leave the free memory; no byte of any allocated block changes and the heap
  stays well formed. It asks for more memory only when no free block is large enough, and it returns 0 only
  when that fails too, with the heap unchanged.\<close>

theorem malloc_correct:
  assumes "heap_inv base h bs A" "unat nbytes < 2147483632"
  shows "\<exists>r h' bs'. malloc (usbrk grow) base nbytes h = Some (r, h') \<and>
    (\<forall>a\<in>A. region h' a = region h a) \<and> (\<forall>a\<in>A. \<forall>z. unat z \<in> region h a \<longrightarrow> um h' z = um h z) \<and>
    (if r = 0 then heap_inv base h' bs A \<and> bs' = bs \<and> brk h' = brk h \<and> ufree h' bs = ufree h bs \<and>
       (\<forall>x\<in>set bs. hsize h x < nunits nbytes) \<and>
       fst (usbrk grow ((if nunits nbytes < 4096 then 4096 else nunits nbytes) * 8) h') = -1
     else heap_inv base h' bs' (insert (r - 8) A) \<and> r - 8 \<notin> A \<and> unat (brk h) \<le> unat (brk h') \<and>
       unat nbytes + 8 \<le> card (region h' (r - 8)) \<and> (\<forall>a\<in>A. region h' a \<inter> region h' (r - 8) = {}) \<and>
       region h' (r - 8) \<subseteq> ufree h bs \<union> {unat (brk h)..<unat (brk h')} \<and>
       ufree h' bs' = ufree h bs \<union> {unat (brk h)..<unat (brk h')} - region h' (r - 8) \<and>
       ((\<exists>x\<in>set bs. nunits nbytes \<le> hsize h x) \<longrightarrow> brk h' = brk h))"
proof -
  obtain h1 where i: "heap_ok base h1 bs A" "brk h1 = brk h" "ufree h1 bs = ufree h bs" "\<And>x. x \<in> set bs \<Longrightarrow> hsize h1 x = hsize h x"
    "\<And>z. unat z \<notin> header base \<Longrightarrow> um h1 z = um h z" "A \<noteq> {} \<Longrightarrow> h1 = h"
    "malloc (usbrk grow) base nbytes h = malloc_loop (usbrk grow) (nunits nbytes) (freep h1) (hptr h1 (freep h1)) h1"
    using malloc_inited [OF assms(1), of "usbrk grow" nbytes] by blast
  note n = nunits_bound [OF assms(2)]
  obtain r h' where m: "malloc (usbrk grow) base nbytes h = Some (r, h')"
    and r: "if r = 0 then h' = h1 \<and> (\<forall>x\<in>set bs. hsize h1 x < nunits nbytes) \<and>
        fst (usbrk grow ((if nunits nbytes < 4096 then 4096 else nunits nbytes) * 8) h1) = -1
      else took base (nunits nbytes) h1 (ufree h1 bs \<union> {unat (brk h1)..<unat (brk h')}) A r h' \<and> unat (brk h1) \<le> unat (brk h') \<and>
        ((\<exists>x\<in>set bs. nunits nbytes \<le> hsize h1 x) \<longrightarrow> brk h' = brk h1)"
    using proc_break.malloc_loop_spec [OF i(1) n(1,2), of grow] i(7) by auto
  show ?thesis
  proof (cases "r = 0")
    case True
    then have "h' = h1" using r by simp
    moreover have "(\<forall>a\<in>A. region h1 a = region h a) \<and> (\<forall>a\<in>A. \<forall>z. unat z \<in> region h a \<longrightarrow> um h1 z = um h z)" using i(6) by auto
    ultimately show ?thesis using m r True i(1-4) by (intro exI [of _ r] exI [of _ h'] exI [of _ bs]) (simp add: heap_inv_def)
  next
    case False
    let ?N = "{unat (brk h)..<unat (brk h')}"
    have t: "took base (nunits nbytes) h1 (ufree h bs \<union> ?N) A r h'" using r False i(2,3) by simp
    then obtain bs' where b: "heap_ok base h' bs' (insert (r - 8) A)" "ufree h' bs' = ufree h bs \<union> ?N - region h' (r - 8)"
      by (auto simp: took_def)
    have k: "region h' a = region h a" "\<And>z. unat z \<in> region h a \<Longrightarrow> um h' z = um h z" if "a \<in> A" for a
    proof -
      have "h1 = h" using i(6) that by blast
      have "hi h1 a \<le> unat (brk h1)" using i(1) that by (auto simp: heap_ok_def blocks_ok_def block_ok_def)
      then have N: "?N \<inter> region h1 a = {}" using i(2) by (auto simp: region_def)
      have "um h' z = um h1 z" if "unat z \<notin> ufree h1 bs \<union> ?N \<union> header base" for z using t that i(3) by (simp add: took_def)
      note K = kept_block [OF i(1) \<open>a \<in> A\<close> this N]
      show "region h' a = region h a" "\<And>z. unat z \<in> region h a \<Longrightarrow> um h' z = um h z" using K unfolding \<open>h1 = h\<close> by blast+
    qed
    have "card (region h' (r - 8)) = 8 * unat (nunits nbytes)" using t by (simp add: took_def region_def hi_def)
    moreover have "\<forall>a\<in>A. region h' a \<inter> region h' (r - 8) = {}" using heap_disjoint [OF b(1)] t by (simp add: took_def)
    ultimately show ?thesis using m r t b k n(3) False i(2-4)
      by (intro exI [of _ r] exI [of _ h'] exI [of _ bs']) (simp add: took_def heap_inv_def)
  qed
qed

definition uheap0 :: uheap where
  "uheap0 = \<lparr>um = (\<lambda>_. 0), freep = 0, brk = 8192\<rparr>"

theorem malloc_correct_witness:
  "\<exists>r h' bs'. malloc (usbrk (\<lambda>_ _. True)) 4096 100 uheap0 = Some (r, h') \<and> r \<noteq> 0 \<and>
    108 \<le> card (region h' (r - 8)) \<and> region h' (r - 8) \<subseteq> {8192..<unat (brk h')} \<and>
    ufree h' bs' = {8192..<unat (brk h')} - region h' (r - 8)"
proof -
  have i: "heap_inv 4096 uheap0 [] {}" by (simp add: heap_inv_def uheap0_def KERNBASE_def)
  obtain r h' bs' where m: "malloc (usbrk (\<lambda>_ _. True)) 4096 100 uheap0 = Some (r, h')"
    "if r = 0 then brk h' = 8192 \<and> fst (usbrk (\<lambda>_ _. True) ((if nunits 100 < 4096 then 4096 else nunits 100) * 8) h') = -1
     else 108 \<le> card (region h' (r - 8)) \<and> region h' (r - 8) \<subseteq> {8192..<unat (brk h')} \<and>
       ufree h' bs' = {8192..<unat (brk h')} - region h' (r - 8)"
    using malloc_correct [OF i, of 100 "\<lambda>_ _. True"] by (auto simp: uheap0_def ufree_def split: if_splits)
  have "r \<noteq> 0" using m(2) by (auto simp: usbrk_def nunits_def Let_def KERNBASE_def pos_cint)
  then show ?thesis using m by auto
qed

text \<open>C15. \<open>free\<close> of an allocated block returns: it gives exactly the bytes of the block back to the free
  memory, changes no byte of any other allocated block, and leaves the heap well formed, whichever of the
  neighbouring free blocks it joins and wherever \<open>freep\<close> stood.\<close>

theorem free_correct:
  assumes "heap_inv base h bs A" "b \<in> A"
  shows "\<exists>h' bs'. free (b + 8) h = Some h' \<and> heap_inv base h' bs' (A - {b}) \<and> brk h' = brk h \<and>
    ufree h' bs' = ufree h bs \<union> region h b \<and> (\<forall>a\<in>A - {b}. region h' a = region h a) \<and>
    (\<forall>a\<in>A - {b}. \<forall>z. unat z \<in> region h a \<longrightarrow> um h' z = um h z)"
proof -
  have ok: "heap_ok base h bs A" using assms by (auto simp: heap_inv_def)
  obtain h' bs' where f: "free (b + 8) h = Some h'" "heap_ok base h' bs' (A - {b})" "brk h' = brk h"
    "ufree h' bs' = ufree h bs \<union> region h b" "\<forall>z. unat z \<notin> ufree h' bs' \<union> header base \<longrightarrow> um h' z = um h z"
    using free_spec [OF ok assms(2)] by blast
  have k: "region h' a = region h a" "\<And>z. unat z \<in> region h a \<Longrightarrow> um h' z = um h z" if "a \<in> A - {b}" for a
  proof -
    have "region h b \<inter> region h a = {}"
      using that assms(2) ok blocks_apart [of base h bs A a b] by (auto simp: heap_ok_def region_def apart_def)
    from kept_block [OF ok _ _ this, of h'] that f(4,5)
    show "region h' a = region h a" "\<And>z. unat z \<in> region h a \<Longrightarrow> um h' z = um h z" by auto
  qed
  show ?thesis using f k by (intro exI [of _ h'] exI [of _ bs']) (simp add: heap_inv_def)
qed

text \<open>One free block, and one allocated block of 14 units after it.\<close>

definition uheap1 :: uheap where
  "uheap1 = set_hsize 40848 14 (set_hsize 8192 4082 (set_hptr 8192 4096 (set_hsize 4096 0 (set_hptr 4096 8192
     \<lparr>um = (\<lambda>_. 0), freep = 4096, brk = 40960\<rparr>))))"

theorem free_correct_witness:
  "\<exists>h' bs'. free 40856 uheap1 = Some h' \<and> heap_inv 4096 h' bs' {} \<and> ufree h' bs' = {8192..<40960}"
proof -
  have h: "hsize uheap1 4096 = 0" "hsize uheap1 8192 = 4082" "hsize uheap1 40848 = 14" "hptr uheap1 4096 = 8192" "hptr uheap1 8192 = 4096"
    "freep uheap1 = 4096" "brk uheap1 = 40960"
    by (simp_all add: uheap1_def hdr_simps hsep_def)
  have ok: "heap_inv 4096 uheap1 [8192] {40848}"
    by (simp add: heap_inv_def heap_ok_def blocks_ok_def block_ok_def apart_def hi_def h KERNBASE_def)
  have "region uheap1 8192 = {8192..<40848}" "region uheap1 40848 = {40848..<40960}" by (simp_all add: region_def hi_def h)
  then have u: "ufree uheap1 [8192] \<union> region uheap1 40848 = {8192..<40960}" by (auto simp: ufree_def)
  from free_correct [OF ok, of 40848] show ?thesis unfolding u by auto
qed

text \<open>The sum in \<open>nunits\<close> wraps around: a request of 4294967289 bytes or more gets one unit, which has no
  room behind its header.\<close>

lemma nunits_wraps: "4294967289 \<le> unat nbytes \<Longrightarrow> nunits nbytes = 1"
proof -
  assume a: "4294967289 \<le> unat nbytes"
  have "unat (nbytes + 7) = (unat nbytes + 7) mod 4294967296" by (simp add: unat_word_ariths)
  also have "\<dots> = unat nbytes + 7 - 4294967296" using a unat_u32 [of nbytes] by (simp add: mod_if)
  also have "\<dots> < 8" using unat_u32 [of nbytes] by simp
  finally have "unat ((nbytes + 7) div 8) = 0" by (simp add: unat_div)
  then have "(nbytes + 7) div 8 = 0" by (simp only: unat_eq_0)
  then show ?thesis by (simp add: nunits_def add.commute)
qed

end
