(* ===== verification/Mach.thy ===== *)
theory Mach
  imports Kalloc Traps
begin

text \<open>
  The machine around the processor: the interrupt controllers (picirq.c, ioapic.c, lapic.c), the
  timer (timer.c), the clock chip and the start of other processors (lapic.c), the serial port
  (uartinit of uart.c), and the search for the multiprocessor tables (mp.c). What the code does to
  a device is the log of its reads and writes of ports and device registers; what a read returns
  is the parameter \<open>hw\<close>, a function of the log so far. Loops that poll a device take a bound on the
  number of polls and are \<open>Blocked\<close> beyond it.
\<close>

section \<open>Ports and device registers (x86.h)\<close>

datatype ioev =
    Outb u16 u8 | Inb u16 u8 | Outsl u16 "u8 list" | Insl u16 "u8 list" | MWrite u32 u32 | MRead u32 u32

record iohw =
  in_b :: "ioev list \<Rightarrow> u16 \<Rightarrow> u8"
  in_sl :: "ioev list \<Rightarrow> u16 \<Rightarrow> u8 list"
  in_m :: "ioev list \<Rightarrow> u32 \<Rightarrow> u32"

record mach =
  iolog :: "ioev list"
  irqmask :: u16
  lapic :: u32
  ismp :: bool
  ncpu :: u32
  apicids :: "nat \<Rightarrow> u8"
  ioapicid :: u8

definition outb :: "u16 \<Rightarrow> u8 \<Rightarrow> mach \<Rightarrow> mach" where
  "outb port v m = m\<lparr>iolog := iolog m @ [Outb port v]\<rparr>"

definition inb :: "iohw \<Rightarrow> u16 \<Rightarrow> mach \<Rightarrow> u8 \<times> mach" where
  "inb hw port m = (let v = in_b hw (iolog m) port in (v, m\<lparr>iolog := iolog m @ [Inb port v]\<rparr>))"

definition outsl :: "u16 \<Rightarrow> u8 list \<Rightarrow> mach \<Rightarrow> mach" where
  "outsl port bs m = m\<lparr>iolog := iolog m @ [Outsl port bs]\<rparr>"

definition insl :: "iohw \<Rightarrow> u16 \<Rightarrow> mach \<Rightarrow> u8 list \<times> mach" where
  "insl hw port m = (let bs = in_sl hw (iolog m) port in (bs, m\<lparr>iolog := iolog m @ [Insl port bs]\<rparr>))"

text \<open>Stores and loads of \<open>volatile\<close> memory.\<close>

definition mwrite :: "u32 \<Rightarrow> u32 \<Rightarrow> mach \<Rightarrow> mach" where
  "mwrite a v m = m\<lparr>iolog := iolog m @ [MWrite a v]\<rparr>"

definition mread :: "iohw \<Rightarrow> u32 \<Rightarrow> mach \<Rightarrow> u32 \<times> mach" where
  "mread hw a m = (let v = in_m hw (iolog m) a in (v, m\<lparr>iolog := iolog m @ [MRead a v]\<rparr>))"

definition outs :: "(u16 \<times> u8) list \<Rightarrow> mach \<Rightarrow> mach" where
  "outs ps m = fold (\<lambda>(p, v). outb p v) ps m"

section \<open>picirq.c\<close>

definition IO_PIC1 :: u16 where "IO_PIC1 = 0x20"

definition IO_PIC2 :: u16 where "IO_PIC2 = 0xA0"

definition IRQ_SLAVE :: nat where "IRQ_SLAVE = 2"

definition irqmask0 :: u16 where "irqmask0 = 0xFFFF AND NOT (push_bit IRQ_SLAVE 1)"

definition picsetmask :: "u16 \<Rightarrow> mach \<Rightarrow> mach" where
  "picsetmask msk m = outs [(IO_PIC1 + 1, ucast msk), (IO_PIC2 + 1, ucast (drop_bit 8 msk))] (m\<lparr>irqmask := msk\<rparr>)"

definition picenable :: "u32 \<Rightarrow> mach \<Rightarrow> mach" where
  "picenable irq m = picsetmask (ucast ((ucast (irqmask m) :: u32) AND NOT (push_bit (unat irq) 1))) m"

definition picinit :: "mach \<Rightarrow> mach" where
  "picinit m =
     (let m = outs
        [(IO_PIC1 + 1, 0xFF), (IO_PIC2 + 1, 0xFF),
         (IO_PIC1, 0x11), (IO_PIC1 + 1, ucast T_IRQ0), (IO_PIC1 + 1, push_bit IRQ_SLAVE 1), (IO_PIC1 + 1, 0x3),
         (IO_PIC2, 0x11), (IO_PIC2 + 1, ucast T_IRQ0 + 8), (IO_PIC2 + 1, of_nat IRQ_SLAVE), (IO_PIC2 + 1, 0x3),
         (IO_PIC1, 0x68), (IO_PIC1, 0x0a),
         (IO_PIC2, 0x68), (IO_PIC2, 0x0a)] m
      in if irqmask m \<noteq> 0xFFFF then picsetmask (irqmask m) m else m)"

section \<open>timer.c\<close>

definition IO_TIMER1 :: u16 where "IO_TIMER1 = 0x40"

definition TIMER_DIV :: "nat \<Rightarrow> nat" where
  "TIMER_DIV x = (1193182 + x div 2) div x"

definition timerinit :: "mach \<Rightarrow> mach" where
  "timerinit m =
     picenable IRQ_TIMER (outs
       [(IO_TIMER1 + 3, 0x00 OR 0x04 OR 0x30), (IO_TIMER1, of_nat (TIMER_DIV 100 mod 256)),
        (IO_TIMER1, of_nat (TIMER_DIV 100 div 256))] m)"

section \<open>ioapic.c\<close>

definition IOAPIC :: u32 where "IOAPIC = 0xFEC00000"

definition REG_TABLE :: u32 where "REG_TABLE = 0x10"

definition INT_DISABLED :: u32 where "INT_DISABLED = 0x00010000"

definition ioapicread :: "iohw \<Rightarrow> u32 \<Rightarrow> mach \<Rightarrow> u32 \<times> mach" where
  "ioapicread hw reg m = mread hw (IOAPIC + 16) (mwrite IOAPIC reg m)"

definition ioapicwrite :: "u32 \<Rightarrow> u32 \<Rightarrow> mach \<Rightarrow> mach" where
  "ioapicwrite reg v m = mwrite (IOAPIC + 16) v (mwrite IOAPIC reg m)"

definition ioapicinit :: "iohw \<Rightarrow> mach \<Rightarrow> 'a kern_scheme \<Rightarrow> (mach \<times> 'a kern_scheme) res" where
  "ioapicinit hw m s =
     (if \<not> ismp m then Ok (m, s)
      else let (v, m) = ioapicread hw 1 m;
               maxintr = unat (drop_bit 16 v AND 0xFF);
               (w, m) = ioapicread hw 0 m;
               id = drop_bit 24 w
           in rbind (if id \<noteq> ucast (ioapicid m)
                     then cprintf ''ioapicinit: id isn't equal to ioapicid; not a MP\<newline>'' (va []) s else Ok s) (\<lambda>s.
              Ok (fold (\<lambda>i m. ioapicwrite (REG_TABLE + 2 * of_nat i + 1) 0
                                (ioapicwrite (REG_TABLE + 2 * of_nat i) (INT_DISABLED OR (T_IRQ0 + of_nat i)) m))
                    [0..<maxintr + 1] m, s)))"

definition ioapicenable :: "u32 \<Rightarrow> u32 \<Rightarrow> mach \<Rightarrow> mach" where
  "ioapicenable irq cpunum m =
     (if \<not> ismp m then m
      else ioapicwrite (REG_TABLE + 2 * irq + 1) (push_bit 24 cpunum) (ioapicwrite (REG_TABLE + 2 * irq) (T_IRQ0 + irq) m))"

section \<open>uart.c\<close>

definition COM1 :: u16 where "COM1 = 0x3f8"

definition uartinit :: "iohw \<Rightarrow> mach \<Rightarrow> 'a kern_scheme \<Rightarrow> mach \<times> 'a kern_scheme" where
  "uartinit hw m s =
     (let m = outs
        [(COM1 + 2, 0), (COM1 + 3, 0x80), (COM1 + 0, of_nat (115200 div 9600)), (COM1 + 1, 0), (COM1 + 3, 0x03),
         (COM1 + 4, 0), (COM1 + 1, 0x01)] m;
          (st, m) = inb hw (COM1 + 5) m
      in if st = 0xFF then (m, s)
         else let s = s\<lparr>uart := True\<rparr>;
                  (_, m) = inb hw (COM1 + 2) m;
                  (_, m) = inb hw (COM1 + 0) m;
                  m = ioapicenable IRQ_COM1 0 (picenable IRQ_COM1 m)
              in (m, fold uartputc (bytes ''xv6...\<newline>'') s))"

section \<open>lapic.c\<close>

text \<open>The registers, as indices of words.\<close>

definition ID :: u32 where "ID = 0x0020 div 4"
definition VER :: u32 where "VER = 0x0030 div 4"
definition TPR :: u32 where "TPR = 0x0080 div 4"
definition EOI :: u32 where "EOI = 0x00B0 div 4"
definition SVR :: u32 where "SVR = 0x00F0 div 4"
definition ENABLE :: u32 where "ENABLE = 0x00000100"
definition ESR :: u32 where "ESR = 0x0280 div 4"
definition ICRLO :: u32 where "ICRLO = 0x0300 div 4"
definition INIT :: u32 where "INIT = 0x00000500"
definition STARTUP :: u32 where "STARTUP = 0x00000600"
definition DELIVS :: u32 where "DELIVS = 0x00001000"
definition ASSERT :: u32 where "ASSERT = 0x00004000"
definition LEVEL :: u32 where "LEVEL = 0x00008000"
definition BCAST :: u32 where "BCAST = 0x00080000"
definition ICRHI :: u32 where "ICRHI = 0x0310 div 4"
definition TIMER :: u32 where "TIMER = 0x0320 div 4"
definition X1 :: u32 where "X1 = 0x0000000B"
definition PERIODIC :: u32 where "PERIODIC = 0x00020000"
definition PCINT :: u32 where "PCINT = 0x0340 div 4"
definition LINT0 :: u32 where "LINT0 = 0x0350 div 4"
definition LINT1 :: u32 where "LINT1 = 0x0360 div 4"
definition ERROR :: u32 where "ERROR = 0x0370 div 4"
definition MASKED :: u32 where "MASKED = 0x00010000"
definition TICR :: u32 where "TICR = 0x0380 div 4"
definition TDCR :: u32 where "TDCR = 0x03E0 div 4"

definition lapicr :: "iohw \<Rightarrow> u32 \<Rightarrow> mach \<Rightarrow> u32 \<times> mach" where
  "lapicr hw index m = mread hw (lapic m + 4 * index) m"

definition lapicw :: "iohw \<Rightarrow> u32 \<Rightarrow> u32 \<Rightarrow> mach \<Rightarrow> mach" where
  "lapicw hw index v m = snd (lapicr hw ID (mwrite (lapic m + 4 * index) v m))"

fun lapic_wait :: "nat \<Rightarrow> iohw \<Rightarrow> mach \<Rightarrow> mach res" where
  "lapic_wait 0 hw m = Blocked"
| "lapic_wait (Suc fuel) hw m =
     (let (v, m) = lapicr hw ICRLO m in if v AND DELIVS \<noteq> 0 then lapic_wait fuel hw m else Ok m)"

definition lapicinit :: "nat \<Rightarrow> iohw \<Rightarrow> mach \<Rightarrow> mach res" where
  "lapicinit fuel hw m =
     (if lapic m = 0 then Ok m
      else let m = lapicw hw SVR (ENABLE OR (T_IRQ0 + IRQ_SPURIOUS)) m;
               m = lapicw hw TDCR X1 m;
               m = lapicw hw TIMER (PERIODIC OR (T_IRQ0 + IRQ_TIMER)) m;
               m = lapicw hw TICR 10000000 m;
               m = lapicw hw LINT0 MASKED m;
               m = lapicw hw LINT1 MASKED m;
               (ver, m) = lapicr hw VER m;
               m = (if 4 \<le> drop_bit 16 ver AND 0xFF then lapicw hw PCINT MASKED m else m);
               m = lapicw hw ERROR (T_IRQ0 + IRQ_ERROR) m;
               m = lapicw hw ESR 0 m;
               m = lapicw hw ESR 0 m;
               m = lapicw hw EOI 0 m;
               m = lapicw hw ICRHI 0 m;
               m = lapicw hw ICRLO (BCAST OR INIT OR LEVEL) m
           in rbind (lapic_wait fuel hw m) (\<lambda>m. Ok (lapicw hw TPR 0 m)))"

text \<open>\<open>n\<close> is the static counter of warnings, \<open>ra\<close> the return address that the warning prints.\<close>

definition cpunum ::
  "iohw \<Rightarrow> u32 \<Rightarrow> cint \<Rightarrow> mach \<Rightarrow> 'a kern_scheme \<Rightarrow> (cint \<times> cint \<times> mach \<times> 'a kern_scheme) res" where
  "cpunum hw ra n m s =
     rbind (if eflags_IF (mycpu (lk s))
            then rbind (if n = 0 then cprintf ''cpu called from %x with interrupts enabled\<newline>'' (va [(ra, [])]) s else Ok s)
                   (\<lambda>s. Ok (n + 1, s))
            else Ok (n, s)) (\<lambda>(n, s).
     if lapic m = 0 then Ok (0, n, m, s)
     else let (v, m) = lapicr hw ID m;
              apicid = drop_bit 24 v
          in case first_ix (\<lambda>i. ucast (apicids m i) = apicid) [0..<nat (sint (ncpu m))] of
               Some i \<Rightarrow> Ok (of_nat i, n, m, s)
             | None \<Rightarrow> Panic ''unknown apicid\<newline>'')"

definition lapiceoi :: "iohw \<Rightarrow> mach \<Rightarrow> mach" where
  "lapiceoi hw m = (if lapic m \<noteq> 0 then lapicw hw EOI 0 m else m)"

definition CMOS_PORT :: u16 where "CMOS_PORT = 0x70"

definition lapicstartap :: "iohw \<Rightarrow> u8 \<Rightarrow> u32 \<Rightarrow> mach \<Rightarrow> memory \<Rightarrow> mach \<times> memory" where
  "lapicstartap hw apicid addr m mm =
     (let m = outs [(CMOS_PORT, 0xF), (CMOS_PORT + 1, 0x0A)] m;
          wrv = P2V (push_bit 4 0x40 OR 0x67);
          mm = store16 mm wrv 0;
          mm = store16 mm (wrv + 2) (ucast (drop_bit 4 addr));
          m = lapicw hw ICRHI (push_bit 24 (ucast apicid)) m;
          m = lapicw hw ICRLO (INIT OR LEVEL OR ASSERT) m;
          m = lapicw hw ICRLO (INIT OR LEVEL) m;
          start = (\<lambda>m. lapicw hw ICRLO (STARTUP OR drop_bit 12 addr) (lapicw hw ICRHI (push_bit 24 (ucast apicid)) m))
      in (start (start m), mm))"

record rtcdate =
  second :: u32
  minute :: u32
  hour :: u32
  day :: u32
  month :: u32
  year :: u32

definition cmos_read :: "iohw \<Rightarrow> u8 \<Rightarrow> mach \<Rightarrow> u32 \<times> mach" where
  "cmos_read hw reg m = (let (v, m) = inb hw (CMOS_PORT + 1) (outb CMOS_PORT reg m) in (ucast v, m))"

definition fill_rtcdate :: "iohw \<Rightarrow> mach \<Rightarrow> rtcdate \<times> mach" where
  "fill_rtcdate hw m =
     (let (s, m) = cmos_read hw 0x00 m;
          (mi, m) = cmos_read hw 0x02 m;
          (h, m) = cmos_read hw 0x04 m;
          (d, m) = cmos_read hw 0x07 m;
          (mo, m) = cmos_read hw 0x08 m;
          (y, m) = cmos_read hw 0x09 m
      in (\<lparr>second = s, minute = mi, hour = h, day = d, month = mo, year = y\<rparr>, m))"

fun cmos_stable :: "nat \<Rightarrow> iohw \<Rightarrow> mach \<Rightarrow> (rtcdate \<times> mach) res" where
  "cmos_stable 0 hw m = Blocked"
| "cmos_stable (Suc fuel) hw m =
     (let (t1, m) = fill_rtcdate hw m;
          (a, m) = cmos_read hw 0x0a m
      in if a AND push_bit 7 1 \<noteq> 0 then cmos_stable fuel hw m
         else let (t2, m) = fill_rtcdate hw m
              in if t1 = t2 then Ok (t1, m) else cmos_stable fuel hw m)"

definition bcd_conv :: "u32 \<Rightarrow> u32" where
  "bcd_conv x = drop_bit 4 x * 10 + (x AND 0xf)"

definition cmostime :: "nat \<Rightarrow> iohw \<Rightarrow> mach \<Rightarrow> (rtcdate \<times> mach) res" where
  "cmostime fuel hw m =
     (let (statb, m) = cmos_read hw 0x0b m;
          bcd = (statb AND push_bit 2 1 = 0)
      in rbind (cmos_stable fuel hw m) (\<lambda>(t1, m).
         let t1 = (if bcd
                   then \<lparr>second = bcd_conv (second t1), minute = bcd_conv (minute t1), hour = bcd_conv (hour t1),
                         day = bcd_conv (day t1), month = bcd_conv (month t1), year = bcd_conv (year t1)\<rparr>
                   else t1)
         in Ok (t1\<lparr>year := year t1 + 2000\<rparr>, m)))"

section \<open>mp.c\<close>

definition NCPU :: u32 where "NCPU = 8"

definition mbytes :: "memory \<Rightarrow> u32 \<Rightarrow> nat \<Rightarrow> u8 list" where
  "mbytes mm a n = map (\<lambda>i. mm (a + of_nat i)) [0..<n]"

text \<open>\<open>sum\<close>: added up as an int, returned as an unsigned char.\<close>

definition mpsum :: "memory \<Rightarrow> u32 \<Rightarrow> nat \<Rightarrow> u8" where
  "mpsum mm addr len = ucast (sum_list (map (\<lambda>b. ucast b :: u32) (mbytes mm addr len)))"

text \<open>\<open>n\<close> bounds the steps from \<open>p\<close> to \<open>e\<close>; \<open>mpsearch1\<close> gives one for each 16 bytes.\<close>

fun mpsearch_loop :: "nat \<Rightarrow> memory \<Rightarrow> u32 \<Rightarrow> u32 \<Rightarrow> u32" where
  "mpsearch_loop 0 mm p e = 0"
| "mpsearch_loop (Suc n) mm p e =
     (if p < e
      then if memcmp (mbytes mm p 4) (bytes ''_MP_'') 4 = 0 \<and> mpsum mm p 16 = 0 then p
           else mpsearch_loop n mm (p + 16) e
      else 0)"

definition mpsearch1 :: "memory \<Rightarrow> u32 \<Rightarrow> nat \<Rightarrow> u32" where
  "mpsearch1 mm a len = (let addr = P2V a in mpsearch_loop (len div 16 + 1) mm addr (addr + of_nat len))"

definition mpsearch :: "memory \<Rightarrow> u32" where
  "mpsearch mm =
     (let bda = P2V 0x400;
          p = push_bit 4 (push_bit 8 (ucast (mm (bda + 0x0F))) OR ucast (mm (bda + 0x0E)));
          q = (push_bit 8 (ucast (mm (bda + 0x14))) OR ucast (mm (bda + 0x13))) * 1024;
          mp = (if p \<noteq> 0 then mpsearch1 mm p 1024 else mpsearch1 mm (q - 1024) 1024)
      in if mp \<noteq> 0 then mp else mpsearch1 mm 0xF0000 0x10000)"

text \<open>The configuration table and the floating pointer structure that leads to it.\<close>

definition mpconfig :: "memory \<Rightarrow> (u32 \<times> u32) option" where
  "mpconfig mm =
     (let mp = mpsearch mm
      in if mp = 0 \<or> load32 mm (mp + 4) = 0 then None
         else let conf = P2V (load32 mm (mp + 4)); version = mm (conf + 6)
              in if memcmp (mbytes mm conf 4) (bytes ''PCMP'') 4 \<noteq> 0 then None
                 else if version \<noteq> 1 \<and> version \<noteq> 4 then None
                 else if mpsum mm conf (unat (load16 mm (conf + 4))) \<noteq> 0 then None
                 else Some (conf, mp))"

definition MPPROC :: u8 where "MPPROC = 0"
definition MPBUS :: u8 where "MPBUS = 1"
definition MPIOAPIC :: u8 where "MPIOAPIC = 2"
definition MPIOINTR :: u8 where "MPIOINTR = 3"
definition MPLINTR :: u8 where "MPLINTR = 4"

text \<open>The \<open>break\<close> of the default case leaves the switch, not the loop.\<close>

fun mp_entries :: "nat \<Rightarrow> memory \<Rightarrow> u32 \<Rightarrow> u32 \<Rightarrow> mach \<Rightarrow> mach res" where
  "mp_entries fuel mm p e m =
     (if p < e
      then case fuel of
             0 \<Rightarrow> Blocked
           | Suc fuel' \<Rightarrow>
               if mm p = MPPROC
               then mp_entries fuel' mm (p + 20) e
                      (if ncpu m <s NCPU
                       then m\<lparr>apicids := (apicids m)(unat (ncpu m) := mm (p + 1)), ncpu := ncpu m + 1\<rparr> else m)
               else if mm p = MPIOAPIC
               then mp_entries fuel' mm (p + 8) e (m\<lparr>ioapicid := mm (p + 1)\<rparr>)
               else if mm p = MPBUS \<or> mm p = MPIOINTR \<or> mm p = MPLINTR
               then mp_entries fuel' mm (p + 8) e m
               else mp_entries fuel' mm p e (m\<lparr>ismp := False\<rparr>)
      else Ok m)"

definition mpinit :: "nat \<Rightarrow> iohw \<Rightarrow> memory \<Rightarrow> mach \<Rightarrow> mach res" where
  "mpinit fuel hw mm m =
     (case mpconfig mm of
        None \<Rightarrow> Ok m
      | Some (conf, mp) \<Rightarrow>
          rbind (mp_entries fuel mm (conf + 44) (conf + ucast (load16 mm (conf + 4)))
                   (m\<lparr>ismp := True, lapic := load32 mm (conf + 36)\<rparr>)) (\<lambda>m.
          if \<not> ismp m then Ok (m\<lparr>ncpu := 1, lapic := 0, ioapicid := 0\<rparr>)
          else if mm (mp + 12) \<noteq> 0
          then let m = outb 0x22 0x70 m; (v, m) = inb hw 0x23 m in Ok (outb 0x23 (v OR 1) m)
          else Ok m))"

section \<open>The multiprocessor table\<close>

declare mp_entries.simps [simp del]

definition entry_len :: "u8 \<Rightarrow> u32" where
  "entry_len t = (if t = MPPROC then 20 else 8)"

text \<open>All entries from \<open>p\<close> on, up to \<open>n\<close> of them, have a type of the specification.\<close>

fun mp_known :: "nat \<Rightarrow> memory \<Rightarrow> u32 \<Rightarrow> u32 \<Rightarrow> bool" where
  "mp_known 0 mm p e = True"
| "mp_known (Suc n) mm p e = (p < e \<longrightarrow> mm p \<le> MPLINTR \<and> mp_known n mm (p + entry_len (mm p)) e)"

lemma mp_type_cases: "(t :: u8) \<le> MPLINTR \<longleftrightarrow> t = MPPROC \<or> t = MPBUS \<or> t = MPIOAPIC \<or> t = MPIOINTR \<or> t = MPLINTR"
  unfolding word_unat_eq_iff word_le_nat_alt MPPROC_def MPBUS_def MPIOAPIC_def MPIOINTR_def MPLINTR_def by auto


lemma mp_entries_unknown: "p < e \<Longrightarrow> \<not> mm p \<le> MPLINTR \<Longrightarrow> mp_entries fuel mm p e m = Blocked"
  by (induction fuel arbitrary: m) (auto simp: mp_entries.simps mp_type_cases)

lemma mp_entries_step:
  assumes "p < e" "mm p \<le> MPLINTR"
  shows "\<exists>m'. mp_entries (Suc fuel) mm p e m = mp_entries fuel mm (p + entry_len (mm p)) e m' \<and> (ismp m' = ismp m)"
  using assms unfolding mp_type_cases by (subst mp_entries.simps) (auto simp: entry_len_def MPPROC_def MPBUS_def MPIOAPIC_def MPIOINTR_def MPLINTR_def)

lemma mp_entries_hangs: "\<not> mp_known n mm p e \<Longrightarrow> mp_entries fuel mm p e m = Blocked"
proof (induction n arbitrary: p fuel m)
  case (Suc n)
  then have p: "p < e" by auto
  show ?case
  proof (cases "mm p \<le> MPLINTR")
    case True
    then have "\<not> mp_known n mm (p + entry_len (mm p)) e" using Suc.prems by simp
    then show ?thesis using Suc.IH mp_entries_step [of p e mm _ m] True p by (cases fuel) (auto simp: mp_entries.simps [of 0])
  qed (use mp_entries_unknown p in blast)
qed simp

lemma mp_entries_returns:
  assumes "mp_known n mm p e" "unat p + 20 * n < 4294967296" "unat e \<le> unat p + 8 * n"
  shows "\<exists>t. mp_entries n mm p e m = Ok t \<and> ismp t = ismp m"
  using assms
proof (induction n arbitrary: p m)
  case 0
  then show ?case by (simp add: mp_entries.simps word_less_nat_alt)
next
  case (Suc n)
  show ?case
  proof (cases "p < e")
    case True
    let ?q = "p + entry_len (mm p)"
    have k: "mm p \<le> MPLINTR" "mp_known n mm ?q e" using Suc.prems(1) True by auto
    obtain m' where s: "mp_entries (Suc n) mm p e m = mp_entries n mm ?q e m'" "ismp m' = ismp m" using mp_entries_step [where mm = mm, OF True k(1)] by blast
    have "unat ?q = unat p + unat (entry_len (mm p))" using Suc.prems(2) by (intro unat_add_u32) (simp add: entry_len_def)
    moreover have "8 \<le> unat (entry_len (mm p))" "unat (entry_len (mm p)) \<le> 20" by (simp_all add: entry_len_def)
    ultimately show ?thesis using Suc.IH [OF k(2), of m'] Suc.prems(2,3) s by simp
  qed (simp add: mp_entries.simps)
qed

lemma unat_ucast_u16_u32: "unat (ucast (c :: u16) :: u32) = unat c"
proof -
  have "unat c < 65536" using unat_lt_2p [of c] by simp
  then show ?thesis by (simp add: unsigned_ucast_eq take_bit_nat_eq_self)
qed

lemma res_bind_Ok_iff: "(\<exists>t. rbind r f = Ok t) \<longleftrightarrow> (\<exists>x t. r = Ok x \<and> f x = Ok t)"
  by (cases r) auto

text \<open>C38. When the firmware has a valid table, \<open>mpinit\<close> returns if and only if every entry of the table has
  one of the five types of the specification. An entry of another type is meant to make the kernel fall back
  to one processor, but the loop never moves past it and start-up hangs.\<close>

theorem mpinit_returns_iff:
  assumes "mpconfig mm = Some (conf, mp)" "unat conf < 4293600000"
  shows "(\<exists>fuel t. mpinit fuel hw mm m = Ok t) \<longleftrightarrow>
    mp_known 65536 mm (conf + 44) (conf + ucast (load16 mm (conf + 4)))"
proof -
  let ?p = "conf + 44" and ?e = "conf + ucast (load16 mm (conf + 4)) :: u32"
  let ?m = "m\<lparr>ismp := True, lapic := load32 mm (conf + 36)\<rparr>"
  have l: "unat (load16 mm (conf + 4)) < 65536" using unat_lt_2p [of "load16 mm (conf + 4)"] by simp
  then have "unat (ucast (load16 mm (conf + 4)) :: u32) < 65536" by (simp add: unat_ucast_u16_u32)
  then have e: "unat ?e < unat conf + 65536" and p: "unat ?p = unat conf + 44"
    using assms(2) unat_add_u32 [of conf "ucast (load16 mm (conf + 4))"] unat_add_u32 [of conf 44] by simp_all
  have r: "(\<exists>t. mpinit fuel hw mm m = Ok t) \<longleftrightarrow> (\<exists>t. mp_entries fuel mm ?p ?e ?m = Ok t)" for fuel
    unfolding mpinit_def assms(1) option.case prod.case res_bind_Ok_iff by (auto simp: Let_def split: prod.splits)
  show ?thesis
  proof
    assume "\<exists>fuel t. mpinit fuel hw mm m = Ok t"
    then obtain fuel t where "mp_entries fuel mm ?p ?e ?m = Ok t" using r by blast
    then show "mp_known 65536 mm ?p ?e" using mp_entries_hangs [of 65536 mm ?p ?e fuel ?m] by force
  next
    assume k: "mp_known 65536 mm ?p ?e"
    have "\<exists>t. mp_entries 65536 mm ?p ?e ?m = Ok t \<and> ismp t = ismp ?m"
      by (rule mp_entries_returns [OF k]) (use p e assms(2) in simp_all)
    then show "\<exists>fuel t. mpinit fuel hw mm m = Ok t" using r by blast
  qed
qed

text \<open>A machine whose table has one entry, of the unknown type 9.\<close>

definition mp_table :: "u8 list" where
  "mp_table = bytes ''PCMP'' @ [52, 0, 4, 177] @ replicate 28 0 @ [0, 0, 0xE0, 0xFE] @ replicate 4 0 @ [9] @ replicate 7 0"

definition mp_mem :: memory where
  "mp_mem a =
     (if a = 0x8000040F then 1
      else if 0x80001000 \<le> a \<and> a < 0x80001010
      then (bytes ''_MP_'' @ [0, 0x20, 0, 0, 1, 4, 128, 0, 0, 0, 0, 0]) ! unat (a - 0x80001000)
      else if 0x80002000 \<le> a \<and> a < 0x80002034 then mp_table ! unat (a - 0x80002000)
      else 0)"

theorem mpinit_returns_iff_witness:
  "mpconfig mp_mem = Some (0x80002000, 0x80001000) \<and> (\<forall>hw m. \<not> (\<exists>fuel t. mpinit fuel hw mp_mem m = Ok t))"
proof -
  have c: "mpconfig mp_mem = Some (0x80002000, 0x80001000)" by code_simp
  have l: "load16 mp_mem (0x80002000 + 4) = 52" by code_simp
  have "mp_mem 0x8000202C = 9" by code_simp
  then have "\<not> mp_known (Suc 65535) mp_mem 0x8000202C 0x80002034" unfolding mp_known.simps by (simp add: MPLINTR_def)
  moreover have "Suc 65535 = 65536" by simp
  ultimately have "\<not> mp_known 65536 mp_mem 0x8000202C 0x80002034" by (simp only: not_False_eq_True)
  then have k: "\<not> mp_known 65536 mp_mem (0x80002000 + 44) (0x80002000 + ucast (load16 mp_mem (0x80002000 + 4)))" unfolding l by simp
  show ?thesis using c mpinit_returns_iff [OF c] k by (simp del: mp_known.simps)
qed

end
