(* ===== verification/Ide.thy ===== *)
theory Ide
  imports Bio Mach
begin

text \<open>
  The IDE disk driver: ide.c, the driver for a real disk that can be linked in place of the memory
  disk of Bio. The queue is a chain of \<open>qnext\<close> links through the buffers; the disk is seen through
  the log of port reads and writes of Mach. Polling the status port is bounded by \<open>polls\<close>; the
  wait for a request is bounded by \<open>fuel\<close>, with \<open>resume\<close> for what happens while the process sleeps.
\<close>

section \<open>State\<close>

definition IDE_BSY :: u8 where "IDE_BSY = 0x80"
definition IDE_DRDY :: u8 where "IDE_DRDY = 0x40"
definition IDE_DF :: u8 where "IDE_DF = 0x20"
definition IDE_ERR :: u8 where "IDE_ERR = 0x01"
definition IDE_CMD_READ :: u8 where "IDE_CMD_READ = 0x20"
definition IDE_CMD_WRITE :: u8 where "IDE_CMD_WRITE = 0x30"
definition IDE_CMD_RDMUL :: u8 where "IDE_CMD_RDMUL = 0xc4"
definition IDE_CMD_WRMUL :: u8 where "IDE_CMD_WRMUL = 0xc5"
definition SECTOR_SIZE :: nat where "SECTOR_SIZE = 512"
definition FSSIZE :: u32 where "FSSIZE = 1000"

record kide = kbio +
  mach :: mach
  qnext :: "nat \<Rightarrow> nat option"
  idequeue :: "nat option"
  havedisk1 :: bool

section \<open>Operations\<close>

fun ide_poll :: "nat \<Rightarrow> iohw \<Rightarrow> mach \<Rightarrow> (u8 \<times> mach) res" where
  "ide_poll 0 hw m = Blocked"
| "ide_poll (Suc polls) hw m =
     (let (r, m) = inb hw 0x1f7 m
      in if r AND (IDE_BSY OR IDE_DRDY) \<noteq> IDE_DRDY then ide_poll polls hw m else Ok (r, m))"

definition idewait :: "nat \<Rightarrow> iohw \<Rightarrow> bool \<Rightarrow> 'a kide_scheme \<Rightarrow> (cint \<times> 'a kide_scheme) res" where
  "idewait polls hw checkerr s =
     rbind (ide_poll polls hw (mach s)) (\<lambda>(r, m).
     Ok (if checkerr \<and> r AND (IDE_DF OR IDE_ERR) \<noteq> 0 then -1 else 0, s\<lparr>mach := m\<rparr>))"

fun ide_probe :: "nat \<Rightarrow> iohw \<Rightarrow> mach \<Rightarrow> bool \<times> mach" where
  "ide_probe 0 hw m = (False, m)"
| "ide_probe (Suc n) hw m = (let (v, m) = inb hw 0x1f7 m in if v \<noteq> 0 then (True, m) else ide_probe n hw m)"

definition ideinit_hw :: "nat \<Rightarrow> iohw \<Rightarrow> 'a kide_scheme \<Rightarrow> 'a kide_scheme res" where
  "ideinit_hw polls hw s =
     (let s = s\<lparr>lk := initlock L_idelock ''ide'' (lk s)\<rparr>;
          m = ioapicenable IRQ_IDE (ncpu (mach s) - 1) (picenable IRQ_IDE (mach s))
      in rbind (idewait polls hw False (s\<lparr>mach := m\<rparr>)) (\<lambda>(_, s).
         let (found, m) = ide_probe 1000 hw (outb 0x1f6 (0xe0 OR push_bit 4 1) (mach s));
             s = (if found then s\<lparr>havedisk1 := True\<rparr> else s)
         in Ok (s\<lparr>mach := outb 0x1f6 (0xe0 OR push_bit 4 0) m\<rparr>)))"

definition idestart :: "nat \<Rightarrow> iohw \<Rightarrow> nat option \<Rightarrow> 'a kide_scheme \<Rightarrow> 'a kide_scheme res" where
  "idestart polls hw bo s =
     (case bo of
        None \<Rightarrow> Panic ''idestart''
      | Some i \<Rightarrow>
          let b = bufs s ! i
          in if b_blockno b \<ge> FSSIZE then Panic ''incorrect blockno''
             else
               let sector_per_block = BSIZE div SECTOR_SIZE;
                   sector = b_blockno b * of_nat sector_per_block;
                   read_cmd = (if sector_per_block = 1 then IDE_CMD_READ else IDE_CMD_RDMUL);
                   write_cmd = (if sector_per_block = 1 then IDE_CMD_WRITE else IDE_CMD_WRMUL)
               in if sector_per_block > 7 then Panic ''idestart''
                  else rbind (idewait polls hw False s) (\<lambda>(_, s).
                       let m = outs
                             [(0x3f6, 0), (0x1f2, of_nat sector_per_block), (0x1f3, ucast (sector AND 0xff)),
                              (0x1f4, ucast (signed_drop_bit 8 sector AND 0xff)),
                              (0x1f5, ucast (signed_drop_bit 16 sector AND 0xff)),
                              (0x1f6, ucast (0xe0 OR push_bit 4 (b_dev b AND 1) OR (signed_drop_bit 24 sector AND 0x0f)))] (mach s);
                           m = (if b_flags b AND B_DIRTY \<noteq> 0
                                then outsl 0x1f0 (b_data b) (outb 0x1f7 write_cmd m)
                                else outb 0x1f7 read_cmd m)
                       in Ok (s\<lparr>mach := m\<rparr>)))"

definition ide_read :: "nat \<Rightarrow> iohw \<Rightarrow> nat \<Rightarrow> 'a kide_scheme \<Rightarrow> 'a kide_scheme res" where
  "ide_read polls hw i s =
     (if b_flags (bufs s ! i) AND B_DIRTY = 0
      then rbind (idewait polls hw True s) (\<lambda>(r, s).
           if \<not> r <s 0
           then let (bs, m) = insl hw 0x1f0 (mach s)
                in Ok (upd_buf i (\<lambda>b. b\<lparr>b_data := bs\<rparr>) (s\<lparr>mach := m\<rparr>))
           else Ok s)
      else Ok s)"

definition ideintr :: "nat \<Rightarrow> iohw \<Rightarrow> 'a kide_scheme \<Rightarrow> 'a kide_scheme res" where
  "ideintr polls hw s =
     rbind (kacquire L_idelock s) (\<lambda>s.
     case idequeue s of
       None \<Rightarrow> krelease L_idelock s
     | Some i \<Rightarrow>
         let s = s\<lparr>idequeue := qnext s i\<rparr>
         in rbind (ide_read polls hw i s) (\<lambda>s.
            let s = upd_buf i (\<lambda>b. b\<lparr>b_flags := b_flags b OR B_VALID\<rparr>) s;
                s = upd_buf i (\<lambda>b. b\<lparr>b_flags := b_flags b AND NOT B_DIRTY\<rparr>) s
            in rbind (wakeup (C_buf i) s) (\<lambda>s.
               rbind (if idequeue s \<noteq> None then idestart polls hw (idequeue s) s else Ok s) (krelease L_idelock))))"

text \<open>\<open>pp\<close> of \<open>iderw\<close>: \<open>None\<close> is the address of \<open>idequeue\<close>, \<open>Some j\<close> that of the \<open>qnext\<close> of buffer \<open>j\<close>.\<close>

definition pp_get :: "nat option \<Rightarrow> 'a kide_scheme \<Rightarrow> nat option" where
  "pp_get pp s = (case pp of None \<Rightarrow> idequeue s | Some j \<Rightarrow> qnext s j)"

definition pp_set :: "nat option \<Rightarrow> nat option \<Rightarrow> 'a kide_scheme \<Rightarrow> 'a kide_scheme" where
  "pp_set pp v s = (case pp of None \<Rightarrow> s\<lparr>idequeue := v\<rparr> | Some j \<Rightarrow> s\<lparr>qnext := (qnext s)(j := v)\<rparr>)"

text \<open>The walk to the end of the queue: at most NBUF buffers can be on it.\<close>

fun ide_tail :: "nat \<Rightarrow> nat option \<Rightarrow> 'a kide_scheme \<Rightarrow> nat option res" where
  "ide_tail fuel pp s =
     (case pp_get pp s of
        None \<Rightarrow> Ok pp
      | Some j \<Rightarrow> (case fuel of 0 \<Rightarrow> Blocked | Suc fuel' \<Rightarrow> ide_tail fuel' (Some j) s))"

definition ide_submit :: "nat \<Rightarrow> iohw \<Rightarrow> nat \<Rightarrow> 'a kide_scheme \<Rightarrow> 'a kide_scheme res" where
  "ide_submit polls hw i s =
     (let s = s\<lparr>qnext := (qnext s)(i := None)\<rparr>
      in rbind (ide_tail NBUF None s) (\<lambda>pp.
         let s = pp_set pp (Some i) s
         in if idequeue s = Some i then idestart polls hw (Some i) s else Ok s))"

fun ide_done ::
  "nat \<Rightarrow> ('a kide_scheme \<Rightarrow> 'a kide_scheme) \<Rightarrow> nat \<Rightarrow> 'a kide_scheme \<Rightarrow> 'a kide_scheme res" where
  "ide_done fuel resume i s =
     (if b_flags (bufs s ! i) AND (B_VALID OR B_DIRTY) \<noteq> B_VALID
      then case fuel of
             0 \<Rightarrow> Blocked
           | Suc fuel' \<Rightarrow> rbind (sleep resume (C_buf i) (Some L_idelock) s) (ide_done fuel' resume i)
      else Ok s)"

definition iderw_hw ::
  "nat \<Rightarrow> iohw \<Rightarrow> nat \<Rightarrow> ('a kide_scheme \<Rightarrow> 'a kide_scheme) \<Rightarrow> nat \<Rightarrow> 'a kide_scheme \<Rightarrow> 'a kide_scheme res" where
  "iderw_hw polls hw fuel resume i s =
     rbind (holdingsleep (L_bufsleep i) s) (\<lambda>(h, s).
     let b = bufs s ! i
     in if \<not> h then Panic ''iderw: buf not locked''
        else if b_flags b AND (B_VALID OR B_DIRTY) = B_VALID then Panic ''iderw: nothing to do''
        else if b_dev b \<noteq> 0 \<and> \<not> havedisk1 s then Panic ''iderw: ide disk 1 not present''
        else rbind (kacquire L_idelock s) (\<lambda>s.
             rbind (ide_submit polls hw i s) (\<lambda>s.
             rbind (ide_done fuel resume i s) (krelease L_idelock))))"

section \<open>Commands seen by the disk\<close>

text \<open>What a log of port writes tells the disk: a command, the drive and the sector, from the registers
  as they were last written.\<close>

definition ide_lba :: "(u16 \<Rightarrow> u8) \<Rightarrow> u32" where
  "ide_lba r = ucast (r 0x1f3) OR push_bit 8 (ucast (r 0x1f4)) OR push_bit 16 (ucast (r 0x1f5)) OR
     push_bit 24 (ucast (r 0x1f6 AND 0x0f))"

fun ide_decode :: "ioev \<Rightarrow> (u16 \<Rightarrow> u8) \<times> (u8 \<times> u8 \<times> u32) list \<Rightarrow> (u16 \<Rightarrow> u8) \<times> (u8 \<times> u8 \<times> u32) list" where
  "ide_decode (Outb p v) (r, cs) =
     (if p = 0x1f7 then (r, cs @ [(v, drop_bit 4 (r 0x1f6) AND 1, ide_lba r)]) else (r(p := v), cs))"
| "ide_decode _ (r, cs) = (r, cs)"

definition ide_cmds :: "ioev list \<Rightarrow> (u8 \<times> u8 \<times> u32) list" where
  "ide_cmds l = snd (fold ide_decode l (\<lambda>_. 0, []))"

definition request_cmd :: "buf \<Rightarrow> u8 \<times> u8 \<times> u32" where
  "request_cmd b = (if b_flags b AND B_DIRTY \<noteq> 0 then IDE_CMD_WRITE else IDE_CMD_READ, ucast (b_dev b AND 1), b_blockno b)"

lemma small_bits: "(x :: u32) < 1000 \<Longrightarrow> 10 \<le> n \<Longrightarrow> \<not> bit x n"
proof -
  assume "x < 1000" "10 \<le> n"
  then have "unat x < 2 ^ 10" by (simp add: word_less_nat_alt)
  then have "take_bit 10 (unat x) = unat x" by (rule take_bit_nat_eq_self)
  then have "take_bit 10 x = x" by (metis unsigned_take_bit_eq word_unat_eq_iff)
  then show ?thesis using \<open>10 \<le> n\<close> by (metis bit_take_bit_iff not_le)
qed

lemma lba_roundtrip:
  fixes x d :: u32
  assumes "x < 1000" "r 0x1f3 = ucast (x AND 0xff)" "r 0x1f4 = ucast (signed_drop_bit 8 x AND 0xff)"
    "r 0x1f5 = ucast (signed_drop_bit 16 x AND 0xff)" "r 0x1f6 = ucast (0xe0 OR push_bit 4 (d AND 1) OR (signed_drop_bit 24 x AND 0x0f))"
  shows "ide_lba r = x" "drop_bit 4 (r 0x1f6) AND 1 = ucast (d AND 1)"
proof -
  note z = small_bits [OF assms(1)]
  have m: "(0xff :: u32) = mask 8" "(0x0f :: u32) = mask 4" "(0x0f :: u8) = mask 4" "(0xe0 :: u32) = push_bit 5 (mask 3)"
    by (simp_all add: mask_eq_exp_minus_1)
  show "ide_lba r = x"
  proof (rule bit_word_eqI)
    fix n assume "n < LENGTH(32)"
    then consider "n < 8" | "8 \<le> n" "n < 16" | "16 \<le> n" "n < 24" | "24 \<le> n" "n < 32" by fastforce
    then show "bit (ide_lba r) n = bit x n"
      by cases (use z [of n] z [of 31] in \<open>auto simp: ide_lba_def assms(2-5) m bit_simps min_def\<close>)
  qed
  show "drop_bit 4 (r 0x1f6) AND 1 = ucast (d AND 1)"
    by (rule bit_word_eqI) (use z in \<open>auto simp: assms(5) m bit_simps\<close>)
qed

lemma ide_poll_cmds: "ide_poll polls hw m = Ok (r, m') \<Longrightarrow> \<exists>vs. iolog m' = iolog m @ map (Inb 0x1f7) vs"
proof (induction polls arbitrary: m)
  case (Suc n)
  let ?v = "in_b hw (iolog m) 0x1f7"
  let ?m = "m\<lparr>iolog := iolog m @ [Inb 0x1f7 ?v]\<rparr>"
  show ?case
  proof (cases "?v AND (IDE_BSY OR IDE_DRDY) \<noteq> IDE_DRDY")
    case True
    then have "ide_poll n hw ?m = Ok (r, m')" using Suc.prems by (simp add: inb_def Let_def)
    from Suc.IH [OF this] obtain vs where "iolog m' = iolog m @ Inb 0x1f7 ?v # map (Inb 0x1f7) vs" by auto
    then show ?thesis by (intro exI [of _ "?v # vs"]) simp
  next
    case False
    then show ?thesis using Suc.prems by (auto simp: inb_def Let_def intro!: exI [of _ "[?v]"])
  qed
qed simp

lemma fold_inbs [simp]: "fold ide_decode (map (Inb p) vs) = id"
  by (induction vs) (auto simp: fun_eq_iff)

text \<open>The disk answers: each poll ends within the bound.\<close>

definition disk_ready :: "nat \<Rightarrow> iohw \<Rightarrow> bool" where
  "disk_ready polls hw \<longleftrightarrow> (\<forall>m. \<exists>r m'. ide_poll polls hw m = Ok (r, m'))"

lemma idewait_ready:
  assumes "disk_ready polls hw"
  obtains r m where "idewait polls hw c s = Ok (r, s\<lparr>mach := m\<rparr>)" "ide_cmds (iolog m) = ide_cmds (iolog (mach s))"
proof -
  obtain r m where p: "ide_poll polls hw (mach s) = Ok (r, m)" using assms unfolding disk_ready_def by blast
  from ide_poll_cmds [OF p] have "ide_cmds (iolog m) = ide_cmds (iolog (mach s))" by (auto simp: ide_cmds_def)
  then show ?thesis using that p by (simp add: idewait_def)
qed

lemma idestart_spec:
  assumes "disk_ready polls hw" "b_blockno (bufs s ! i) < FSSIZE"
  shows "\<exists>m. idestart polls hw (Some i) s = Ok (s\<lparr>mach := m\<rparr>) \<and>
    ide_cmds (iolog m) = ide_cmds (iolog (mach s)) @ [request_cmd (bufs s ! i)]"
proof -
  let ?b = "bufs s ! i"
  obtain r m where w: "idewait polls hw False s = Ok (r, s\<lparr>mach := m\<rparr>)" "ide_cmds (iolog m) = ide_cmds (iolog (mach s))"
    using idewait_ready [OF assms(1)] by metis
  obtain rg cs where d: "fold ide_decode (iolog m) (\<lambda>_. 0, []) = (rg, cs)" by (meson surj_pair)
  then have cs: "ide_cmds (iolog (mach s)) = cs" using w(2) by (simp add: ide_cmds_def)
  have blk: "b_blockno ?b < 1000" using assms(2) by (simp add: FSSIZE_def)
  define v3 v4 v5 v6 :: u8 where "v3 = ucast (b_blockno ?b AND 0xff)" and "v4 = ucast (signed_drop_bit 8 (b_blockno ?b) AND 0xff)"
    and "v5 = ucast (signed_drop_bit 16 (b_blockno ?b) AND 0xff)"
    and "v6 = ucast (0xe0 OR push_bit 4 (b_dev ?b AND 1) OR (signed_drop_bit 24 (b_blockno ?b) AND 0x0f))"
  define rg' where "rg' = rg(0x3f6 := 0, 0x1f2 := 1, 0x1f3 := v3, 0x1f4 := v4, 0x1f5 := v5, 0x1f6 := v6)"
  have rg: "rg' 0x1f3 = v3" "rg' 0x1f4 = v4" "rg' 0x1f5 = v5" "rg' 0x1f6 = v6" by (simp_all add: rg'_def)
  note L = lba_roundtrip [OF blk rg [unfolded v3_def v4_def v5_def v6_def]]
  define m1 where "m1 = outs [(0x3f6, 0), (0x1f2, 1), (0x1f3, v3), (0x1f4, v4), (0x1f5, v5), (0x1f6, v6)] m"
  define m2 where "m2 = (if b_flags ?b AND B_DIRTY \<noteq> 0 then outsl 0x1f0 (b_data ?b) (outb 0x1f7 IDE_CMD_WRITE m1) else outb 0x1f7 IDE_CMD_READ m1)"
  have st: "idestart polls hw (Some i) s = Ok (s\<lparr>mach := m2\<rparr>)"
    using assms(2) w(1) unfolding m2_def m1_def v3_def v4_def v5_def v6_def
    by (simp add: idestart_def BSIZE_def SECTOR_SIZE_def Let_def not_le del: push_bit_and)
  have f: "fold ide_decode (iolog m1) (\<lambda>_. 0, []) = (rg', cs)"
    by (simp add: m1_def outs_def outb_def d rg'_def)
  have "ide_cmds (iolog m2) = cs @ [request_cmd ?b]"
    by (simp add: m2_def ide_cmds_def outb_def outsl_def f L request_cmd_def)
  then show ?thesis using st cs by blast
qed

section \<open>The queue\<close>

fun qchain :: "(nat \<Rightarrow> nat option) \<Rightarrow> nat option \<Rightarrow> nat list \<Rightarrow> bool" where
  "qchain f p [] = (p = None)"
| "qchain f p (i # q) = (p = Some i \<and> qchain f (f i) q)"

abbreviation ide_queue :: "'a kide_scheme \<Rightarrow> nat list \<Rightarrow> bool" where
  "ide_queue s q \<equiv> qchain (qnext s) (idequeue s) q"

lemma qchain_cong: "(\<And>i. i \<in> set q \<Longrightarrow> f i = g i) \<Longrightarrow> qchain f p q = qchain g p q"
  by (induction q arbitrary: p) auto

lemma qchain_snoc: "qchain f p q \<Longrightarrow> distinct q \<Longrightarrow> i \<notin> set q \<Longrightarrow> q \<noteq> [] \<Longrightarrow> qchain (f(i := None, last q := Some i)) p (q @ [i])"
proof (induction q arbitrary: p)
  case (Cons j q)
  show ?case
  proof (cases "q = []")
    case True
    then show ?thesis using Cons.prems by simp
  next
    case False
    then have "last q \<noteq> j" using Cons.prems(2) last_in_set [of q] by auto
    then show ?thesis using Cons False by auto
  qed
qed simp

lemma ide_tail_eq:
  "qchain (qnext s) (pp_get pp s) q \<Longrightarrow> length q \<le> fuel \<Longrightarrow> ide_tail fuel pp s = Ok (if q = [] then pp else Some (last q))"
proof (induction q arbitrary: pp fuel)
  case Nil
  then show ?case by (subst ide_tail.simps) simp
next
  case (Cons j q)
  then obtain fuel' where f: "fuel = Suc fuel'" by (cases fuel) auto
  have "ide_tail fuel' (Some j) s = Ok (if q = [] then Some j else Some (last q))"
    using Cons.prems f by (intro Cons.IH) (auto simp: pp_get_def)
  then show ?case using Cons.prems f by (subst ide_tail.simps) simp
qed

lemma ide_submit_spec:
  assumes r: "disk_ready polls hw" and q: "ide_queue s q" "distinct q" "i \<notin> set q" "length q \<le> NBUF"
    and b: "b_blockno (bufs s ! i) < FSSIZE"
  shows "\<exists>t. ide_submit polls hw i s = Ok t \<and> ide_queue t (q @ [i]) \<and> bufs t = bufs s \<and> lk t = lk s \<and> cur t = cur s \<and>
    ide_cmds (iolog (mach t)) = ide_cmds (iolog (mach s)) @ (if q = [] then [request_cmd (bufs s ! i)] else [])"
proof -
  let ?s = "s\<lparr>qnext := (qnext s)(i := None)\<rparr>"
  have c: "qchain (qnext ?s) (idequeue s) q" using q(1,3) by (subst qchain_cong [where g = "qnext s"]) auto
  then have t: "ide_tail NBUF None ?s = Ok (if q = [] then None else Some (last q))"
    using q(4) by (intro ide_tail_eq) (simp_all add: pp_get_def)
  show ?thesis
  proof (cases "q = []")
    case True
    let ?u = "?s\<lparr>idequeue := Some i\<rparr>"
    obtain m where m: "idestart polls hw (Some i) ?u = Ok (?u\<lparr>mach := m\<rparr>)"
      "ide_cmds (iolog m) = ide_cmds (iolog (mach s)) @ [request_cmd (bufs s ! i)]"
      using idestart_spec [OF r, where s = ?u and i = i] b by auto
    then show ?thesis using t True by (auto simp: ide_submit_def pp_set_def)
  next
    case False
    have "idequeue s = Some (hd q)" "hd q \<noteq> i" using q(1,3) False by (cases q; auto)+
    then show ?thesis using t False qchain_snoc [OF q(1-3) False] by (auto simp: ide_submit_def pp_set_def)
  qed
qed

lemma upd_buf_id [simp]: "upd_buf i (\<lambda>b. b) s = s" "upd_buf i id s = s"
  by (simp_all add: upd_buf_def upd_ix_def)

lemma ide_read_spec:
  assumes "disk_ready polls hw"
  shows "\<exists>m f. ide_read polls hw i s = Ok (upd_buf i f (s\<lparr>mach := m\<rparr>)) \<and>
    ide_cmds (iolog m) = ide_cmds (iolog (mach s)) \<and> (\<forall>b. b_flags (f b) = b_flags b)"
proof (cases "b_flags (bufs s ! i) AND B_DIRTY = 0")
  case True
  obtain r m where w: "idewait polls hw True s = Ok (r, s\<lparr>mach := m\<rparr>)" "ide_cmds (iolog m) = ide_cmds (iolog (mach s))"
    using idewait_ready [OF assms] by metis
  show ?thesis
  proof (cases "r <s 0")
    case neg: True
    then show ?thesis using True w by (intro exI [of _ m] exI [of _ id]) (simp add: ide_read_def)
  next
    case False
    let ?bs = "in_sl hw (iolog m) 0x1f0"
    have "ide_cmds (iolog m @ [Insl 0x1f0 ?bs]) = ide_cmds (iolog m)"
      by (cases "fold ide_decode (iolog m) (\<lambda>_. 0, [])") (simp add: ide_cmds_def)
    then show ?thesis using True w False
      by (intro exI [of _ "m\<lparr>iolog := iolog m @ [Insl 0x1f0 ?bs]\<rparr>"] exI [of _ "\<lambda>b. b\<lparr>b_data := ?bs\<rparr>"]) (simp add: ide_read_def insl_def Let_def)
  qed
next
  case False
  then show ?thesis by (intro exI [of _ "mach s"] exI [of _ id]) (simp add: ide_read_def)
qed

lemma wakeup1_ide [simp]:
  "idequeue (wakeup1 ch s) = idequeue s" "qnext (wakeup1 ch s) = qnext s" "bufs (wakeup1 ch s) = bufs s"
  "mach (wakeup1 ch s) = mach s" "cur (wakeup1 ch s) = cur s"
  for s :: "'a kide_scheme"
  by (simp_all add: wakeup1_def)

lemma ideintr_spec:
  assumes r: "disk_ready polls hw" and s: "quiet s" and q: "ide_queue s (i # q)" and i: "i < length (bufs s)"
    and b: "\<And>j. j \<in> set q \<Longrightarrow> b_blockno (bufs s ! j) < FSSIZE" and d: "i \<notin> set q"
  shows "\<exists>t. ideintr polls hw s = Ok t \<and> ide_queue t q \<and> lk t = lk s \<and> cur t = cur s \<and> length (bufs t) = length (bufs s) \<and>
    (\<forall>j. j \<noteq> i \<longrightarrow> bufs t ! j = bufs s ! j) \<and>
    b_flags (bufs t ! i) = (b_flags (bufs s ! i) OR B_VALID) AND NOT B_DIRTY \<and>
    ide_cmds (iolog (mach t)) = ide_cmds (iolog (mach s)) @ map (\<lambda>j. request_cmd (bufs s ! j)) (take 1 q)"
proof -
  let ?a = "acquired L_idelock (lk s)"
  let ?s = "s\<lparr>lk := ?a, idequeue := qnext s i\<rparr>"
  have head: "idequeue s = Some i" and tl: "qchain (qnext s) (qnext s i) q" using q by auto
  obtain m1 f where x: "ide_read polls hw i ?s = Ok (upd_buf i f (?s\<lparr>mach := m1\<rparr>))"
    and m1: "ide_cmds (iolog m1) = ide_cmds (iolog (mach s))" and f: "\<forall>b. b_flags (f b) = b_flags b"
    using ide_read_spec [OF r, where s = ?s and i = i] by auto
  let ?g = "\<lambda>b. (f b)\<lparr>b_flags := (b_flags b OR B_VALID) AND NOT B_DIRTY\<rparr>"
  define u where "u = (upd_buf i ?g s)\<lparr>idequeue := qnext s i, mach := m1\<rparr>"
  have u: "upd_buf i (\<lambda>b. b\<lparr>b_flags := b_flags b AND NOT B_DIRTY\<rparr>) (upd_buf i (\<lambda>b. b\<lparr>b_flags := b_flags b OR B_VALID\<rparr>)
    (upd_buf i f (?s\<lparr>mach := m1\<rparr>))) = u\<lparr>lk := ?a\<rparr>"
    using f by (simp add: u_def upd_buf_def comp_def)
  define v where "v = wakeup1 (Some (C_buf i)) u"
  have w: "wakeup (C_buf i) (u\<lparr>lk := ?a\<rparr>) = Ok (v\<lparr>lk := ?a\<rparr>)" unfolding v_def by (rule wakeup_locked [OF s]) simp
  have vs: "idequeue v = qnext s i" "qnext v = qnext s" "bufs v = upd_ix i ?g (bufs s)" "mach v = m1" "cur v = cur s"
    by (simp_all add: v_def u_def upd_buf_def)
  have step: "ideintr polls hw s =
    rbind (if idequeue v \<noteq> None then idestart polls hw (idequeue v) (v\<lparr>lk := ?a\<rparr>) else Ok (v\<lparr>lk := ?a\<rparr>)) (krelease L_idelock)"
    using s head x u w by (simp add: ideintr_def quiet_kacquire Let_def del: upd_buf_upd_buf)
  have other: "\<And>j. j \<noteq> i \<Longrightarrow> bufs v ! j = bufs s ! j" "b_flags (bufs v ! i) = (b_flags (bufs s ! i) OR B_VALID) AND NOT B_DIRTY"
    using i vs(3) by simp_all
  show ?thesis
  proof (cases q)
    case Nil
    then have "idequeue v = None" using tl vs(1) by simp
    then have "ideintr polls hw s = Ok (v\<lparr>lk := lk s\<rparr>)" using step quiet_krelease [OF s] by simp
    then show ?thesis using Nil vs other m1 \<open>idequeue v = None\<close> by simp
  next
    case (Cons j q')
    have j: "j \<noteq> i" "idequeue v = Some j" "qchain (qnext v) (qnext v j) q'" using Cons tl vs d by auto
    obtain m where m: "idestart polls hw (Some j) (v\<lparr>lk := ?a\<rparr>) = Ok (v\<lparr>lk := ?a, mach := m\<rparr>)"
      "ide_cmds (iolog m) = ide_cmds (iolog m1) @ [request_cmd (bufs s ! j)]"
      using idestart_spec [OF r, where s = "v\<lparr>lk := ?a\<rparr>" and i = j] b [of j] Cons j other(1) [of j] vs by auto
    have "ideintr polls hw s = Ok (v\<lparr>mach := m, lk := lk s\<rparr>)"
      using step m(1) j(2) quiet_krelease [OF s, where t = "v\<lparr>mach := m\<rparr>" and l = L_idelock] by (cases v) simp
    then show ?thesis using Cons vs other m1 m(2) j by simp
  qed
qed

section \<open>Properties\<close>

text \<open>\<open>Req i\<close> is \<open>iderw\<close> for buffer \<open>i\<close> up to its sleep, which gives up the lock; \<open>Intr\<close> is a disk interrupt.\<close>

datatype ide_op = Req nat | Intr

fun ide_run :: "nat \<Rightarrow> iohw \<Rightarrow> ide_op list \<Rightarrow> 'a kide_scheme \<Rightarrow> 'a kide_scheme res" where
  "ide_run polls hw [] s = Ok s"
| "ide_run polls hw (Req i # ops) s =
     rbind (kacquire L_idelock s) (\<lambda>s.
     rbind (ide_submit polls hw i s) (\<lambda>s.
     rbind (krelease L_idelock s) (ide_run polls hw ops)))"
| "ide_run polls hw (Intr # ops) s = rbind (ideintr polls hw s) (ide_run polls hw ops)"

fun reqs :: "ide_op list \<Rightarrow> nat list" where
  "reqs [] = []"
| "reqs (Req i # ops) = i # reqs ops"
| "reqs (Intr # ops) = reqs ops"

text \<open>The queue after some operations.\<close>

fun q_after :: "ide_op list \<Rightarrow> nat list \<Rightarrow> nat list" where
  "q_after [] q = q"
| "q_after (Req i # ops) q = q_after ops (q @ [i])"
| "q_after (Intr # ops) q = q_after ops (tl q)"

lemma ide_req_spec:
  assumes r: "disk_ready polls hw" and s: "quiet s" and q: "ide_queue s q" "distinct q" "i \<notin> set q" "length q \<le> NBUF"
    and b: "b_blockno (bufs s ! i) < FSSIZE"
  shows "\<exists>t. rbind (kacquire L_idelock s) (\<lambda>s. rbind (ide_submit polls hw i s) (krelease L_idelock)) = Ok t \<and>
    ide_queue t (q @ [i]) \<and> bufs t = bufs s \<and> lk t = lk s \<and> cur t = cur s \<and>
    ide_cmds (iolog (mach t)) = ide_cmds (iolog (mach s)) @ (if q = [] then [request_cmd (bufs s ! i)] else [])"
proof -
  let ?s = "s\<lparr>lk := acquired L_idelock (lk s)\<rparr>"
  obtain t where t: "ide_submit polls hw i ?s = Ok t" "ide_queue t (q @ [i])" "bufs t = bufs s" "lk t = acquired L_idelock (lk s)" "cur t = cur s"
    "ide_cmds (iolog (mach t)) = ide_cmds (iolog (mach s)) @ (if q = [] then [request_cmd (bufs s ! i)] else [])"
    using ide_submit_spec [OF r, where s = ?s and q = q and i = i] q b by auto
  have "t = t\<lparr>lk := acquired L_idelock (lk s)\<rparr>" using t(4) by (cases t) simp
  then have "krelease L_idelock t = Ok (t\<lparr>lk := lk s\<rparr>)" using quiet_krelease [OF s, of L_idelock t] by metis
  then show ?thesis using t s by (simp add: quiet_kacquire)
qed

lemma ideintr_empty: "quiet s \<Longrightarrow> idequeue s = None \<Longrightarrow> ideintr polls hw s = Ok s"
  using quiet_krelease [of s L_idelock s] lk_update_id [of s "lk s"] by (simp add: ideintr_def quiet_kacquire)

lemma bit_flag: "bit B_VALID n \<longleftrightarrow> n = 1" "bit B_DIRTY n \<longleftrightarrow> n = 2"
proof -
  have v: "B_VALID = push_bit 1 1" and d: "B_DIRTY = push_bit 2 1" by (simp_all add: B_VALID_def B_DIRTY_def)
  show "bit B_VALID n \<longleftrightarrow> n = 1" unfolding v bit_push_bit_iff bit_1_iff by auto
  show "bit B_DIRTY n \<longleftrightarrow> n = 2" unfolding d bit_push_bit_iff bit_1_iff by auto
qed

lemma flags_done: "((x OR B_VALID) AND NOT B_DIRTY) AND (B_VALID OR B_DIRTY) = B_VALID" for x :: u32
  by (rule bit_word_eqI) (auto simp: bit_simps bit_flag)

definition ide_done_flags :: "buf \<Rightarrow> bool" where
  "ide_done_flags b \<longleftrightarrow> b_flags b AND (B_VALID OR B_DIRTY) = B_VALID"

text \<open>What some operations do to a queue \<open>q\<close>: with requests \<open>rs\<close> they serve \<open>dn\<close> and leave \<open>q'\<close>.\<close>

definition ide_served :: "'a kide_scheme \<Rightarrow> nat list \<Rightarrow> nat list \<Rightarrow> 'a kide_scheme \<Rightarrow> nat list \<Rightarrow> nat list \<Rightarrow> bool" where
  "ide_served s q rs t dn q' \<longleftrightarrow> quiet t \<and> q @ rs = dn @ q' \<and> ide_queue t q' \<and>
     (\<forall>i\<in>set dn. ide_done_flags (bufs t ! i)) \<and> (\<forall>i. i \<notin> set dn \<longrightarrow> bufs t ! i = bufs s ! i) \<and>
     ide_cmds (iolog (mach t)) = ide_cmds (iolog (mach s)) @
       map (\<lambda>i. request_cmd (bufs s ! i)) (drop (length (take 1 q)) (dn @ take 1 q'))"

lemma ide_served_req:
  assumes u: "bufs u = bufs s" "ide_cmds (iolog (mach u)) = ide_cmds (iolog (mach s)) @ (if q = [] then [request_cmd (bufs s ! i)] else [])"
    and t: "ide_served u (q @ [i]) rs t dn q'"
  shows "ide_served s q (i # rs) t dn q'"
proof -
  have l1: "length (take 1 (q @ [i])) = 1" by simp
  have T: "(q @ [i]) @ rs = dn @ q'" "ide_cmds (iolog (mach t)) = ide_cmds (iolog (mach u)) @ map (\<lambda>i. request_cmd (bufs s ! i)) (drop 1 (dn @ take 1 q'))"
    using t [unfolded ide_served_def l1 u(1)] by blast+
  have E: "(if q = [] then [i] else []) @ drop 1 (dn @ take 1 q') = drop (length (take 1 q)) (dn @ take 1 q')"
  proof (cases q)
    case Nil
    then show ?thesis using T(1) by (cases dn; cases q') auto
  qed simp
  have "ide_cmds (iolog (mach t)) = ide_cmds (iolog (mach s)) @ map (\<lambda>i. request_cmd (bufs s ! i)) (drop (length (take 1 q)) (dn @ take 1 q'))"
    unfolding T(2) u(2) E [symmetric] by simp
  then show ?thesis using t T(1) u(1) by (simp add: ide_served_def)
qed

lemma ide_served_intr:
  assumes d: "i \<notin> set q" "i \<notin> set rs"
    and u: "\<forall>j. j \<noteq> i \<longrightarrow> bufs u ! j = bufs s ! j" "b_flags (bufs u ! i) = (b_flags (bufs s ! i) OR B_VALID) AND NOT B_DIRTY"
      "ide_cmds (iolog (mach u)) = ide_cmds (iolog (mach s)) @ map (\<lambda>j. request_cmd (bufs s ! j)) (take 1 q)"
    and t: "ide_served u q rs t dn q'"
  shows "ide_served s (i # q) rs t (i # dn) q'"
proof -
  have T: "quiet t" "q @ rs = dn @ q'" "ide_queue t q'" "\<forall>i\<in>set dn. ide_done_flags (bufs t ! i)" "\<forall>i. i \<notin> set dn \<longrightarrow> bufs t ! i = bufs u ! i"
    "ide_cmds (iolog (mach t)) = ide_cmds (iolog (mach u)) @ map (\<lambda>i. request_cmd (bufs u ! i)) (drop (length (take 1 q)) (dn @ take 1 q'))"
    using t unfolding ide_served_def by blast+
  have idn: "i \<notin> set dn" and sub: "i \<notin> set (dn @ take 1 q')"
    using T(2) d by (metis Un_iff set_append, metis Un_iff set_append in_set_takeD)
  have "bufs t ! i = bufs u ! i" using T(5) idn by blast
  then have di: "ide_done_flags (bufs t ! i)" using u(2) flags_done by (simp add: ide_done_flags_def)
  have "take 1 q @ drop (length (take 1 q)) (dn @ take 1 q') = dn @ take 1 q'" using T(2) by (cases q; cases dn; cases q') auto
  moreover have "map (\<lambda>j. request_cmd (bufs u ! j)) (drop n (dn @ take 1 q')) = map (\<lambda>j. request_cmd (bufs s ! j)) (drop n (dn @ take 1 q'))" for n
    using sub u(1) in_set_dropD [of _ n "dn @ take 1 q'"] by (intro map_cong) metis+
  ultimately have "ide_cmds (iolog (mach t)) = ide_cmds (iolog (mach s)) @ map (\<lambda>i. request_cmd (bufs s ! i)) (dn @ take 1 q')"
    using T(6) u(3) by (simp only: append_assoc map_append [symmetric])
  then show ?thesis using T u(1) di unfolding ide_served_def by auto
qed

lemma ide_run_served:
  assumes "disk_ready polls hw" "quiet s" "ide_queue s q" "distinct (q @ reqs ops)"
    "\<forall>i\<in>set (q @ reqs ops). i < NBUF \<and> i < length (bufs s) \<and> b_blockno (bufs s ! i) < FSSIZE"
  shows "\<exists>t dn. ide_run polls hw ops s = Ok t \<and> ide_served s q (reqs ops) t dn (q_after ops q)"
  using assms(2-)
proof (induction ops arbitrary: s q)
  case Nil
  then show ?case by (intro exI [of _ s] exI [of _ "[]"]) (simp add: ide_served_def)
next
  case (Cons x ops)
  show ?case
  proof (cases x)
    case (Req i)
    have i: "i \<notin> set q" "distinct q" "b_blockno (bufs s ! i) < FSSIZE" using Cons.prems Req by auto
    have "set q \<subseteq> {..<NBUF}" using Cons.prems Req by auto
    then have len: "length q \<le> NBUF" using i(2) card_mono [of "{..<NBUF}" "set q"] by (simp add: distinct_card)
    obtain u where u: "rbind (kacquire L_idelock s) (\<lambda>s. rbind (ide_submit polls hw i s) (krelease L_idelock)) = Ok u"
      "ide_queue u (q @ [i])" "bufs u = bufs s" "lk u = lk s" "cur u = cur s"
      "ide_cmds (iolog (mach u)) = ide_cmds (iolog (mach s)) @ (if q = [] then [request_cmd (bufs s ! i)] else [])"
      using ide_req_spec [OF assms(1) Cons.prems(1,2) i(2,1) len i(3)] by blast
    have run: "ide_run polls hw (x # ops) s = ide_run polls hw ops u"
      using u(1) Req by (auto simp: rbind_assoc [symmetric] rbind_Ok_iff)
    have "quiet u" using Cons.prems(1) u(4,5) quiet_cong by blast
    then obtain t dn where t: "ide_run polls hw ops u = Ok t" "ide_served u (q @ [i]) (reqs ops) t dn (q_after ops (q @ [i]))"
      using Cons.IH [OF _ u(2)] Cons.prems(3,4) Req u(3) by auto
    then show ?thesis using run ide_served_req [OF u(3,6) t(2)] Req by auto
  next
    case Intr
    show ?thesis
    proof (cases q)
      case Nil
      then have "ideintr polls hw s = Ok s" using Cons.prems(1,2) by (intro ideintr_empty) simp_all
      then show ?thesis using Cons.IH [of s "[]"] Cons.prems Nil Intr by auto
    next
      case (Cons i q1)
      have d: "i \<notin> set q1" "i \<notin> set (reqs ops)" using Cons.prems(3) Cons Intr by auto
      obtain u where u: "ideintr polls hw s = Ok u" "ide_queue u q1" "lk u = lk s" "cur u = cur s" "length (bufs u) = length (bufs s)"
        "\<forall>j. j \<noteq> i \<longrightarrow> bufs u ! j = bufs s ! j" "b_flags (bufs u ! i) = (b_flags (bufs s ! i) OR B_VALID) AND NOT B_DIRTY"
        "ide_cmds (iolog (mach u)) = ide_cmds (iolog (mach s)) @ map (\<lambda>j. request_cmd (bufs s ! j)) (take 1 q1)"
        using ideintr_spec [OF assms(1) Cons.prems(1), of i q1] Cons.prems Cons Intr d by auto
      have qu: "quiet u" using Cons.prems(1) u(3,4) quiet_cong by blast
      have ok: "\<forall>j\<in>set (q1 @ reqs ops). j < NBUF \<and> j < length (bufs u) \<and> b_blockno (bufs u ! j) < FSSIZE"
        using Cons.prems(4) Cons Intr u(5,6) d by auto
      obtain t dn where t: "ide_run polls hw ops u = Ok t" "ide_served u q1 (reqs ops) t dn (q_after ops q1)"
        using Cons.IH [OF qu u(2) _ ok] Cons.prems(3) Cons Intr by auto
      then show ?thesis using u(1) ide_served_intr [OF d u(6-8) t(2)] Cons Intr by auto
    qed
  qed
qed

text \<open>C16. The disk queue is first in, first out, with one request at the disk at a time. For any sequence of
  requests and interrupts, the buffers that are done are the first of those queued and requested, in that
  order, with their data valid and nothing left to write; the rest are on the queue, untouched; and the
  commands the disk has received, read off the port writes, are exactly the requests that are done and the one
  at the head of the queue, each once, in order, with the command, drive and sector of its buffer.\<close>

theorem ide_fifo:
  assumes "disk_ready polls hw" "quiet s" "ide_queue s q" "distinct (q @ reqs ops)"
    "\<forall>i\<in>set (q @ reqs ops). i < NBUF \<and> i < length (bufs s) \<and> b_blockno (bufs s ! i) < FSSIZE"
  shows "\<exists>t dn. ide_run polls hw ops s = Ok t \<and> quiet t \<and> q @ reqs ops = dn @ q_after ops q \<and> ide_queue t (q_after ops q) \<and>
    (\<forall>i\<in>set dn. ide_done_flags (bufs t ! i)) \<and> (\<forall>i. i \<notin> set dn \<longrightarrow> bufs t ! i = bufs s ! i) \<and>
    ide_cmds (iolog (mach t)) = ide_cmds (iolog (mach s)) @
      map (\<lambda>i. request_cmd (bufs s ! i)) (drop (length (take 1 q)) (dn @ take 1 (q_after ops q)))"
  using ide_run_served [OF assms] unfolding ide_served_def by blast

definition ide_hw0 :: iohw where
  "ide_hw0 = \<lparr>in_b = (\<lambda>_ _. IDE_DRDY), in_sl = (\<lambda>_ _. replicate BSIZE 0), in_m = (\<lambda>_ _. 0)\<rparr>"

definition mach0 :: mach where
  "mach0 = \<lparr>iolog = [], irqmask = irqmask0, lapic = 0, ismp = False, ncpu = 1, apicids = (\<lambda>_. 0), ioapicid = 0\<rparr>"

definition kide0 :: kide where
  "kide0 = kbio.extend (kslp.extend kslp0 (kbio.fields
     (replicate (NBUF + 1) \<lparr>b_flags = 0, b_dev = 1, b_blockno = 7, b_refcnt = 1, b_prev = 0, b_next = 0, b_data = []\<rparr>)
     (\<lambda>_. replicate 512 0) 1000 [])) (kide.fields mach0 (\<lambda>_. None) None True)"

lemma kide0_simps:
  "quiet kide0" "idequeue kide0 = None" "iolog (mach kide0) = []"
  "bufs kide0 = replicate (NBUF + 1) \<lparr>b_flags = 0, b_dev = 1, b_blockno = 7, b_refcnt = 1, b_prev = 0, b_next = 0, b_data = []\<rparr>"
  using quiet_kslp0 by (simp_all add: kide0_def kbio.defs kide.defs kslp.defs kproc.defs kslp0_def quiet_def mach0_def kproc0_def kmem.defs kmem0_def kern0_def kern.defs)

lemma ide_hw0_ready: "disk_ready 1 ide_hw0"
proof -
  have "IDE_DRDY AND (IDE_BSY OR IDE_DRDY) = IDE_DRDY" by (simp add: IDE_DRDY_def IDE_BSY_def)
  then show ?thesis by (simp add: disk_ready_def ide_hw0_def inb_def Let_def)
qed

theorem ide_fifo_witness:
  "\<exists>t. ide_run 1 ide_hw0 [Req 0, Req 1, Intr] kide0 = Ok t \<and> ide_queue t [1] \<and> ide_done_flags (bufs t ! 0) \<and>
    ide_cmds (iolog (mach t)) = [(IDE_CMD_READ, 1, 7), (IDE_CMD_READ, 1, 7)]"
proof -
  have "\<forall>i\<in>set ([] @ reqs [Req 0, Req 1, Intr]). i < NBUF \<and> i < length (bufs kide0) \<and> b_blockno (bufs kide0 ! i) < FSSIZE"
    by (simp add: kide0_simps NBUF_def FSSIZE_def)
  from ide_fifo [OF ide_hw0_ready kide0_simps(1) _ _ this] obtain t dn where
    t: "ide_run 1 ide_hw0 [Req 0, Req 1, Intr] kide0 = Ok t" "[0, 1] = dn @ [1]" "ide_queue t [1]" "\<forall>i\<in>set dn. ide_done_flags (bufs t ! i)"
    "ide_cmds (iolog (mach t)) = ide_cmds (iolog (mach kide0)) @ map (\<lambda>i. request_cmd (bufs kide0 ! i)) (dn @ [1])"
    by (auto simp: kide0_simps(2))
  have "dn = [0]" using t(2) by (cases dn) auto
  moreover have "ide_cmds [] = []" by (simp add: ide_cmds_def)
  ultimately show ?thesis using t by (auto simp: kide0_simps(3,4) request_cmd_def NBUF_def)
qed

end
