(* ===== verification/Mkfs.thy ===== *)
theory Mkfs
  imports Fs
begin

text \<open>
  mkfs.c: the program that builds the initial file system image on the host. The image is a list of
  blocks of which the first \<open>nsect\<close> exist; the host is little-endian, and its file system works:
  only reading beyond the end of the image fails. A failed assertion and a message with exit are
  \<open>Panic\<close>. The files to store are their names and the chunks that successive reads return.
\<close>

section \<open>Layout of the disk\<close>

definition NINODES :: nat where "NINODES = 200"

definition fssize :: nat where "fssize = 1000"

definition nbitmap :: nat where "nbitmap = fssize div (BSIZE * 8) + 1"

definition ninodeblocks :: nat where "ninodeblocks = NINODES div IPB + 1"

definition nlog :: nat where "nlog = LOGSIZE"

definition nmeta :: nat where "nmeta = 2 + nlog + ninodeblocks + nbitmap"

record mkst =
  img :: "u32 \<Rightarrow> block"
  nsect :: u32
  freeinode :: u32
  freeblock :: u32

text \<open>The conversions write the bytes in Intel order into a variable and return it.\<close>

definition xshort :: "u16 \<Rightarrow> u16" where
  "xshort x = get16 (put16 [0, 0] 0 x) 0"

definition xint :: "u32 \<Rightarrow> u32" where
  "xint x = get32 (put32 [0, 0, 0, 0] 0 x) 0"

definition mksb :: superblock where
  "mksb = \<lparr>sb_size = xint (of_nat fssize), sb_nblocks = xint (of_nat (fssize - nmeta)), sb_ninodes = xint (of_nat NINODES),
     sb_nlog = xint (of_nat nlog), sb_logstart = xint 2, sb_inodestart = xint (of_nat (2 + nlog)),
     sb_bmapstart = xint (of_nat (2 + nlog + ninodeblocks))\<rparr>"

section \<open>Sectors and inodes\<close>

definition wsect :: "u32 \<Rightarrow> block \<Rightarrow> mkst \<Rightarrow> mkst" where
  "wsect sec b s = s\<lparr>img := (img s)(sec := b), nsect := max (nsect s) (sec + 1)\<rparr>"

definition rsect :: "u32 \<Rightarrow> mkst \<Rightarrow> block res" where
  "rsect sec s = (if sec < nsect s then Ok (img s sec) else Panic ''read'')"

text \<open>\<open>bzero(&din, sizeof(din))\<close>; the fields of the in-memory inode are not used.\<close>

definition din0 :: inode where
  "din0 = \<lparr>i_dev = 0, i_inum = 0, i_ref = 0, i_flags = 0, i_type = 0, i_major = 0, i_minor = 0, i_nlink = 0, i_size = 0,
     i_addrs = replicate (NDIRECT + 1) 0\<rparr>"

definition winode :: "u32 \<Rightarrow> inode \<Rightarrow> mkst \<Rightarrow> mkst res" where
  "winode inum ip s =
     (let bn = IBLOCK inum mksb
      in rbind (rsect bn s) (\<lambda>buf. Ok (wsect bn (put_dinode ip (dinode_off inum) buf) s)))"

definition rinode :: "u32 \<Rightarrow> mkst \<Rightarrow> inode res" where
  "rinode inum s =
     (let bn = IBLOCK inum mksb
      in rbind (rsect bn s) (\<lambda>buf. Ok (get_dinode buf (dinode_off inum) din0)))"

definition mk_ialloc :: "u16 \<Rightarrow> mkst \<Rightarrow> (u32 \<times> mkst) res" where
  "mk_ialloc type s =
     (let inum = freeinode s;
          s = s\<lparr>freeinode := freeinode s + 1\<rparr>;
          din = din0\<lparr>i_type := xshort type, i_nlink := xshort 1, i_size := xint 0\<rparr>
      in rbind (winode inum din s) (\<lambda>s. Ok (inum, s)))"

section \<open>Appending to a file\<close>

text \<open>A new block.\<close>

definition takeblock :: "mkst \<Rightarrow> u32 \<times> mkst" where
  "takeblock s = (xint (freeblock s), s\<lparr>freeblock := freeblock s + 1\<rparr>)"

text \<open>The disk block of block \<open>fbn\<close> of a file, allocated if need be.\<close>

definition mk_bmap :: "nat \<Rightarrow> inode \<Rightarrow> mkst \<Rightarrow> (u32 \<times> inode \<times> mkst) res" where
  "mk_bmap fbn din s =
     (if fbn < NDIRECT
      then let (din, s) = (if xint (i_addrs din ! fbn) = 0
                           then let (b, s) = takeblock s in (din\<lparr>i_addrs := (i_addrs din)[fbn := b]\<rparr>, s) else (din, s))
           in Ok (xint (i_addrs din ! fbn), din, s)
      else let (din, s) = (if xint (i_addrs din ! NDIRECT) = 0
                           then let (b, s) = takeblock s in (din\<lparr>i_addrs := (i_addrs din)[NDIRECT := b]\<rparr>, s) else (din, s));
               ib = xint (i_addrs din ! NDIRECT); k = 4 * (fbn - NDIRECT)
           in rbind (rsect ib s) (\<lambda>indirect.
              let (indirect, s) = (if get32 indirect k = 0
                                   then let (b, s) = takeblock s; indirect = put32 indirect k b in (indirect, wsect ib indirect s)
                                   else (indirect, s))
              in Ok (xint (get32 indirect k), din, s)))"

function iappend_loop :: "inode \<Rightarrow> u32 \<Rightarrow> u8 list \<Rightarrow> mkst \<Rightarrow> (inode \<times> u32 \<times> mkst) res" where
  "iappend_loop din off p s =
     (if p = [] then Ok (din, off, s)
      else let fbn = unat off div BSIZE
           in if \<not> fbn < MAXFILE then Panic ''assert''
              else rbind (mk_bmap fbn din s) (\<lambda>(x, din, s).
                   let n1 = min (length p) ((fbn + 1) * BSIZE - unat off)
                   in rbind (rsect x s) (\<lambda>buf.
                      iappend_loop din (off + of_nat n1) (drop n1 p)
                        (wsect x (splice buf (unat off - fbn * BSIZE) (take n1 p)) s))))"
  by pat_completeness auto
termination
proof (relation "measure (\<lambda>(din, off, p, s). length p)")
  fix din :: inode and off :: u32 and p :: "u8 list" and s fbn n1 and x :: "u32 \<times> inode \<times> mkst" and xa y and y' :: mkst and buf :: block
  assume p: "p \<noteq> []" and f: "fbn = unat off div BSIZE" and n: "n1 = min (length p) ((fbn + 1) * BSIZE - unat off)"
  have "unat off < BSIZE + BSIZE * (unat off div BSIZE)" by (rule dividend_less_times_div) (simp add: BSIZE_def)
  then have "0 < n1" using p n f by (simp add: algebra_simps)
  then show "((y, off + of_nat n1, drop n1 p, wsect xa (splice buf (unat off - fbn * BSIZE) (take n1 p)) y'), din, off, p, s)
    \<in> measure (\<lambda>(din, off, p, s). length p)" using p by simp
qed simp

declare iappend_loop.simps [simp del]

definition iappend :: "u32 \<Rightarrow> u8 list \<Rightarrow> mkst \<Rightarrow> mkst res" where
  "iappend inum p s =
     rbind (rinode inum s) (\<lambda>din.
     rbind (iappend_loop din (xint (i_size din)) p s) (\<lambda>(din, off, s).
     winode inum (din\<lparr>i_size := xint off\<rparr>) s))"

section \<open>The whole image\<close>

definition mk_balloc :: "nat \<Rightarrow> mkst \<Rightarrow> mkst res" where
  "mk_balloc n s =
     (if \<not> n < BSIZE * 8 then Panic ''assert''
      else let buf = fold (\<lambda>i buf. buf[i div 8 := buf ! (i div 8) OR push_bit (i mod 8) 1]) [0..<n] (replicate BSIZE 0)
           in Ok (wsect (sb_bmapstart mksb) buf s))"

text \<open>A directory entry; \<open>name\<close> is cut to DIRSIZ bytes and padded with zeros.\<close>

definition image_dirent :: "u32 \<Rightarrow> u8 list \<Rightarrow> u8 list" where
  "image_dirent inum name = put16 [0, 0] 0 (xshort (ucast inum)) @ take DIRSIZ (name @ replicate DIRSIZ 0)"

definition sb_bytes :: block where
  "sb_bytes = put32s (replicate BSIZE 0) 0
     [sb_size mksb, sb_nblocks mksb, sb_ninodes mksb, sb_nlog mksb, sb_logstart mksb, sb_inodestart mksb, sb_bmapstart mksb]"

text \<open>\<open>None\<close> is a file that cannot be opened. A read returns at most BSIZE bytes; the chunks are what the
  reads return before the end of the file.\<close>

definition mk_file :: "u32 \<Rightarrow> u8 list \<times> u8 list list option \<Rightarrow> mkst \<Rightarrow> mkst res" where
  "mk_file rootino f s =
     (let (argvi, content) = f
      in if 47 \<in> set argvi then Panic ''assert''
         else case content of
                None \<Rightarrow> Panic ''open''
              | Some chunks \<Rightarrow>
                  let name = (if argvi \<noteq> [] \<and> hd argvi = 95 then tl argvi else argvi)
                  in rbind (mk_ialloc T_FILE s) (\<lambda>(inum, s).
                     rbind (iappend rootino (image_dirent inum name) s) (\<lambda>s.
                     rfold (iappend inum) chunks s)))"

definition mkfs :: "(u8 list \<times> u8 list list option) list \<Rightarrow> mkst res" where
  "mkfs files =
     (let s = \<lparr>img = (\<lambda>_. []), nsect = 0, freeinode = 1, freeblock = of_nat nmeta\<rparr>;
          s = fold (\<lambda>i. wsect (of_nat i) (replicate BSIZE 0)) [0..<fssize] s;
          s = wsect 1 sb_bytes s
      in rbind (mk_ialloc T_DIR s) (\<lambda>(rootino, s).
         if rootino \<noteq> ROOTINO then Panic ''assert''
         else rbind (iappend rootino (image_dirent rootino (bytes ''.'')) s) (\<lambda>s.
              rbind (iappend rootino (image_dirent rootino (bytes ''..'')) s) (\<lambda>s.
              rbind (rfold (mk_file rootino) files s) (\<lambda>s.
              rbind (rinode rootino s) (\<lambda>din.
              let off = (xint (i_size din) div of_nat BSIZE + 1) * of_nat BSIZE
              in rbind (winode rootino (din\<lparr>i_size := xint off\<rparr>) s) (\<lambda>s.
                 mk_balloc (unat (freeblock s)) s)))))))"

section \<open>Files of the image\<close>

lemma xint_id [simp]: "xint x = x" and xshort_id [simp]: "xshort y = y"
  by (simp_all add: xint_def xshort_def)

text \<open>Block \<open>f\<close> of the file of a disk inode.\<close>

definition maddr :: "mkst \<Rightarrow> inode \<Rightarrow> nat \<Rightarrow> u32" where
  "maddr s din f = (if f < 12 then i_addrs din ! f else get32 (img s (i_addrs din ! 12)) (4 * (f - 12)))"

text \<open>The data blocks of a file of \<open>n\<close> blocks, and its indirect block.\<close>

definition mblocks :: "mkst \<Rightarrow> inode \<Rightarrow> nat \<Rightarrow> u32 set" where
  "mblocks s din n = maddr s din ` {..<n} \<union> (if 12 < n then {i_addrs din ! 12} else {})"

definition mcontents :: "mkst \<Rightarrow> inode \<Rightarrow> nat \<Rightarrow> u8 list" where
  "mcontents s din off = map (\<lambda>i. img s (maddr s din (i div 512)) ! (i mod 512)) [0..<off]"

text \<open>The image under construction: blocks from \<open>freeblock\<close> on are still zero.\<close>

definition mok :: "mkst \<Rightarrow> bool" where
  "mok s \<longleftrightarrow> nsect s = 1000 \<and> 59 \<le> freeblock s \<and> freeblock s \<le> 1000 \<and> (\<forall>b<1000. length (img s b) = 512) \<and>
     (\<forall>b. freeblock s \<le> b \<and> b < 1000 \<longrightarrow> img s b = replicate 512 0)"

definition in_data :: "mkst \<Rightarrow> u32 \<Rightarrow> bool" where
  "in_data s b \<longleftrightarrow> 59 \<le> b \<and> b < freeblock s"

definition fmap :: "mkst \<Rightarrow> inode \<Rightarrow> nat \<Rightarrow> bool" where
  "fmap s din n \<longleftrightarrow> length (i_addrs din) = 13 \<and> n \<le> 140 \<and> (\<forall>f<n. in_data s (maddr s din f)) \<and> inj_on (maddr s din) {..<n} \<and>
     (\<forall>f. n \<le> f \<and> f < 12 \<longrightarrow> i_addrs din ! f = 0) \<and>
     (if 12 < n then in_data s (i_addrs din ! 12) \<and> i_addrs din ! 12 \<notin> maddr s din ` {..<n} \<and>
        (\<forall>f. n \<le> f \<and> f < 140 \<longrightarrow> maddr s din f = 0)
      else i_addrs din ! 12 = 0)"

lemma mokD:
  assumes "mok s"
  shows "nsect s = 1000" "59 \<le> unat (freeblock s)" "unat (freeblock s) \<le> 1000" "\<And>b. b < 1000 \<Longrightarrow> length (img s b) = 512"
    "\<And>b. freeblock s \<le> b \<Longrightarrow> b < 1000 \<Longrightarrow> img s b = replicate 512 0"
  using assms by (auto simp: mok_def word_le_nat_alt)

lemma get32_zero: "k + 4 \<le> 512 \<Longrightarrow> get32 (replicate 512 0) k = 0"
  by (simp add: get32_def)

lemma unat_next: "unat (b :: u32) < 1000 \<Longrightarrow> unat (b + 1) = unat b + 1"
  by (subst unat_add_u32) simp_all

lemma mbmap_hit:
  assumes "mok s" "fmap s din n" "f < n"
  shows "mk_bmap f din s = Ok (maddr s din f, din, s)"
proof -
  have d: "in_data s (maddr s din f)" "12 < n \<Longrightarrow> in_data s (i_addrs din ! 12)" using assms(2,3) by (auto simp: fmap_def)
  then have nz: "maddr s din f \<noteq> 0" by (auto simp: in_data_def)
  show ?thesis
  proof (cases "f < 12")
    case True
    then show ?thesis using nz by (simp add: mk_bmap_def NDIRECT_def maddr_def)
  next
    case False
    then have i: "in_data s (i_addrs din ! 12)" using d(2) assms(3) by simp
    then have "i_addrs din ! 12 \<noteq> 0" "i_addrs din ! 12 < nsect s"
      using mokD(1,3) [OF assms(1)] by (auto simp: in_data_def word_less_nat_alt word_le_nat_alt)
    then show ?thesis using nz False by (simp add: mk_bmap_def NDIRECT_def maddr_def rsect_def Let_def)
  qed
qed

text \<open>What allocating block \<open>n\<close> of a file of \<open>n\<close> blocks leaves.\<close>

definition grown :: "mkst \<Rightarrow> inode \<Rightarrow> nat \<Rightarrow> u32 \<Rightarrow> inode \<Rightarrow> mkst \<Rightarrow> bool" where
  "grown s din n x din1 s1 \<longleftrightarrow> mok s1 \<and> fmap s1 din1 (Suc n) \<and> maddr s1 din1 n = x \<and> (\<forall>g<n. maddr s1 din1 g = maddr s din g) \<and>
     freeblock s \<le> x \<and> x < freeblock s1 \<and> unat (freeblock s1) \<le> unat (freeblock s) + (if n = 12 then 2 else 1) \<and>
     freeinode s1 = freeinode s \<and> (\<exists>as. din1 = din\<lparr>i_addrs := as\<rparr>) \<and> (12 < n \<longrightarrow> i_addrs din1 ! 12 = i_addrs din ! 12) \<and>
     (n = 12 \<longrightarrow> freeblock s \<le> i_addrs din1 ! 12 \<and> i_addrs din1 ! 12 < freeblock s1) \<and>
     (\<forall>b. \<not> (12 \<le> n \<and> b = i_addrs din1 ! 12) \<longrightarrow> img s1 b = img s b)"

lemma grown_direct:
  assumes ok: "mok s" "fmap s din n" and n: "n < 12" "unat (freeblock s) + 2 \<le> 1000"
  shows "\<exists>x din1 s1. mk_bmap n din s = Ok (x, din1, s1) \<and> grown s din n x din1 s1"
proof -
  let ?b = "freeblock s"
  let ?din = "din\<lparr>i_addrs := (i_addrs din)[n := ?b]\<rparr>" and ?s = "s\<lparr>freeblock := ?b + 1\<rparr>"
  have F: "length (i_addrs din) = 13" "i_addrs din ! n = 0" "i_addrs din ! 12 = 0" "\<And>f. f < n \<Longrightarrow> in_data s (maddr s din f)"
    "inj_on (maddr s din) {..<n}" "\<And>f. n \<le> f \<Longrightarrow> f < 12 \<Longrightarrow> i_addrs din ! f = 0"
    using ok(2) n(1) by (auto simp: fmap_def)
  have m: "mk_bmap n din s = Ok (?b, ?din, ?s)" using n(1) F by (simp add: mk_bmap_def NDIRECT_def takeblock_def)
  have u: "unat (?b + 1) = unat ?b + 1" using n(2) by (intro unat_next) simp
  have a: "maddr ?s ?din n = ?b" "\<And>g. g < n \<Longrightarrow> maddr ?s ?din g = maddr s din g" using n(1) F(1) by (simp_all add: maddr_def)
  have lt: "in_data ?s b" if "in_data s b" for b using that u by (auto simp: in_data_def word_less_nat_alt)
  have bd: "in_data ?s ?b" using u mokD(2) [OF ok(1)] by (simp add: in_data_def word_less_nat_alt word_le_nat_alt)
  have nb: "maddr s din f \<noteq> ?b" if "f < n" for f using F(4) [OF that] by (auto simp: in_data_def)
  have "mok ?s" using ok(1) u n(2) by (auto simp: mok_def word_le_nat_alt)
  moreover have "inj_on (maddr ?s ?din) {..<Suc n}"
    using F(5) a nb by (auto simp: inj_on_def less_Suc_eq)
  then have "fmap ?s ?din (Suc n)" using F a n(1) lt bd by (auto simp: fmap_def less_Suc_eq nth_list_update)
  ultimately have "grown s din n ?b ?din ?s" using a u n(1) by (auto simp: grown_def word_less_nat_alt)
  then show ?thesis using m by blast
qed

lemma entry_put: "length d = 512 \<Longrightarrow> j < 128 \<Longrightarrow> get32 (put32 d (4 * j) v) (4 * i) = (if i = j then v else get32 d (4 * i))"
proof -
  assume d: "length d = 512" "j < 128"
  consider "i = j" | "i < j" | "j < i" by linarith
  then show ?thesis
  proof cases
    case 2
    then have "4 * i + 4 \<le> 4 * j" by simp
    then show ?thesis using 2 by simp
  next
    case 3
    then have "4 * j + 4 \<le> 4 * i" by simp
    then show ?thesis using 3 by simp
  qed (use d in simp)
qed

text \<open>The second half: a new block \<open>b\<close> goes into the indirect block \<open>ib\<close>, of a file whose direct blocks and
  first \<open>n - 12\<close> indirect ones are there.\<close>

lemma indirect_put:
  assumes ok: "mok s" and din: "length (i_addrs din) = 13" "i_addrs din ! 12 = ib" and n: "12 \<le> n" "n < 140"
    and ib: "in_data s ib" "ib \<notin> maddr s din ` {..<n}" and b: "unat (freeblock s) < 1000"
    and F: "\<forall>f<n. in_data s (maddr s din f)" "inj_on (maddr s din) {..<n}" "\<forall>f. n \<le> f \<and> f < 140 \<longrightarrow> maddr s din f = 0"
    and s1: "s1 = wsect ib (put32 (img s ib) (4 * (n - 12)) (freeblock s)) (s\<lparr>freeblock := freeblock s + 1\<rparr>)"
  shows "mok s1" "fmap s1 din (Suc n)" "maddr s1 din n = freeblock s" "\<And>g. g < n \<Longrightarrow> maddr s1 din g = maddr s din g"
    "\<And>c. c \<noteq> ib \<Longrightarrow> img s1 c = img s c" "freeblock s1 = freeblock s + 1" "freeinode s1 = freeinode s"
proof -
  have u: "unat (freeblock s + 1) = unat (freeblock s) + 1" using b by (intro unat_next) simp
  have ibu: "unat ib < unat (freeblock s)" "59 \<le> unat ib" using ib(1) by (auto simp: in_data_def word_less_nat_alt word_le_nat_alt)
  have ib1: "ib < 1000" using ibu b by (simp add: word_less_nat_alt)
  have len: "length (img s ib) = 512" by (rule mokD(4) [OF ok ib1])
  have nn: "max 1000 (ib + 1) = (1000 :: u32)" using unat_next [of ib] ibu b by (simp add: max_def word_le_nat_alt)
  show fb: "freeblock s1 = freeblock s + 1" "freeinode s1 = freeinode s" by (simp_all add: s1 wsect_def)
  show im: "\<And>c. c \<noteq> ib \<Longrightarrow> img s1 c = img s c" by (simp add: s1 wsect_def)
  have imb: "img s1 ib = put32 (img s ib) (4 * (n - 12)) (freeblock s)" by (simp add: s1 wsect_def)
  show "mok s1" using ok len u b ibu nn unfolding mok_def fb
    by (auto simp: s1 wsect_def word_le_nat_alt word_less_nat_alt)
  have at: "maddr s1 din g = (if g = n then freeblock s else maddr s din g)" if "g < 140" for g
    using n len that unfolding maddr_def din(2) imb by (auto simp: entry_put)
  show "maddr s1 din n = freeblock s" using at n by simp
  show ag: "\<And>g. g < n \<Longrightarrow> maddr s1 din g = maddr s din g" using at n by simp
  have lt: "in_data s1 c" if "in_data s c" for c using that u fb by (auto simp: in_data_def word_less_nat_alt)
  have bd: "in_data s1 (freeblock s)" using u fb mokD(2) [OF ok] by (simp add: in_data_def word_less_nat_alt word_le_nat_alt)
  have nb: "maddr s din f \<noteq> freeblock s" if "f < n" for f using F(1) that by (auto simp: in_data_def)
  have ibf: "ib \<noteq> freeblock s" using ibu by auto
  have "inj_on (maddr s1 din) {..<n}" using F(2) ag by (simp add: inj_on_def)
  moreover have "maddr s1 din n \<notin> maddr s1 din ` ({..<n} - {n})" using nb ag at [of n] n by force
  ultimately have "inj_on (maddr s1 din) {..<Suc n}" by (simp add: lessThan_Suc)
  moreover have "ib \<notin> maddr s1 din ` {..<Suc n}" using ib(2) at n ibf by (auto simp: less_Suc_eq)
  moreover have "in_data s1 (maddr s1 din f)" if "f < Suc n" for f using that at n F(1) lt bd by (auto simp: less_Suc_eq)
  moreover have "maddr s1 din f = 0" if "Suc n \<le> f" "f < 140" for f using that at F(3) by auto
  ultimately show "fmap s1 din (Suc n)" using din n lt ib(1) by (auto simp: fmap_def)
qed

lemma grown_indirect:
  assumes ok: "mok s" "fmap s din n" and n: "12 \<le> n" "n < 140" "unat (freeblock s) + 2 \<le> 1000"
  shows "\<exists>x din1 s1. mk_bmap n din s = Ok (x, din1, s1) \<and> grown s din n x din1 s1"
proof -
  have F: "length (i_addrs din) = 13" "\<And>f. f < n \<Longrightarrow> in_data s (maddr s din f)" "inj_on (maddr s din) {..<n}"
    using ok(2) by (auto simp: fmap_def)
  have k: "4 * (n - 12) + 4 \<le> 512" using n by simp
  show ?thesis
  proof (cases "n = 12")
    case False
    let ?ib = "i_addrs din ! 12"
    have G: "in_data s ?ib" "?ib \<notin> maddr s din ` {..<n}" "\<And>f. n \<le> f \<Longrightarrow> f < 140 \<Longrightarrow> maddr s din f = 0"
      using ok(2) n(1) False by (auto simp: fmap_def)
    define s1 where "s1 = wsect ?ib (put32 (img s ?ib) (4 * (n - 12)) (freeblock s)) (s\<lparr>freeblock := freeblock s + 1\<rparr>)"
    have "?ib \<noteq> 0" "?ib < nsect s" using G(1) mokD(1,3) [OF ok(1)] by (auto simp: in_data_def word_less_nat_alt word_le_nat_alt)
    moreover have "get32 (img s ?ib) (4 * (n - 12)) = 0" using G(3) [of n] n by (simp add: maddr_def)
    moreover have "length (img s ?ib) = 512"
      using mokD(4) [OF ok(1), of ?ib] mokD(1) [OF ok(1)] \<open>?ib < nsect s\<close> by simp
    ultimately have m: "mk_bmap n din s = Ok (freeblock s, din, s1)"
      using n k by (simp add: mk_bmap_def NDIRECT_def rsect_def takeblock_def s1_def Let_def)
    have F23: "\<forall>f<n. in_data s (maddr s din f)" "inj_on (maddr s din) {..<n}"
      and G3: "\<forall>f. n \<le> f \<and> f < 140 \<longrightarrow> maddr s din f = 0" using F(2,3) G(3) by blast+
    have "unat (freeblock s) < 1000" using n(3) by simp
    note P = indirect_put [OF ok(1) F(1) refl n(1,2) G(1,2) this F23 G3 s1_def]
    have "unat (freeblock s + 1) = unat (freeblock s) + 1" using n(3) by (intro unat_next) simp
    then have "freeblock s < freeblock s1" "unat (freeblock s1) \<le> unat (freeblock s) + (if n = 12 then 2 else 1)"
      using P(6) by (simp_all add: word_less_nat_alt)
    moreover have "din = din\<lparr>i_addrs := i_addrs din\<rparr>" by simp
    ultimately have "grown s din n (freeblock s) din s1"
      unfolding grown_def using P(1-5,7) False n(1) order_refl [of "freeblock s"] by blast
    then show ?thesis using m by blast
  next
    case True
    let ?b = "freeblock s"
    let ?din = "din\<lparr>i_addrs := (i_addrs din)[12 := ?b]\<rparr>" and ?s = "s\<lparr>freeblock := ?b + 1\<rparr>"
    have z: "i_addrs din ! 12 = 0" using ok(2) True by (simp add: fmap_def)
    have u: "unat (?b + 1) = unat ?b + 1" "unat (?b + 1 + 1) = unat ?b + 2" using n(3) unat_next [of ?b] unat_next [of "?b + 1"] by simp_all
    have b1: "?b < 1000" using n(3) by (simp add: word_less_nat_alt)
    have ze: "img s ?b = replicate 512 0" by (rule mokD(5) [OF ok(1) order_refl b1])
    have a: "maddr ?s ?din f = maddr s din f" if "f < 12" for f using that by (simp add: maddr_def)
    have a0: "maddr ?s ?din f = 0" if "12 \<le> f" "f < 140" for f using that ze F(1) by (simp add: maddr_def get32_zero)
    have oks: "mok ?s" using ok(1) u n(3) by (auto simp: mok_def word_le_nat_alt)
    have lt: "in_data ?s c" if "in_data s c" for c using that u by (auto simp: in_data_def word_less_nat_alt)
    have ib: "in_data ?s ?b" using u mokD(2) [OF ok(1)] by (simp add: in_data_def word_less_nat_alt word_le_nat_alt)
    have ne: "maddr s din f \<noteq> ?b" if "f < n" for f using F(2) [OF that] by (auto simp: in_data_def)
    have nb: "?b \<notin> maddr ?s ?din ` {..<n}" using ne True a by force
    have inj: "inj_on (maddr ?s ?din) {..<n}" using F(3) a True by (auto simp: inj_on_def)
    have dat: "\<forall>f<n. in_data ?s (maddr ?s ?din f)" using F(2) a lt True by simp
    have a1: "\<forall>f. n \<le> f \<and> f < 140 \<longrightarrow> maddr ?s ?din f = 0" using a0 True by simp
    define s1 where "s1 = wsect ?b (put32 (img ?s ?b) (4 * (n - 12)) (freeblock ?s)) (?s\<lparr>freeblock := freeblock ?s + 1\<rparr>)"
    have l13: "length (i_addrs ?din) = 13" "i_addrs ?din ! 12 = ?b" using F(1) by simp_all
    have "unat (freeblock ?s) < 1000" using u n(3) by simp
    note P = indirect_put [OF oks l13 n(1,2) ib nb this dat inj a1 s1_def]
    have m: "mk_bmap n din s = Ok (?b + 1, ?din, s1)"
      using n k True F(1) z ze b1 mokD(1) [OF ok(1)] by (simp add: mk_bmap_def NDIRECT_def rsect_def takeblock_def s1_def Let_def get32_zero)
    have fb: "freeblock s1 = ?b + 1 + 1" "freeinode s1 = freeinode s" using P(6,7) by simp_all
    have lts: "?b \<le> ?b + 1" "?b + 1 < freeblock s1" "?b < freeblock s1" "unat (freeblock s1) \<le> unat ?b + (if n = 12 then 2 else 1)"
      unfolding fb(1) using u True by (simp_all add: word_less_nat_alt word_le_nat_alt)
    have p3: "maddr s1 ?din n = ?b + 1" and p5: "\<And>c. c \<noteq> ?b \<Longrightarrow> img s1 c = img s c" using P(3,5) by simp_all
    have p4: "maddr s1 ?din g = maddr s din g" if "g < n" for g using P(4) [OF that] a [of g] that True by simp
    have "grown s din n (?b + 1) ?din s1"
      unfolding grown_def l13(2) using P(1,2) p3 p4 p5 lts fb(2) True n(1) order_refl [of ?b] by blast
    then show ?thesis using m by blast
  qed
qed

lemma mk_bmap_grows:
  assumes "mok s" "fmap s din n" "n < 140" "unat (freeblock s) + 2 \<le> 1000"
  shows "\<exists>x din1 s1. mk_bmap n din s = Ok (x, din1, s1) \<and> grown s din n x din1 s1"
  using grown_direct [OF assms(1,2)] grown_indirect [OF assms(1,2)] assms(3,4) by (cases "n < 12") auto

section \<open>Appending\<close>

definition nblk :: "nat \<Rightarrow> nat" where
  "nblk n = (n + 511) div 512"

text \<open>\<open>fresh\<close> are the blocks allocated between two states.\<close>

definition fresh :: "mkst \<Rightarrow> mkst \<Rightarrow> u32 set" where
  "fresh s s1 = {b. freeblock s \<le> b \<and> b < freeblock s1}"

definition bstep :: "mkst \<Rightarrow> inode \<Rightarrow> nat \<Rightarrow> nat \<Rightarrow> inode \<Rightarrow> mkst \<Rightarrow> bool" where
  "bstep s din n f din1 s1 \<longleftrightarrow> mok s1 \<and> fmap s1 din1 (Suc f) \<and>
     (\<forall>g<n. maddr s1 din1 g = maddr s din g \<and> img s1 (maddr s din g) = img s (maddr s din g)) \<and>
     freeblock s \<le> freeblock s1 \<and> freeinode s1 = freeinode s \<and> (\<exists>as. din1 = din\<lparr>i_addrs := as\<rparr>) \<and>
     mblocks s1 din1 (Suc f) \<subseteq> mblocks s din n \<union> fresh s s1 \<and>
     (\<forall>b<freeblock s. b \<notin> mblocks s din n \<longrightarrow> img s1 b = img s b) \<and>
     unat (freeblock s1) \<le> unat (freeblock s) + (if f < n then 0 else if n = 12 then 2 else 1) \<and>
     (n \<le> f \<longrightarrow> img s1 (maddr s1 din1 f) = replicate 512 0)"

lemma bstep_hit: "mok s \<Longrightarrow> fmap s din (Suc f) \<Longrightarrow> bstep s din (Suc f) f din s"
  by (auto simp: bstep_def intro: exI [of _ "i_addrs din"])

lemma bstep_grown:
  assumes ok: "mok s" and f: "fmap s din n" and g: "grown s din n x din1 s1"
  shows "bstep s din n n din1 s1"
proof -
  have G: "mok s1" "fmap s1 din1 (Suc n)" "maddr s1 din1 n = x" "\<And>g. g < n \<Longrightarrow> maddr s1 din1 g = maddr s din g"
    "freeblock s \<le> x" "x < freeblock s1" "12 < n \<Longrightarrow> i_addrs din1 ! 12 = i_addrs din ! 12"
    "n = 12 \<Longrightarrow> freeblock s \<le> i_addrs din1 ! 12 \<and> i_addrs din1 ! 12 < freeblock s1"
    "\<And>b. \<not> (12 \<le> n \<and> b = i_addrs din1 ! 12) \<Longrightarrow> img s1 b = img s b"
    using g unfolding grown_def by blast+
  have d: "img s1 (maddr s din h) = img s (maddr s din h)" if "h < n" for h
  proof (rule G(9))
    have "in_data s (maddr s din h)" using f that by (simp add: fmap_def)
    moreover have "12 < n \<Longrightarrow> i_addrs din ! 12 \<noteq> maddr s din h" using f that by (auto simp: fmap_def)
    ultimately show "\<not> (12 \<le> n \<and> maddr s din h = i_addrs din1 ! 12)"
      using G(7,8) by (cases "n = 12") (auto simp: in_data_def)
  qed
  have "maddr s1 din1 ` {..<n} = maddr s din ` {..<n}" using G(4) by (intro image_cong) auto
  then have "mblocks s1 din1 (Suc n) = insert x (maddr s din ` {..<n}) \<union> (if 12 \<le> n then {i_addrs din1 ! 12} else {})"
    using G(3) by (auto simp: mblocks_def lessThan_Suc)
  then have "mblocks s1 din1 (Suc n) \<subseteq> mblocks s din n \<union> fresh s s1"
    using G(5-8) by (cases "n = 12") (auto simp: mblocks_def fresh_def)
  moreover have "img s1 b = img s b" if "b < freeblock s" "b \<notin> mblocks s din n" for b
    using that G(7,8) by (intro G(9)) (cases "n = 12"; cases "12 < n"; auto simp: mblocks_def)
  moreover have "img s1 x = replicate 512 0"
  proof -
    have "12 \<le> n \<Longrightarrow> i_addrs din1 ! 12 \<noteq> x" using G(2,3) by (auto simp: fmap_def)
    then have "img s1 x = img s x" by (intro G(9)) auto
    moreover have "x < 1000" using G(6) mokD(3) [OF G(1)] by (auto simp: word_less_nat_alt)
    ultimately show ?thesis using mokD(5) [OF ok G(5)] by simp
  qed
  ultimately show ?thesis using G(1-6) d g by (auto simp: bstep_def grown_def)
qed

lemma nblk_div: "k div 512 = (if k mod 512 = 0 then nblk k else nblk k - 1)" "k mod 512 \<noteq> 0 \<Longrightarrow> nblk k = Suc (k div 512)" for k :: nat
proof -
  have e: "nblk k = k div 512 + (k mod 512 + 511) div 512" unfolding nblk_def using div_add1_eq [of k 511 512] by simp
  have "k mod 512 < 512" by simp
  then have "(k mod 512 + 511) div 512 = 1" if "k mod 512 \<noteq> 0" using that by (intro div_nat_eqI) simp_all
  then show "k div 512 = (if k mod 512 = 0 then nblk k else nblk k - 1)" "k mod 512 \<noteq> 0 \<Longrightarrow> nblk k = Suc (k div 512)"
    using e by auto
qed

lemma bmap_step:
  assumes ok: "mok s" "fmap s din (nblk k)" and k: "k div 512 < 140"
    and room: "k mod 512 = 0 \<Longrightarrow> unat (freeblock s) + 2 \<le> 1000"
  shows "\<exists>din1 s1. mk_bmap (k div 512) din s = Ok (maddr s1 din1 (k div 512), din1, s1) \<and> bstep s din (nblk k) (k div 512) din1 s1"
proof (cases "k mod 512 = 0")
  case True
  then have n: "k div 512 = nblk k" by (simp add: nblk_div(1))
  obtain x din1 s1 where m: "mk_bmap (nblk k) din s = Ok (x, din1, s1)" "grown s din (nblk k) x din1 s1"
    using mk_bmap_grows [OF ok] k room True n by auto
  have "x = maddr s1 din1 (nblk k)" using m(2) by (simp add: grown_def)
  then show ?thesis using m(1) bstep_grown [OF ok m(2)] n by auto
next
  case False
  then have n: "nblk k = Suc (k div 512)" by (rule nblk_div(2))
  then have "mk_bmap (k div 512) din s = Ok (maddr s din (k div 512), din, s)" using mbmap_hit [OF ok] by simp
  then show ?thesis using bstep_hit [OF ok(1), of din "k div 512"] ok(2) n by auto
qed

lemma wsect_data:
  assumes ok: "mok s" "fmap s din (Suc f)" and l: "length d = 512"
  defines "t \<equiv> wsect (maddr s din f) d s"
  shows "mok t" "fmap t din (Suc f)" "\<And>g. g < 140 \<Longrightarrow> maddr t din g = maddr s din g" "mblocks t din (Suc f) = mblocks s din (Suc f)"
    "img t = (img s)(maddr s din f := d)" "freeblock t = freeblock s" "freeinode t = freeinode s"
proof -
  let ?x = "maddr s din f"
  have F: "in_data s ?x" "12 < Suc f \<Longrightarrow> i_addrs din ! 12 \<noteq> ?x" "Suc f \<le> 140" using ok(2) by (auto simp: fmap_def)
  have x: "unat ?x < unat (freeblock s)" "unat (freeblock s) \<le> 1000" using F(1) mokD(3) [OF ok(1)] by (auto simp: in_data_def word_less_nat_alt)
  have "?x + 1 \<le> 1000" using unat_next [of ?x] x by (simp add: word_le_nat_alt)
  then have nn: "max 1000 (?x + 1) = (1000 :: u32)" by (rule max_absorb1)
  show im: "img t = (img s)(?x := d)" "freeblock t = freeblock s" "freeinode t = freeinode s" by (simp_all add: t_def wsect_def)
  show "mok t" using ok(1) l nn x(1) unfolding mok_def im by (auto simp: t_def wsect_def word_le_nat_alt)
  have z: "i_addrs din ! 12 = 0 \<Longrightarrow> ?x \<noteq> 0" using F(1) by (auto simp: in_data_def)
  have "i_addrs din ! 12 = 0 \<or> 12 < Suc f" using ok(2) by (auto simp: fmap_def split: if_splits)
  then show a: "\<And>g. g < 140 \<Longrightarrow> maddr t din g = maddr s din g" using F(2) z by (auto simp: maddr_def im)
  have ms: "maddr t din ` {..<Suc f} = maddr s din ` {..<Suc f}" using a F(3) by (intro image_cong) auto
  then show "mblocks t din (Suc f) = mblocks s din (Suc f)" by (simp add: mblocks_def)
  have "inj_on (maddr t din) {..<Suc f}" using ok(2) a F(3) by (auto simp: fmap_def inj_on_def)
  then show "fmap t din (Suc f)" using ok(2) a ms F(3) unfolding fmap_def in_data_def im by auto
qed

text \<open>The last block of a file of \<open>k\<close> bytes is filled with zeros.\<close>

definition padded :: "mkst \<Rightarrow> inode \<Rightarrow> nat \<Rightarrow> bool" where
  "padded s din k \<longleftrightarrow> (\<forall>i. k \<le> i \<and> i < 512 * nblk k \<longrightarrow> img s (maddr s din (i div 512)) ! (i mod 512) = 0)"

definition appended :: "mkst \<Rightarrow> inode \<Rightarrow> nat \<Rightarrow> u8 list \<Rightarrow> inode \<Rightarrow> mkst \<Rightarrow> bool" where
  "appended s din k p din1 s1 \<longleftrightarrow> mok s1 \<and> fmap s1 din1 (nblk (k + length p)) \<and>
     mcontents s1 din1 (k + length p) = mcontents s din k @ p \<and> freeblock s \<le> freeblock s1 \<and> freeinode s1 = freeinode s \<and>
     (\<exists>as. din1 = din\<lparr>i_addrs := as\<rparr>) \<and>
     mblocks s1 din1 (nblk (k + length p)) \<subseteq> mblocks s din (nblk k) \<union> fresh s s1 \<and>
     (\<forall>b<freeblock s. b \<notin> mblocks s din (nblk k) \<longrightarrow> img s1 b = img s b) \<and>
     (padded s din k \<longrightarrow> padded s1 din1 (k + length p))"

text \<open>The blocks a file of \<open>n\<close> data blocks takes.\<close>

definition cost :: "nat \<Rightarrow> nat" where
  "cost n = (if 12 < n then n + 1 else n)"

lemma cost_mono: "m \<le> n \<Longrightarrow> cost m \<le> cost n"
  by (simp add: cost_def)

lemma appended_nil: "mok s \<Longrightarrow> fmap s din (nblk k) \<Longrightarrow> appended s din k [] din s"
  by (auto simp: appended_def intro: exI [of _ "i_addrs din"])

lemma appended_trans:
  assumes a: "appended s din k p d1 s1" and b: "appended s1 d1 (k + length p) q d2 s2"
  shows "appended s din k (p @ q) d2 s2"
proof -
  have fr: "fresh s s1 \<union> fresh s1 s2 \<subseteq> fresh s s2" using a b by (auto simp: fresh_def appended_def)
  have sub: "mblocks s1 d1 (nblk (k + length p)) \<subseteq> mblocks s din (nblk k) \<union> fresh s s1" using a by (simp add: appended_def)
  have "img s2 c = img s c" if c: "c < freeblock s" "c \<notin> mblocks s din (nblk k)" for c
  proof -
    have "c \<notin> mblocks s1 d1 (nblk (k + length p))" using sub c by (auto simp: fresh_def)
    moreover have "c < freeblock s1" using a c(1) by (auto simp: appended_def)
    ultimately have "img s2 c = img s1 c" using b by (simp add: appended_def)
    then show ?thesis using a c by (simp add: appended_def)
  qed
  moreover have "mblocks s2 d2 (nblk (k + length p + length q)) \<subseteq> mblocks s din (nblk k) \<union> fresh s s2"
    using b sub fr unfolding appended_def by blast
  moreover have "\<exists>as. d2 = din\<lparr>i_addrs := as\<rparr>" using a b by (auto simp: appended_def)
  ultimately show ?thesis using a b unfolding appended_def by (auto simp: add.assoc)
qed

lemma div_block:
  fixes k :: nat
  assumes "k \<le> i" "i < k + n" "n \<le> 512 - k mod 512"
  shows "i div 512 = k div 512" "i mod 512 = k mod 512 + (i - k)"
proof -
  define q r where "q = k div 512" and "r = k mod 512"
  have k: "k = 512 * q + r" by (simp add: q_def r_def)
  have l: "r + (i - k) < 512" using assms by (simp add: r_def)
  show d: "i div 512 = k div 512" unfolding q_def [symmetric] using assms(1) l k by (intro div_nat_eqI) simp_all
  have "i = 512 * (i div 512) + i mod 512" by simp
  then have "i = 512 * q + i mod 512" unfolding d q_def .
  then show "i mod 512 = k mod 512 + (i - k)" unfolding r_def [symmetric] using k assms(1) by linarith
qed

lemma nblk_step:
  assumes "0 < n" "n \<le> 512 - k mod 512"
  shows "nblk (k + n) = Suc (k div 512)"
proof -
  have d: "(k + n - 1) div 512 = k div 512" using div_block(1) [of k "k + n - 1" n] assms by simp
  have "k + n + 511 = (k + n - 1) + 512" using assms(1) by simp
  then have "nblk (k + n) = (k + n - 1) div 512 + 1" unfolding nblk_def by (metis div_add_self2 zero_neq_numeral)
  then show ?thesis using d by simp
qed

lemma nblk_less: "i div 512 < nblk k" if "i < k" for k :: nat
proof -
  have "i + 512 \<le> k + 511" using that by simp
  from div_le_mono [OF this, of 512] show ?thesis by (simp add: nblk_def)
qed

text \<open>One turn of the loop.\<close>

lemma mcontents_put:
  assumes b: "bstep s din (nblk k) (k div 512) d1 s1" and q: "q \<noteq> []" "length q \<le> 512 - k mod 512"
    and sf: "fmap s din (nblk k)"
  defines "x \<equiv> maddr s1 d1 (k div 512)"
  defines "t \<equiv> wsect x (splice (img s1 x) (k mod 512) q) s1"
  shows "mcontents t d1 (k + length q) = mcontents s din k @ q"
proof (rule nth_equalityI)
  have B: "mok s1" "fmap s1 d1 (Suc (k div 512))" "\<And>g. g < nblk k \<Longrightarrow> maddr s1 d1 g = maddr s din g"
    "\<And>g. g < nblk k \<Longrightarrow> img s1 (maddr s din g) = img s (maddr s din g)"
    using b by (auto simp: bstep_def)
  have inj: "maddr s1 d1 g \<noteq> x" if "g < k div 512" for g
    using B(2) that unfolding x_def by (auto simp: fmap_def inj_on_def)
  have f140: "k div 512 < 140" using B(2) by (simp add: fmap_def)
  have "in_data s1 x" using B(2) by (simp add: fmap_def x_def)
  then have "x < 1000" using mokD(3) [OF B(1)] by (auto simp: in_data_def word_less_nat_alt)
  then have l: "length (img s1 x) = 512" by (rule mokD(4) [OF B(1)])
  then have l2: "length (splice (img s1 x) (k mod 512) q) = 512" using q by simp
  have kq: "k mod 512 + length q \<le> 512" using q(2) mod_less_divisor [of 512 k] by linarith
  note W = wsect_data [OF B(1,2) l2 [unfolded x_def], folded x_def, folded t_def]
  fix i assume "i < length (mcontents t d1 (k + length q))"
  then have i: "i < k + length q" by (simp add: mcontents_def)
  show "mcontents t d1 (k + length q) ! i = (mcontents s din k @ q) ! i"
  proof (cases "i < k")
    case True
    then have n: "i div 512 < nblk k" by (rule nblk_less)
    have le: "i div 512 \<le> k div 512" using True by (intro div_le_mono) simp
    have "img t (maddr t d1 (i div 512)) ! (i mod 512) = img s (maddr s din (i div 512)) ! (i mod 512)"
    proof (cases "i div 512 = k div 512")
      case e: True
      have "i mod 512 < k mod 512" using True e div_mult_mod_eq [of i 512] div_mult_mod_eq [of k 512] by linarith
      then show ?thesis using W(3) [of "i div 512"] W(5) splice_block [OF l kq, of "i mod 512"] e B(3,4) [OF n] f140
        unfolding x_def by simp
    next
      case False
      then show ?thesis using W(3) [of "i div 512"] W(5) inj [of "i div 512"] le B(3,4) [OF n] f140 by simp
    qed
    then show ?thesis using True by (simp add: mcontents_def nth_append)
  next
    case False
    then have D: "i div 512 = k div 512" "i mod 512 = k mod 512 + (i - k)" using div_block [of k i "length q"] i q(2) by simp_all
    have "k mod 512 \<le> i mod 512 \<and> i mod 512 < k mod 512 + length q" "i mod 512 - k mod 512 = i - k" using D(2) False i by linarith+
    then have "splice (img s1 x) (k mod 512) q ! (i mod 512) = q ! (i - k)" using splice_block [OF l kq, of "i mod 512"] by simp
    then have "img t (maddr t d1 (i div 512)) ! (i mod 512) = q ! (i - k)"
      using D(1) W(3) [of "k div 512"] W(5) f140 unfolding x_def by simp
    then show ?thesis using False i by (simp add: mcontents_def nth_append)
  qed
qed (simp add: mcontents_def)

lemma padded_put:
  assumes b: "bstep s din (nblk k) (k div 512) d1 s1" and q: "q \<noteq> []" "length q \<le> 512 - k mod 512" and pd: "padded s din k"
  defines "x \<equiv> maddr s1 d1 (k div 512)"
  defines "t \<equiv> wsect x (splice (img s1 x) (k mod 512) q) s1"
  shows "padded t d1 (k + length q)"
  unfolding padded_def
proof (intro allI impI)
  let ?f = "k div 512"
  have B: "mok s1" "fmap s1 d1 (Suc ?f)" "\<And>g. g < nblk k \<Longrightarrow> maddr s1 d1 g = maddr s din g"
    "\<And>g. g < nblk k \<Longrightarrow> img s1 (maddr s din g) = img s (maddr s din g)" "nblk k \<le> ?f \<Longrightarrow> img s1 x = replicate 512 0"
    using b by (auto simp: bstep_def x_def)
  have f140: "?f < 140" using B(2) by (simp add: fmap_def)
  have "in_data s1 x" using B(2) by (simp add: fmap_def x_def)
  then have "x < 1000" using mokD(3) [OF B(1)] by (auto simp: in_data_def word_less_nat_alt)
  then have l: "length (img s1 x) = 512" by (rule mokD(4) [OF B(1)])
  have kq: "k mod 512 + length q \<le> 512" using q(2) mod_less_divisor [of 512 k] by linarith
  then have l2: "length (splice (img s1 x) (k mod 512) q) = 512" using l by simp
  note W = wsect_data [OF B(1,2) l2 [unfolded x_def], folded x_def, folded t_def]
  have nb: "nblk (k + length q) = Suc ?f" using nblk_step [of "length q" k] q by simp
  fix i assume "k + length q \<le> i \<and> i < 512 * nblk (k + length q)"
  then have i: "k + length q \<le> i" "i < 512 * Suc ?f" using nb by simp_all
  have "i < k + (512 - k mod 512)" using i(2) [unfolded mult_Suc_right] div_mult_mod_eq [of k 512] mod_less_divisor [of 512 k] by linarith
  then have D: "i div 512 = ?f" "i mod 512 = k mod 512 + (i - k)" using div_block [of k i "512 - k mod 512"] i(1) by simp_all
  have "\<not> i mod 512 < k mod 512 + length q" using D(2) i(1) by linarith
  then have "img t (maddr t d1 (i div 512)) ! (i mod 512) = img s1 x ! (i mod 512)"
    using W(3) [OF f140] W(5) D(1) splice_block [OF l kq, of "i mod 512"] by (simp add: x_def)
  also have "\<dots> = 0"
  proof (cases "k mod 512 = 0")
    case True
    then show ?thesis using B(5) nblk_div(1) [of k] by simp
  next
    case False
    then have n: "nblk k = Suc ?f" by (rule nblk_div(2))
    then have "k \<le> i \<and> i < 512 * nblk k" using i by simp
    then have "img s (maddr s din (i div 512)) ! (i mod 512) = 0" using pd unfolding padded_def by blast
    then show ?thesis using B(3,4) [of ?f] n D(1) by (simp add: x_def)
  qed
  finally show "img t (maddr t d1 (i div 512)) ! (i mod 512) = 0" .
qed

lemma appended_put:
  assumes b: "bstep s din (nblk k) (k div 512) d1 s1" and q: "q \<noteq> []" "length q \<le> 512 - k mod 512"
    and sf: "fmap s din (nblk k)"
  defines "x \<equiv> maddr s1 d1 (k div 512)"
  defines "t \<equiv> wsect x (splice (img s1 x) (k mod 512) q) s1"
  shows "appended s din k q d1 t" "unat (freeblock t) + cost (nblk k) \<le> unat (freeblock s) + cost (nblk (k + length q))"
    "x < nsect s1"
proof -
  let ?f = "k div 512"
  have B: "mok s1" "fmap s1 d1 (Suc ?f)" "freeblock s \<le> freeblock s1" "freeinode s1 = freeinode s" "\<exists>as. d1 = din\<lparr>i_addrs := as\<rparr>"
    "mblocks s1 d1 (Suc ?f) \<subseteq> mblocks s din (nblk k) \<union> fresh s s1"
    "\<And>b. b < freeblock s \<Longrightarrow> b \<notin> mblocks s din (nblk k) \<Longrightarrow> img s1 b = img s b"
    "unat (freeblock s1) \<le> unat (freeblock s) + (if ?f < nblk k then 0 else if nblk k = 12 then 2 else 1)"
    using b unfolding bstep_def by blast+
  have nb: "nblk (k + length q) = Suc ?f" using nblk_step [of "length q" k] q by simp
  have "in_data s1 x" using B(2) by (simp add: fmap_def x_def)
  then have x1: "x < 1000" using mokD(3) [OF B(1)] by (auto simp: in_data_def word_less_nat_alt)
  then show "x < nsect s1" using mokD(1) [OF B(1)] by simp
  have kq: "k mod 512 + length q \<le> 512" using q(2) mod_less_divisor [of 512 k] by linarith
  then have "length (splice (img s1 x) (k mod 512) q) = 512" using mokD(4) [OF B(1) x1] by simp
  note W = wsect_data [OF B(1,2) this [unfolded x_def], folded x_def, folded t_def]
  have fr: "fresh s t = fresh s s1" by (simp add: fresh_def W(6))
  have xm: "x \<in> mblocks s1 d1 (Suc ?f)" by (simp add: mblocks_def x_def)
  have "img t c = img s c" if c: "c < freeblock s" "c \<notin> mblocks s din (nblk k)" for c
  proof -
    have "c \<noteq> x" using xm B(6) c by (auto simp: fresh_def)
    then show ?thesis using W(5) B(7) [OF c] by simp
  qed
  moreover have "mblocks t d1 (Suc ?f) \<subseteq> mblocks s din (nblk k) \<union> fresh s t" using W(4) B(6) fr by simp
  ultimately show "appended s din k q d1 t"
    using padded_put [OF b q, folded x_def, folded t_def] W(1,2) mcontents_put [OF b q sf, folded x_def, folded t_def] B(3-5) W(6,7) unfolding appended_def nb by simp
  have "?f < nblk k \<Longrightarrow> nblk k = Suc ?f" "\<not> ?f < nblk k \<Longrightarrow> nblk k = ?f" using nblk_div [of k] by (auto split: if_splits)
  then show "unat (freeblock t) + cost (nblk k) \<le> unat (freeblock s) + cost (nblk (k + length q))"
    using B(8) W(6) unfolding nb by (auto simp: cost_def split: if_splits)
qed

lemma block_rest: "(k div 512 + 1) * 512 - k = 512 - k mod 512" for k :: nat
proof -
  define q r where "q = k div 512" and "r = k mod 512"
  have k: "k = 512 * q + r" by (simp add: q_def r_def)
  show ?thesis unfolding q_def [symmetric] r_def [symmetric] by (subst k) simp
qed

lemma iappend_loop_spec:
  assumes "mok s" "fmap s din (nblk (unat off))" "unat off + length p \<le> 140 * 512"
    "unat (freeblock s) + cost (nblk (unat off + length p)) + 1 \<le> 1000 + cost (nblk (unat off))"
  shows "\<exists>din1 s1. iappend_loop din off p s = Ok (din1, off + of_nat (length p), s1) \<and> appended s din (unat off) p din1 s1 \<and>
     unat (freeblock s1) + cost (nblk (unat off)) \<le> unat (freeblock s) + cost (nblk (unat off + length p))"
  using assms
proof (induction "length p" arbitrary: din off p s rule: less_induct)
  case less
  let ?k = "unat off"
  show ?case
  proof (cases "p = []")
    case True
    then show ?thesis using appended_nil [OF less.prems(1,2)] by (auto simp: iappend_loop.simps)
  next
    case False
    define n1 where "n1 = min (length p) ((?k div BSIZE + 1) * BSIZE - ?k)"
    define q where "q = take n1 p"
    have e: "(?k div BSIZE + 1) * BSIZE - ?k = 512 - ?k mod 512" unfolding BSIZE_def by (rule block_rest)
    have n1: "0 < n1" "n1 \<le> length p" "n1 \<le> 512 - ?k mod 512" "length q = n1" unfolding n1_def e q_def using False by simp_all
    then have q: "q \<noteq> []" "length q \<le> 512 - ?k mod 512" by auto
    have f: "?k div 512 < 140" using less.prems(3) False by (intro less_mult_imp_div_less) (cases p; simp)
    have room: "unat (freeblock s) + 2 \<le> 1000" if "?k mod 512 = 0"
    proof -
      have "nblk ?k < nblk (?k + length p)" using nblk_less [of ?k "?k + length p"] False nblk_div(1) [of ?k] that by simp
      then have "cost (nblk ?k) < cost (nblk (?k + length p))" by (simp add: cost_def)
      then show ?thesis using less.prems(4) by simp
    qed
    obtain d1 s1 where b: "mk_bmap (?k div 512) din s = Ok (maddr s1 d1 (?k div 512), d1, s1)"
      "bstep s din (nblk ?k) (?k div 512) d1 s1" using bmap_step [OF less.prems(1,2) f room] by blast
    let ?x = "maddr s1 d1 (?k div 512)"
    let ?t = "wsect ?x (splice (img s1 ?x) (?k mod 512) q) s1"
    note A = appended_put [OF b(2) q less.prems(2)]
    have o: "unat (off + of_nat n1) = ?k + n1"
      using less.prems(3) n1(2) by (subst unat_add_u32) (simp_all add: unat_of_nat)
    have "?k - ?k div BSIZE * BSIZE = ?k mod 512" unfolding BSIZE_def by (rule minus_div_mult_eq_mod)
    moreover have "min (length p) (512 + ?k div 512 * 512 - ?k) = n1" by (simp add: n1_def BSIZE_def)
    ultimately have step: "iappend_loop din off p s = iappend_loop d1 (off + of_nat n1) (drop n1 p) ?t"
      using False f b(1) A(3) by (subst iappend_loop.simps)
        (simp add: Let_def rsect_def q_def MAXFILE_def NDIRECT_def NINDIRECT_def BSIZE_def)
    have len: "?k + n1 + length (drop n1 p) = ?k + length p" using n1(2) by simp
    have t: "mok ?t" "fmap ?t d1 (nblk (unat (off + of_nat n1)))" using A(1) n1(4) unfolding o by (simp_all add: appended_def)
    have h: "length (drop n1 p) < length p" "unat (off + of_nat n1) + length (drop n1 p) \<le> 140 * 512"
      "unat (freeblock ?t) + cost (nblk (unat (off + of_nat n1) + length (drop n1 p))) + 1 \<le> 1000 + cost (nblk (unat (off + of_nat n1)))"
      unfolding o len using less.prems(3,4) A(2) n1 by simp_all
    obtain d2 s2 where r: "iappend_loop d1 (off + of_nat n1) (drop n1 p) ?t = Ok (d2, off + of_nat n1 + of_nat (length (drop n1 p)), s2)"
      "appended ?t d1 (?k + n1) (drop n1 p) d2 s2"
      "unat (freeblock s2) + cost (nblk (?k + n1)) \<le> unat (freeblock ?t) + cost (nblk (?k + length p))"
      using less.hyps [OF h(1) t h(2,3)] unfolding o len by blast
    have "appended s din ?k p d2 s2" using appended_trans [OF A(1), of "drop n1 p" d2 s2] r(2) n1(4) by (simp add: q_def)
    moreover have "off + of_nat n1 + of_nat (length (drop n1 p)) = off + (of_nat (length p) :: u32)"
      using n1(2) by (simp add: of_nat_diff)
    ultimately show ?thesis using step r(1,3) A(2) n1(4) by auto
  qed
qed

section \<open>The files of the image\<close>

text \<open>The disk inode \<open>i\<close>, and the bytes of its file.\<close>

definition mdin :: "mkst \<Rightarrow> u32 \<Rightarrow> inode" where
  "mdin s i = get_dinode (img s (IBLOCK i mksb)) (dinode_off i) din0"

definition msize :: "mkst \<Rightarrow> u32 \<Rightarrow> nat" where
  "msize s i = unat (i_size (mdin s i))"

definition mfile :: "mkst \<Rightarrow> u32 \<Rightarrow> u8 list" where
  "mfile s i = mcontents s (mdin s i) (msize s i)"

definition mused :: "mkst \<Rightarrow> u32 \<Rightarrow> u32 set" where
  "mused s i = mblocks s (mdin s i) (nblk (msize s i))"

text \<open>The image as a list of files: type, number of links and bytes of each allocated inode; \<open>taken\<close> are the
  blocks that they need.\<close>

type_synonym mentry = "u16 \<times> u16 \<times> u8 list"

definition mentry :: "mkst \<Rightarrow> u32 \<Rightarrow> mentry" where
  "mentry s i = (i_type (mdin s i), i_nlink (mdin s i), mfile s i)"

definition mimage :: "mkst \<Rightarrow> mentry list" where
  "mimage s = map (\<lambda>i. mentry s (of_nat i)) [0..<unat (freeinode s)]"

definition taken :: "mentry list \<Rightarrow> nat" where
  "taken fs = sum_list (map (\<lambda>(_, _, c). cost (nblk (length c))) fs)"

text \<open>Every allocated inode has its own blocks.\<close>

definition mfs :: "mkst \<Rightarrow> bool" where
  "mfs s \<longleftrightarrow> mok s \<and> img s 1 = sb_bytes \<and> freeinode s \<le> 200 \<and> unat (freeblock s) \<le> 59 + taken (mimage s) \<and>
     (\<forall>i<freeinode s. msize s i \<le> 140 * 512 \<and> fmap s (mdin s i) (nblk (msize s i)) \<and> padded s (mdin s i) (msize s i) \<and>
        (\<forall>j<freeinode s. i \<noteq> j \<longrightarrow> mused s i \<inter> mused s j = {}))"

lemma mblocks_frame:
  assumes f: "fmap s din n" and im: "\<And>b. b \<in> mblocks s din n \<Longrightarrow> img t b = img s b" and fb: "freeblock s \<le> freeblock t"
  shows "fmap t din n" "mblocks t din n = mblocks s din n" "nblk k \<le> n \<Longrightarrow> mcontents t din k = mcontents s din k"
    "nblk k \<le> n \<Longrightarrow> padded t din k = padded s din k"
proof -
  have n: "n \<le> 140" using f by (simp add: fmap_def)
  have a2: "12 < n \<Longrightarrow> f < 140 \<Longrightarrow> maddr t din f = maddr s din f" for f using im by (simp add: maddr_def mblocks_def)
  have a1: "f < n \<Longrightarrow> maddr t din f = maddr s din f" for f 
    using a2 [of f] n by (cases "f < 12") (simp add: maddr_def, simp)
  have ms: "maddr t din ` {..<n} = maddr s din ` {..<n}" using a1 by (intro image_cong) auto
  then show "mblocks t din n = mblocks s din n" by (simp add: mblocks_def)
  have d: "in_data s b \<Longrightarrow> in_data t b" for b using fb by (auto simp: in_data_def)
  have "inj_on (maddr t din) {..<n}" using f a1 by (auto simp: fmap_def inj_on_def)
  then show "fmap t din n" using f a1 a2 d ms unfolding fmap_def by auto
  have e: "img t (maddr t din f) = img s (maddr s din f)" if "f < n" for f
    using a1 [OF that] im that by (simp add: mblocks_def)
  show "mcontents t din k = mcontents s din k" if "nblk k \<le> n"
    unfolding mcontents_def using nblk_less [of _ k] that by (intro map_cong refl) (force simp: e)
  have "i div 512 < n" if "nblk k \<le> n" "i < 512 * nblk k" for i using that less_mult_imp_div_less [of i "nblk k" 512] by simp
  then show "padded t din k = padded s din k" if "nblk k \<le> n" using that by (auto simp: padded_def e)
qed

lemma iblock_mksb: "i < 200 \<Longrightarrow> unat (IBLOCK i mksb) = unat i div 8 + 32" "i < 200 \<Longrightarrow> IBLOCK i mksb < 59"
proof -
  assume i: "i < 200"
  have m: "sb_inodestart mksb = 32" by (simp add: mksb_def nlog_def LOGSIZE_def MAXOPBLOCKS_def)
  have "unat i < 200" using i by (simp add: word_less_nat_alt)
  then have "unat i div 8 < 25" by (intro less_mult_imp_div_less) simp
  moreover have "unat (i div of_nat IPB) = unat i div 8"
    by (simp add: unat_div IPB_def dinode_size_def NDIRECT_def BSIZE_def)
  ultimately show "unat (IBLOCK i mksb) = unat i div 8 + 32" "IBLOCK i mksb < 59"
    unfolding IBLOCK_def m word_less_nat_alt by (subst unat_add_u32; simp)+
qed

lemma get_dinode_put_same:
  assumes "length (i_addrs ip) = 13" "k + 64 \<le> length d"
  shows "get_dinode (put_dinode ip k d) k ip0 = ip0\<lparr>i_type := i_type ip, i_major := i_major ip, i_minor := i_minor ip,
     i_nlink := i_nlink ip, i_size := i_size ip, i_addrs := i_addrs ip\<rparr>"
  unfolding get_dinode_def put_dinode_same [OF assms] ..

lemma get_dinode_put_other:
  assumes "length (i_addrs ip) = 13" "j + 64 \<le> k \<or> k + 64 \<le> j"
  shows "get_dinode (put_dinode ip k d) j ip0 = get_dinode d j ip0"
proof -
  note P = put_dinode_other [OF assms, where d = d]
  have "get32s (put_dinode ip k d) (j + 12) (NDIRECT + 1) = get32s d (j + 12) (NDIRECT + 1)"
  proof (rule get32s_cong)
    fix x assume "x < NDIRECT + 1"
    then show "get32 (put_dinode ip k d) (j + 12 + 4 * x) = get32 d (j + 12 + 4 * x)"
      using P(2) [of "12 + 4 * x"] by (simp add: NDIRECT_def add.assoc)
  qed
  then show ?thesis using P(1) [of 0] P(1) [of 2] P(1) [of 4] P(1) [of 6] P(2) [of 8] by (simp add: get_dinode_def)
qed

lemma rinode_spec: "mok s \<Longrightarrow> i < 200 \<Longrightarrow> rinode i s = Ok (mdin s i)"
  using iblock_mksb(2) [of i] mokD(1) [of s] by (auto simp: rinode_def rsect_def mdin_def Let_def word_less_nat_alt)

lemma winode_spec:
  assumes ok: "mok s" and i: "i < 200" and l: "length (i_addrs ip) = 13"
  shows "\<exists>t. winode i ip s = Ok t \<and> mok t \<and> freeblock t = freeblock s \<and> freeinode t = freeinode s \<and> (\<forall>b\<ge>59. img t b = img s b) \<and>
    img t 1 = img s 1 \<and> mdin t i = din0\<lparr>i_type := i_type ip, i_major := i_major ip, i_minor := i_minor ip, i_nlink := i_nlink ip,
      i_size := i_size ip, i_addrs := i_addrs ip\<rparr> \<and> (\<forall>j. j \<noteq> i \<longrightarrow> mdin t j = mdin s j)"
proof -
  let ?b = "IBLOCK i mksb"
  let ?t = "wsect ?b (put_dinode ip (dinode_off i) (img s ?b)) s"
  have b: "?b < 59" "unat ?b < 59" using iblock_mksb(2) [OF i] by (simp_all add: word_less_nat_alt)
  then have b1: "?b < 1000" by (simp add: word_less_nat_alt)
  have len: "length (img s ?b) = 512" by (rule mokD(4) [OF ok b1])
  have w: "winode i ip s = Ok ?t" using b1 mokD(1) [OF ok] by (simp add: winode_def rsect_def Let_def)
  have "?b + 1 \<le> 1000" using unat_next [of ?b] b by (simp add: word_le_nat_alt)
  then have nn: "max 1000 (?b + 1) = (1000 :: u32)" by (rule max_absorb1)
  have im: "img ?t = (img s)(?b := put_dinode ip (dinode_off i) (img s ?b))" by (simp add: wsect_def)
  have pl: "length (put_dinode ip (dinode_off i) (img s ?b)) = 512"
    using len l dinode_off_less [of i] by (simp add: put_dinode_def Let_def)
  have fb: "\<not> freeblock s \<le> ?b" using b(2) mokD(2) [OF ok] by (simp add: word_le_nat_alt)
  have "mok ?t" using ok nn pl fb unfolding mok_def im by (auto simp: wsect_def)
  moreover have "mdin ?t i = din0\<lparr>i_type := i_type ip, i_major := i_major ip, i_minor := i_minor ip, i_nlink := i_nlink ip,
      i_size := i_size ip, i_addrs := i_addrs ip\<rparr>"
    unfolding mdin_def im using get_dinode_put_same [OF l, of "dinode_off i" "img s ?b"] len dinode_off_less [of i] by simp
  moreover have "mdin ?t j = mdin s j" if "j \<noteq> i" for j
    unfolding mdin_def im using get_dinode_put_other [OF l] dinode_slots [of j mksb i] that by (cases "IBLOCK j mksb = ?b") auto
  moreover have "img ?t c = img s c" if "59 \<le> c" for c unfolding im using that b(1) by auto
  moreover have "?b \<noteq> 1" using iblock_mksb(1) [OF i] by auto
  ultimately show ?thesis using w by (auto simp: wsect_def)
qed

lemma mblocks_data: "fmap s din n \<Longrightarrow> b \<in> mblocks s din n \<Longrightarrow> in_data s b"
  by (auto simp: fmap_def mblocks_def split: if_splits)

lemma mfsD:
  assumes "mfs s"
  shows "mok s" "unat (freeinode s) \<le> 200" "unat (freeblock s) \<le> 59 + taken (mimage s)"
    "\<And>i. i < freeinode s \<Longrightarrow> msize s i \<le> 140 * 512" "\<And>i. i < freeinode s \<Longrightarrow> fmap s (mdin s i) (nblk (msize s i))"
    "\<And>i j. i < freeinode s \<Longrightarrow> j < freeinode s \<Longrightarrow> i \<noteq> j \<Longrightarrow> mused s i \<inter> mused s j = {}"
    "\<And>i. i < freeinode s \<Longrightarrow> i < 200" "\<And>i b. i < freeinode s \<Longrightarrow> b \<in> mused s i \<Longrightarrow> in_data s b"
    "\<And>i. i < freeinode s \<Longrightarrow> padded s (mdin s i) (msize s i)" "img s 1 = sb_bytes"
  using assms mblocks_data by (auto simp: mfs_def word_le_nat_alt word_less_nat_alt mused_def)

text \<open>A file keeps its bytes and its blocks when its inode and its blocks are kept.\<close>

lemma other_file:
  assumes f: "fmap s (mdin s j) (nblk (msize s j))" and d: "mdin t j = mdin s j" and fb: "freeblock s \<le> freeblock t"
    and im: "\<forall>b\<in>mused s j. img t b = img s b"
  shows "mentry t j = mentry s j" "mused t j = mused s j" "msize t j = msize s j" "fmap t (mdin t j) (nblk (msize t j))"
    "padded t (mdin t j) (msize t j) = padded s (mdin s j) (msize s j)"
proof -
  show m: "msize t j = msize s j" by (simp add: msize_def d)
  note F = mblocks_frame [OF f im [unfolded mused_def, rule_format] fb]
  show "mused t j = mused s j" using F(2) by (simp add: mused_def m d)
  show "fmap t (mdin t j) (nblk (msize t j))" using F(1) by (simp add: m d)
  show "mentry t j = mentry s j" using F(3) [of "msize s j"] by (simp add: mentry_def mfile_def m d)
  show "padded t (mdin t j) (msize t j) = padded s (mdin s j) (msize s j)" using F(4) [of "msize s j"] by (simp add: m d)
qed

lemma nth_mimage [simp]: "i < unat (freeinode s) \<Longrightarrow> mimage s ! i = mentry s (of_nat i)"
  by (simp add: mimage_def)

lemma length_mimage [simp]: "length (mimage s) = unat (freeinode s)"
  by (simp add: mimage_def)

lemma taken_update:
  assumes "i < length fs" "fs ! i = (ty, nl, c)"
  shows "taken (fs[i := (ty', nl', c')]) + cost (nblk (length c)) = taken fs + cost (nblk (length c'))"
proof -
  let ?g = "\<lambda>(_, _, c). cost (nblk (length c))"
  have "map ?g fs ! i = cost (nblk (length c))" using assms by simp
  moreover have "map ?g fs ! i \<le> sum_list (map ?g fs)" using assms(1) by (intro elem_le_sum_list) simp
  ultimately show ?thesis using assms(1) sum_list_update [of i "map ?g fs" "cost (nblk (length c'))"]
    by (simp add: taken_def map_update)
qed

lemma length_mfile [simp]: "length (mfile s i) = msize s i"
  by (simp add: mfile_def mcontents_def)

lemma size_irrelevant:
  "maddr t (d\<lparr>i_size := z\<rparr>) = maddr t d" "fmap t (d\<lparr>i_size := z\<rparr>) = fmap t d" "mblocks t (d\<lparr>i_size := z\<rparr>) = mblocks t d"
  "mcontents t (d\<lparr>i_size := z\<rparr>) = mcontents t d" "padded t (d\<lparr>i_size := z\<rparr>) = padded t d"
proof -
  show m: "maddr t (d\<lparr>i_size := z\<rparr>) = maddr t d" by (simp add: fun_eq_iff maddr_def)
  show "fmap t (d\<lparr>i_size := z\<rparr>) = fmap t d" "mblocks t (d\<lparr>i_size := z\<rparr>) = mblocks t d"
    "mcontents t (d\<lparr>i_size := z\<rparr>) = mcontents t d" "padded t (d\<lparr>i_size := z\<rparr>) = padded t d"
    unfolding fun_eq_iff fmap_def mblocks_def mcontents_def padded_def m by simp_all
qed

lemma mfs_changed:
  assumes s: "mfs s" and i: "i < freeinode s" and t: "mok t" "freeinode t = freeinode s" "freeblock s \<le> freeblock t" "img t 1 = img s 1"
    and d: "\<And>j. j < freeinode s \<Longrightarrow> j \<noteq> i \<Longrightarrow> mdin t j = mdin s j"
    and im: "\<And>b. in_data s b \<Longrightarrow> b \<notin> mused s i \<Longrightarrow> img t b = img s b"
    and f: "fmap t (mdin t i) (nblk (msize t i))" "msize t i \<le> 140 * 512" "mused t i \<subseteq> mused s i \<union> fresh s t"
    and pd: "padded t (mdin t i) (msize t i)" and cap: "unat (freeblock t) \<le> 59 + taken ((mimage s)[unat i := mentry t i])"
  shows "mfs t \<and> mimage t = (mimage s)[unat i := mentry t i]"
proof -
  note S = mfsD [OF s]
  have O: "mentry t j = mentry s j" "mused t j = mused s j" "msize t j = msize s j" "fmap t (mdin t j) (nblk (msize t j))"
    "padded t (mdin t j) (msize t j)" if j: "j < freeinode s" "j \<noteq> i" for j
  proof -
    have "\<forall>b\<in>mused s j. img t b = img s b" using im S(8) [OF j(1)] S(6) [OF j(1) i j(2)] by blast
    from other_file [OF S(5) [OF j(1)] d [OF j] t(3) this] S(9) [OF j(1)]
    show "mentry t j = mentry s j" "mused t j = mused s j" "msize t j = msize s j" "fmap t (mdin t j) (nblk (msize t j))"
      "padded t (mdin t j) (msize t j)" by simp_all
  qed
  have dj: "mused t i \<inter> mused t j = {}" if j: "j < freeinode s" "j \<noteq> i" for j
    using f(3) S(6) [OF i j(1)] S(8) [OF j(1)] j O(2) [OF j] by (fastforce simp: fresh_def in_data_def)
  have e: "mimage t = (mimage s)[unat i := mentry t i]"
  proof (rule nth_equalityI)
    fix k assume "k < length (mimage t)"
    then have k: "k < unat (freeinode s)" using t(2) by simp
    then have u: "unat (of_nat k :: u32) = k" using unat_u32 [of "freeinode s"] by (simp add: unat_of_nat_u32)
    have "of_nat k \<noteq> i" if "k \<noteq> unat i" using u that by auto
    then have "mentry t (of_nat k) = mentry s (of_nat k)" if "k \<noteq> unat i"
      using O(1) [of "of_nat k"] k u that by (auto simp: word_less_nat_alt)
    then show "mimage t ! k = (mimage s)[unat i := mentry t i] ! k"
      using k t(2) u by (cases "k = unat i") (auto simp: nth_list_update)
  qed (simp add: t(2))
  have "mused t j \<inter> mused t k = {}" if "j < freeinode s" "k < freeinode s" "j \<noteq> k" for j k
    using that dj S(6) [OF that] O(2) by (cases "j = i"; cases "k = i") auto
  moreover have "msize t j \<le> 140 * 512 \<and> fmap t (mdin t j) (nblk (msize t j)) \<and> padded t (mdin t j) (msize t j)" if "j < freeinode s" for j
    using that f pd O(3-5) [OF that] S(4) [OF that] by (cases "j = i") auto
  ultimately have "mfs t" using t s cap e unfolding mfs_def by simp
  then show ?thesis using e by simp
qed

lemma mdin_kept:
  assumes s: "mfs s" "i < freeinode s" and k: "\<And>b. b < freeblock s \<Longrightarrow> b \<notin> mused s i \<Longrightarrow> img s1 b = img s b" and j: "j < freeinode s"
  shows "mdin s1 j = mdin s j"
proof -
  note S = mfsD [OF s(1)]
  have b: "IBLOCK j mksb < 59" by (rule iblock_mksb(2) [OF S(7) [OF j]])
  then have "IBLOCK j mksb \<notin> mused s i" using S(8) [OF s(2), of "IBLOCK j mksb"] by (auto simp: in_data_def)
  moreover have "IBLOCK j mksb < freeblock s" using b mokD(2) [OF S(1)] by (simp add: word_less_nat_alt)
  ultimately show ?thesis using k by (simp add: mdin_def)
qed

text \<open>Writing back the inode after the loop.\<close>

lemma winode_appended:
  assumes s: "mfs s" and i: "i < freeinode s" "mentry s i = (ty, nl, c)" and len: "length (c @ p) \<le> 140 * 512"
    and ap: "appended s (mdin s i) (msize s i) p d1 s1"
    and fb: "unat (freeblock s1) + cost (nblk (msize s i)) \<le> unat (freeblock s) + cost (nblk (msize s i + length p))"
  shows "\<exists>t. winode i (d1\<lparr>i_size := i_size (mdin s i) + of_nat (length p)\<rparr>) s1 = Ok t \<and> mfs t \<and>
    mimage t = (mimage s)[unat i := (ty, nl, c @ p)] \<and> freeinode t = freeinode s"
proof -
  let ?d = "mdin s i"
  note S = mfsD [OF s]
  have iu: "unat i < length (mimage s)" "mimage s ! unat i = (ty, nl, c)" using i by (simp_all add: word_less_nat_alt)
  note tk = taken_update [OF iu, of ty nl "c @ p"]
  have c: "c = mfile s i" "length c = msize s i" using i(2) by (auto simp: mentry_def)
  have A: "mok s1" "fmap s1 d1 (nblk (msize s i + length p))" "mcontents s1 d1 (msize s i + length p) = c @ p"
    "freeblock s \<le> freeblock s1" "freeinode s1 = freeinode s" "\<exists>as. d1 = ?d\<lparr>i_addrs := as\<rparr>"
    "mblocks s1 d1 (nblk (msize s i + length p)) \<subseteq> mused s i \<union> fresh s s1"
    "\<And>b. b < freeblock s \<Longrightarrow> b \<notin> mused s i \<Longrightarrow> img s1 b = img s b" "padded s1 d1 (msize s i + length p)"
    using ap S(9) [OF i(1)] unfolding appended_def mused_def c(1) mfile_def by blast+
  have sz: "unat (i_size ?d + of_nat (length p)) = msize s i + length p"
    using len c(2) unfolding msize_def by (subst unat_add_u32) (simp_all add: unat_of_nat)
  have d13: "length (i_addrs (d1\<lparr>i_size := i_size ?d + of_nat (length p)\<rparr>)) = 13" using A(2) by (simp add: fmap_def)
  obtain t where T: "winode i (d1\<lparr>i_size := i_size ?d + of_nat (length p)\<rparr>) s1 = Ok t" "mok t" "freeblock t = freeblock s1"
    "freeinode t = freeinode s1" "\<And>b. 59 \<le> b \<Longrightarrow> img t b = img s1 b" "\<And>j. j \<noteq> i \<Longrightarrow> mdin t j = mdin s1 j"
    "mdin t i = d1\<lparr>i_size := i_size ?d + of_nat (length p)\<rparr>" "img t 1 = img s1 1"
  proof -
    obtain as where "d1 = ?d\<lparr>i_addrs := as\<rparr>" using A(6) by blast
    then show thesis using winode_spec [OF A(1) S(7) [OF i(1)] d13] that
      by (auto simp: mdin_def get_dinode_def din0_def)
  qed
  have Ti: "mdin t j = mdin s j" if "j < freeinode s" "j \<noteq> i" for j
    using T(6) [OF that(2)] mdin_kept [OF s i(1) A(8) that(1)] by simp
  have m: "msize t i = msize s i + length p" unfolding msize_def T(7) using sz by (simp add: msize_def)
  let ?n = "nblk (msize s i + length p)"
  have "img t b = img s1 b" if "b \<in> mblocks s1 d1 ?n" for b
    using mblocks_data [OF A(2) that] by (intro T(5)) (simp add: in_data_def)
  note F = mblocks_frame [OF A(2) this]
  have e: "mentry t i = (ty, nl, c @ p)"
    using F(3) [of "msize s i + length p"] A(3,6) T(3,7) i(2) unfolding mentry_def mfile_def m T(7) size_irrelevant by (auto simp: mentry_def)
  have "mfs t \<and> mimage t = (mimage s)[unat i := mentry t i]"
  proof (rule mfs_changed [OF s i(1) T(2)])
    have "1 \<notin> mused s i" using S(8) [OF i(1), of 1] by (auto simp: in_data_def word_le_nat_alt)
    then show "img t 1 = img s 1" using T(8) A(8) [of 1] mokD(2) [OF S(1)] by (simp add: word_less_nat_alt)
    show "freeinode t = freeinode s" "freeblock s \<le> freeblock t" using T(3,4) A(4,5) by simp_all
    show "mdin t j = mdin s j" if "j < freeinode s" "j \<noteq> i" for j by (rule Ti [OF that])
    show "img t b = img s b" if "in_data s b" "b \<notin> mused s i" for b
      using that A(8) T(5) by (simp add: in_data_def)
    show "fmap t (mdin t i) (nblk (msize t i))" using F(1) T(3) by (simp add: m T(7) size_irrelevant)
    show "padded t (mdin t i) (msize t i)" using F(4) [of "msize s i + length p"] A(9) T(3) by (simp add: m T(7) size_irrelevant)
    show "msize t i \<le> 140 * 512" using len c(2) by (simp add: m)
    show "mused t i \<subseteq> mused s i \<union> fresh s t" using F(2) A(7) T(3) by (simp add: m T(7) size_irrelevant mused_def [of t] fresh_def)
    show "unat (freeblock t) \<le> 59 + taken ((mimage s)[unat i := mentry t i])"
      using fb T(3) S(3) tk c(2) unfolding e by simp
  qed
  then show ?thesis using e T(1,4) A(5) by auto
qed

lemma iappend_spec:
  assumes s: "mfs s" and i: "i < freeinode s" "mentry s i = (ty, nl, c)" and len: "length (c @ p) \<le> 140 * 512"
    and room: "taken ((mimage s)[unat i := (ty, nl, c @ p)]) \<le> 940"
  shows "\<exists>t. iappend i p s = Ok t \<and> mfs t \<and> mimage t = (mimage s)[unat i := (ty, nl, c @ p)] \<and> freeinode t = freeinode s"
proof -
  let ?d = "mdin s i"
  note S = mfsD [OF s]
  have iu: "unat i < length (mimage s)" "mimage s ! unat i = (ty, nl, c)" using i by (simp_all add: word_less_nat_alt)
  have c: "length c = msize s i" using i(2) by (auto simp: mentry_def)
  have "unat (freeblock s) + cost (nblk (msize s i + length p)) + 1 \<le> 1000 + cost (nblk (msize s i))"
    using S(3) taken_update [OF iu, of ty nl "c @ p"] room c by simp
  then obtain d1 s1 where L: "iappend_loop ?d (i_size ?d) p s = Ok (d1, i_size ?d + of_nat (length p), s1)"
    "appended s ?d (msize s i) p d1 s1"
    "unat (freeblock s1) + cost (nblk (msize s i)) \<le> unat (freeblock s) + cost (nblk (msize s i + length p))"
    using iappend_loop_spec [OF S(1), of ?d "i_size ?d" p] S(5) [OF i(1)] len c unfolding msize_def by auto
  show ?thesis using winode_appended [OF s i len L(2,3)] rinode_spec [OF S(1) S(7) [OF i(1)]] L(1) by (auto simp: iappend_def)
qed

lemma mk_ialloc_spec:
  assumes s: "mfs s" and n: "unat (freeinode s) < 200"
  shows "\<exists>t. mk_ialloc ty s = Ok (freeinode s, t) \<and> mfs t \<and> mimage t = mimage s @ [(ty, 1, [])] \<and>
    unat (freeinode t) = unat (freeinode s) + 1"
proof -
  let ?n = "freeinode s" and ?s = "s\<lparr>freeinode := freeinode s + 1\<rparr>"
  let ?din = "din0\<lparr>i_type := ty, i_nlink := 1, i_size := 0\<rparr>"
  note S = mfsD [OF s]
  have un: "unat (?n + 1) = unat ?n + 1" using n by (subst unat_add_u32) simp_all
  have "mok ?s" using S(1) by (simp add: mok_def)
  moreover have "?n < 200" using n by (simp add: word_less_nat_alt)
  moreover have "length (i_addrs ?din) = 13" by (simp add: din0_def NDIRECT_def)
  ultimately obtain t where T: "winode ?n ?din ?s = Ok t" "mok t" "freeblock t = freeblock s" "freeinode t = ?n + 1"
    "\<And>b. 59 \<le> b \<Longrightarrow> img t b = img s b" "mdin t ?n = ?din" "\<And>j. j \<noteq> ?n \<Longrightarrow> mdin t j = mdin s j" "img t 1 = img s 1"
    using winode_spec [of ?s ?n ?din] by (auto simp: din0_def mdin_def)
  have O: "mentry t j = mentry s j" "mused t j = mused s j" "msize t j = msize s j" "fmap t (mdin t j) (nblk (msize t j))"
    "padded t (mdin t j) (msize t j)" if j: "j < ?n" for j
  proof -
    have "\<forall>b\<in>mused s j. img t b = img s b" using T(5) S(8) [OF j] by (auto simp: in_data_def)
    from other_file [OF S(5) [OF j] T(7) _ this] j T(3) S(9) [OF j]
    show "mentry t j = mentry s j" "mused t j = mused s j" "msize t j = msize s j" "fmap t (mdin t j) (nblk (msize t j))"
      "padded t (mdin t j) (msize t j)" by auto
  qed
  have N: "msize t ?n = 0" "mused t ?n = {}" "fmap t (mdin t ?n) 0" "mentry t ?n = (ty, 1, [])"
    using T(6) by (auto simp: msize_def mused_def mblocks_def nblk_def fmap_def din0_def NDIRECT_def mentry_def mfile_def mcontents_def)
  have lt: "j < freeinode t \<longleftrightarrow> j < ?n \<or> j = ?n" for j using un T(4) by (auto simp: word_less_nat_alt less_Suc_eq word_unat_eq_iff)
  have "mentry t (of_nat k) = mentry s (of_nat k)" if k: "k < unat ?n" for k
  proof (rule O(1))
    have "unat (of_nat k :: u32) = k" using k unat_u32 [of ?n] by simp
    then show "of_nat k < ?n" using k by (simp add: word_less_nat_alt)
  qed
  then have im: "mimage t = mimage s @ [(ty, 1, [])]" using un T(4) N(4) by (auto simp: mimage_def)
  have "mused t i \<inter> mused t j = {}" if "i < freeinode t" "j < freeinode t" "i \<noteq> j" for i j
    using that N(2) S(6) [of i j] O(2) unfolding lt by auto
  moreover have "msize t i \<le> 140 * 512 \<and> fmap t (mdin t i) (nblk (msize t i)) \<and> padded t (mdin t i) (msize t i)" if "i < freeinode t" for i
    using that N O(3-5) S(4) [of i] unfolding lt by (auto simp: nblk_def padded_def)
  moreover have "unat (freeblock t) \<le> 59 + taken (mimage t)" using S(3) T(3) im by (simp add: taken_def)
  moreover have "freeinode t \<le> 200" using un n T(4) by (simp add: word_le_nat_alt)
  ultimately have "mfs t" using T(2,8) S(10) by (simp add: mfs_def)
  then show ?thesis using T(1,4) un im by (auto simp: mk_ialloc_def)
qed

lemma nblk_mono: "m \<le> n \<Longrightarrow> nblk m \<le> nblk n"
  unfolding nblk_def by (intro div_le_mono) simp

lemma taken_mono:
  assumes "i < length fs" "length c \<le> length c'"
  shows "taken (fs[i := (ty, nl, c)]) \<le> taken (fs[i := (ty', nl', c')])"
  using taken_update [of i "fs[i := (ty, nl, c)]" ty nl c ty' nl' c'] assms cost_mono [OF nblk_mono [OF assms(2)]] by simp

lemma mentry_nth: "i < freeinode s \<Longrightarrow> mimage s ! unat i = mentry s i"
  by (simp add: word_less_nat_alt)

lemma rfold_iappend:
  assumes "mfs s" "i < freeinode s" "mentry s i = (ty, nl, c)" "length (c @ concat ps) \<le> 140 * 512"
    "taken ((mimage s)[unat i := (ty, nl, c @ concat ps)]) \<le> 940"
  shows "\<exists>t. rfold (iappend i) ps s = Ok t \<and> mfs t \<and> mimage t = (mimage s)[unat i := (ty, nl, c @ concat ps)] \<and> freeinode t = freeinode s"
  using assms
proof (induction ps arbitrary: c s)
  case Nil
  have "(mimage s)[unat i := (ty, nl, c)] = mimage s" using mentry_nth [OF Nil.prems(2)] Nil.prems(3) by (metis list_update_id)
  then show ?case using Nil by simp
next
  case (Cons p ps)
  have iu: "unat i < length (mimage s)" using Cons.prems(2) by (simp add: word_less_nat_alt)
  have "taken ((mimage s)[unat i := (ty, nl, c @ p)]) \<le> 940"
    using taken_mono [OF iu, of "c @ p" "c @ concat (p # ps)" ty nl ty nl] Cons.prems(5) by simp
  then obtain t where t: "iappend i p s = Ok t" "mfs t" "mimage t = (mimage s)[unat i := (ty, nl, c @ p)]" "freeinode t = freeinode s"
    using iappend_spec [OF Cons.prems(1-3), of p] Cons.prems(4) by auto
  have "mentry t i = (ty, nl, c @ p)" using mentry_nth [of i t] t(3,4) Cons.prems(2) iu by simp
  then show ?case using Cons.IH [OF t(2), of "c @ p"] t Cons.prems(2,4,5) by simp
qed

section \<open>The finished image\<close>

text \<open>The name of a file without its leading underscore, its entry in the root directory, and the files
  that \<open>mkfs\<close> is to make.\<close>

definition entry_name :: "u8 list \<Rightarrow> u8 list" where
  "entry_name a = (if a \<noteq> [] \<and> hd a = 95 then tl a else a)"

fun root_entries :: "nat \<Rightarrow> u8 list list \<Rightarrow> u8 list" where
  "root_entries n [] = []"
| "root_entries n (a # as) = image_dirent (of_nat n) (entry_name a) @ root_entries (Suc n) as"

definition root_bytes :: "u8 list list \<Rightarrow> u8 list" where
  "root_bytes as = image_dirent 1 (bytes ''.'') @ image_dirent 1 (bytes ''..'') @ root_entries 2 as"

definition file_entries :: "(u8 list \<times> u8 list list) list \<Rightarrow> mentry list" where
  "file_entries files = map (\<lambda>(a, cs). (T_FILE, 1, concat cs)) files"

definition opened :: "u8 list \<times> u8 list list \<Rightarrow> u8 list \<times> u8 list list option" where
  "opened f = (fst f, Some (snd f))"

lemma length_image_dirent [simp]: "length (image_dirent i a) = 16"
  by (simp add: image_dirent_def DIRSIZ_def)

lemma length_root_entries [simp]: "length (root_entries n as) = 16 * length as"
  by (induction n as rule: root_entries.induct) simp_all

lemma taken_simps [simp]:
  "taken [] = 0" "taken ((ty, nl, c) # fs) = cost (nblk (length c)) + taken fs" "taken (fs @ gs) = taken fs + taken gs"
  by (simp_all add: taken_def)

lemma mk_file_spec:
  assumes s: "mfs s" "mimage s = [z, (T_DIR, 1, r)] @ gs" and n: "length gs < 198"
    and f: "47 \<notin> set a" "length (concat cs) \<le> 140 * 512" "length r + 16 \<le> 140 * 512"
    and room: "taken ([z, (T_DIR, 1, r @ image_dirent (of_nat (2 + length gs)) (entry_name a))] @ gs @ [(T_FILE, 1, concat cs)]) \<le> 940"
  shows "\<exists>t. mk_file 1 (opened (a, cs)) s = Ok t \<and> mfs t \<and>
    mimage t = [z, (T_DIR, 1, r @ image_dirent (of_nat (2 + length gs)) (entry_name a))] @ gs @ [(T_FILE, 1, concat cs)]"
proof -
  let ?e = "image_dirent (of_nat (2 + length gs)) (entry_name a)"
  obtain y1 y2 y3 where z: "z = (y1, y2, y3)" by (cases z)
  have un: "unat (freeinode s) = 2 + length gs" using arg_cong [OF s(2), of length] by simp
  have fi: "freeinode s = of_nat (2 + length gs)" unfolding un [symmetric] by simp
  obtain t1 where A: "mk_ialloc T_FILE s = Ok (freeinode s, t1)" "mfs t1" "mimage t1 = mimage s @ [(T_FILE, 1, [])]"
    "unat (freeinode t1) = unat (freeinode s) + 1" using mk_ialloc_spec [OF s(1)] un n by auto
  have r1: "1 < freeinode t1" using A(4) un by (simp add: word_less_nat_alt)
  have m1: "mentry t1 1 = (T_DIR, 1, r)" using mentry_nth [OF r1] A(3) s(2) by simp
  have i1: "(mimage t1)[unat (1 :: u32) := (T_DIR, 1, r @ ?e)] = [z, (T_DIR, 1, r @ ?e)] @ gs @ [(T_FILE, 1, [])]" using A(3) s(2) by simp
  have "taken ((mimage t1)[unat (1 :: u32) := (T_DIR, 1, r @ ?e)]) \<le> 940" unfolding i1 using room by (simp add: z nblk_def cost_def)
  then obtain t2 where B: "iappend 1 ?e t1 = Ok t2" "mfs t2" "mimage t2 = [z, (T_DIR, 1, r @ ?e)] @ gs @ [(T_FILE, 1, [])]"
    "freeinode t2 = freeinode t1" using iappend_spec [OF A(2) r1 m1, of ?e] f(3) i1 by auto
  have r2: "freeinode s < freeinode t2" using A(4) B(4) by (simp add: word_less_nat_alt)
  have m2: "mentry t2 (freeinode s) = (T_FILE, 1, [])" using mentry_nth [OF r2] B(3) un by (simp add: nth_append)
  have i2: "(mimage t2)[unat (freeinode s) := (T_FILE, 1, [] @ concat cs)] = [z, (T_DIR, 1, r @ ?e)] @ gs @ [(T_FILE, 1, concat cs)]"
    using B(3) un by (simp add: list_update_append)
  obtain t3 where "rfold (iappend (freeinode s)) cs t2 = Ok t3" "mfs t3" "mimage t3 = [z, (T_DIR, 1, r @ ?e)] @ gs @ [(T_FILE, 1, concat cs)]"
    using rfold_iappend [OF B(2) r2 m2, of cs] room f(2) unfolding i2 by auto
  then show ?thesis using A(1) B(1) f(1) fi by (auto simp: mk_file_def opened_def Let_def entry_name_def)
qed

lemma mk_files_spec:
  assumes "mfs s" "mimage s = [z, (T_DIR, 1, r)] @ gs" "length gs + length files \<le> 198"
    "\<forall>(a, cs)\<in>set files. 47 \<notin> set a \<and> length (concat cs) \<le> 140 * 512" "length r + 16 * length files \<le> 140 * 512"
    "taken ([z, (T_DIR, 1, r @ root_entries (2 + length gs) (map fst files))] @ gs @ file_entries files) \<le> 940"
  shows "\<exists>t. rfold (mk_file 1) (map opened files) s = Ok t \<and> mfs t \<and>
    mimage t = [z, (T_DIR, 1, r @ root_entries (2 + length gs) (map fst files))] @ gs @ file_entries files"
  using assms
proof (induction files arbitrary: s r gs)
  case Nil
  then show ?case by (auto simp: file_entries_def)
next
  case (Cons f files)
  obtain a cs where f: "f = (a, cs)" by (cases f)
  obtain y1 y2 y3 where z: "z = (y1, y2, y3)" by (cases z)
  let ?r = "r @ image_dirent (of_nat (2 + length gs)) (entry_name a)" and ?g = "(T_FILE, 1, concat cs)"
  have c: "cost (nblk (length ?r)) \<le> cost (nblk (length (r @ root_entries (2 + length gs) (map fst (f # files)))))"
    by (intro cost_mono nblk_mono) (simp add: f)
  then have "taken ([z, (T_DIR, 1, ?r)] @ gs @ [?g]) \<le> 940"
    using Cons.prems(6) by (simp add: z f file_entries_def)
  then obtain t where t: "mk_file 1 (opened (a, cs)) s = Ok t" "mfs t" "mimage t = [z, (T_DIR, 1, ?r)] @ gs @ [?g]"
    using mk_file_spec [OF Cons.prems(1,2), of a cs] Cons.prems(3,4,5) f by auto
  have "\<exists>u. rfold (mk_file 1) (map opened files) t = Ok u \<and> mfs u \<and>
    mimage u = [z, (T_DIR, 1, ?r @ root_entries (2 + length (gs @ [?g])) (map fst files))] @ (gs @ [?g]) @ file_entries files"
    using t(3) Cons.prems(3-6) by (intro Cons.IH [OF t(2)]) (simp_all add: f z file_entries_def)
  then show ?case using t(1) by (simp add: f file_entries_def)
qed

lemma fold_wsect:
  assumes "n \<le> 1000"
  shows "fold (\<lambda>i. wsect (of_nat i) d) [0..<n] s = s\<lparr>img := \<lambda>b. if unat b < n then d else img s b, nsect := max (nsect s) (of_nat n)\<rparr>"
  using assms
proof (induction n)
  case (Suc n)
  have u: "unat (of_nat n :: u32) = n" using Suc.prems by simp
  have "(\<lambda>b. if unat b < n then d else img s b)(of_nat n := d) = (\<lambda>b. if unat b < Suc n then d else img s b)"
    using u by (auto simp: fun_eq_iff less_Suc_eq word_unat_eq_iff)
  moreover have "max (max (nsect s) (of_nat n)) (of_nat n + 1) = max (nsect s) (of_nat (Suc n))"
  proof -
    have "(of_nat n :: u32) \<le> of_nat n + 1" using u unat_next [of "of_nat n"] Suc.prems by (simp add: word_le_nat_alt)
    then show ?thesis by (simp add: max.assoc max_absorb2 add.commute)
  qed
  ultimately show ?case using Suc by (simp add: wsect_def)
qed simp

definition blank :: mkst where
  "blank = wsect 1 sb_bytes (fold (\<lambda>i. wsect (of_nat i) (replicate BSIZE 0)) [0..<fssize]
     \<lparr>img = (\<lambda>_. []), nsect = 0, freeinode = 1, freeblock = of_nat nmeta\<rparr>)"

lemma blank_spec: "mfs blank" "mimage blank = [(0, 0, [])]" "unat (freeinode blank) = 1"
proof -
  have nm: "of_nat nmeta = (59 :: u32)"
    by (simp add: nmeta_def nlog_def ninodeblocks_def nbitmap_def NINODES_def IPB_def fssize_def LOGSIZE_def MAXOPBLOCKS_def
      dinode_size_def NDIRECT_def BSIZE_def)
  have b: "blank = \<lparr>img = (\<lambda>b. if unat b < 1000 then replicate 512 0 else [])(1 := sb_bytes), nsect = 1000, freeinode = 1, freeblock = 59\<rparr>"
    unfolding blank_def fssize_def fold_wsect [OF order_refl] nm by (simp add: wsect_def BSIZE_def max_def fun_eq_iff)
  have l: "length sb_bytes = 512" by (simp add: sb_bytes_def BSIZE_def)
  have "IBLOCK 0 mksb = 32" by (simp add: IBLOCK_def mksb_def nlog_def LOGSIZE_def MAXOPBLOCKS_def)
  moreover have "get32s (replicate 512 0) 12 13 = replicate 13 0" by (intro nth_equalityI) (simp_all add: get32s_def get32_zero)
  ultimately have d: "mdin blank 0 = din0"
    by (simp add: b mdin_def get_dinode_def dinode_off_def din0_def get16_def get32_zero NDIRECT_def)
  have m: "msize blank 0 = 0" "mused blank 0 = {}" "mentry blank 0 = (0, 0, [])"
    by (simp_all add: msize_def mused_def mblocks_def mentry_def mfile_def mcontents_def nblk_def d din0_def)
  have one: "j < freeinode blank \<longleftrightarrow> j = 0" for j by (simp add: b word_less_nat_alt unat_eq_0)
  show im: "mimage blank = [(0, 0, [])]" using m(3) by (simp add: mimage_def b)
  have "mok blank" using l by (auto simp: b mok_def word_less_nat_alt word_le_nat_alt)
  moreover have "fmap blank (mdin blank 0) 0" by (simp add: d fmap_def din0_def NDIRECT_def)
  ultimately show "mfs blank" unfolding mfs_def one im using m by (simp add: b nblk_def padded_def cost_def)
  show "unat (freeinode blank) = 1" by (simp add: b)
qed

lemma bitmap_fold:
  assumes "n \<le> 4096"
  defines "buf \<equiv> fold (\<lambda>i buf. buf[i div 8 := buf ! (i div 8) OR push_bit (i mod 8) 1]) [0..<n] (replicate 512 (0 :: u8))"
  shows "length buf = 512 \<and> (\<forall>b<4096. bit (buf ! (b div 8)) (b mod 8) \<longleftrightarrow> b < n)"
  using assms(1) unfolding buf_def
proof (induction n)
  case 0
  have "b div 8 < 512" if "b < 4096" for b :: nat using that by (intro less_mult_imp_div_less) simp
  then show ?case by simp
next
  case (Suc n)
  define d where "d = fold (\<lambda>i buf. buf[i div 8 := buf ! (i div 8) OR push_bit (i mod 8) 1]) [0..<n] (replicate 512 (0 :: u8))"
  have d: "length d = 512" "\<And>b. b < 4096 \<Longrightarrow> bit (d ! (b div 8)) (b mod 8) \<longleftrightarrow> b < n" using Suc by (simp_all add: d_def)
  have n8: "n div 8 < 512" using Suc.prems by (intro less_mult_imp_div_less) simp
  have "bit (d[n div 8 := d ! (n div 8) OR bmask n] ! (b div 8)) (b mod 8) \<longleftrightarrow> b < Suc n" if b: "b < 4096" for b
  proof (cases "b div 8 = n div 8")
    case True
    have "b mod 8 = n mod 8 \<longleftrightarrow> b = n" using True div_mult_mod_eq [of b 8] div_mult_mod_eq [of n 8] by auto
    moreover have "bit (d ! (n div 8)) (b mod 8) \<longleftrightarrow> b < n" using d(2) [OF b] True by simp
    ultimately show ?thesis using True n8 d(1) by (auto simp: bit_OR_bmask)
  next
    case False
    then have "b \<noteq> n" by auto
    then show ?thesis using False d(2) [OF b] by (auto simp: less_Suc_eq)
  qed
  then show ?case using d(1) by (simp add: d_def bmask_def)
qed

lemma mk_balloc_spec:
  assumes ok: "mok s"
  shows "\<exists>t. mk_balloc (unat (freeblock s)) s = Ok t \<and> freeblock t = freeblock s \<and> freeinode t = freeinode s \<and>
    (\<forall>b. b \<noteq> 58 \<longrightarrow> img t b = img s b) \<and> (\<forall>b<4096. bit (img t 58 ! (b div 8)) (b mod 8) \<longleftrightarrow> b < unat (freeblock s))"
proof -
  have n: "unat (freeblock s) \<le> 4096" "unat (freeblock s) < BSIZE * 8" using mokD(3) [OF ok] by (simp_all add: BSIZE_def)
  have "sb_bmapstart mksb = 58"
    by (simp add: mksb_def nlog_def LOGSIZE_def MAXOPBLOCKS_def ninodeblocks_def NINODES_def IPB_def dinode_size_def NDIRECT_def BSIZE_def)
  then show ?thesis using n(2) bitmap_fold [OF n(1)] by (simp add: mk_balloc_def wsect_def BSIZE_def)
qed

text \<open>The blocks of the files when the root directory has \<open>n\<close> bytes of entries.\<close>

definition mheld :: "nat \<Rightarrow> mkst \<Rightarrow> u32 \<Rightarrow> u32 set" where
  "mheld n t j = mblocks t (mdin t j) (nblk (if j = 1 then n else msize t j))"

text \<open>Everything before the root directory is rounded up.\<close>

lemma mkfs_files:
  assumes n: "length files \<le> 198" and f: "\<forall>(a, cs)\<in>set files. 47 \<notin> set a \<and> length (concat cs) \<le> 140 * 512"
    and room: "taken ((T_DIR, 1, root_bytes (map fst files)) # file_entries files) \<le> 940"
  shows "\<exists>s. mkfs (map opened files) = rbind (rinode 1 s) (\<lambda>din. rbind (winode 1 (din\<lparr>i_size := (i_size din div of_nat BSIZE + 1) * of_nat BSIZE\<rparr>) s)
      (\<lambda>s. mk_balloc (unat (freeblock s)) s)) \<and>
    mfs s \<and> mimage s = [(0, 0, []), (T_DIR, 1, root_bytes (map fst files))] @ file_entries files"
proof -
  let ?d1 = "image_dirent 1 (bytes ''.'')" and ?d2 = "image_dirent 1 (bytes ''..'')"
  obtain s1 where A: "mk_ialloc T_DIR blank = Ok (1, s1)" "mfs s1" "mimage s1 = [(0, 0, []), (T_DIR, 1, [])]" "unat (freeinode s1) = 2"
  proof -
    have "freeinode blank = 1" using blank_spec(3) by (simp add: word_unat_eq_iff)
    then show thesis using mk_ialloc_spec [OF blank_spec(1), of T_DIR] blank_spec(2,3) that by auto
  qed
  have r1: "1 < freeinode s1" using A(4) by (simp add: word_less_nat_alt)
  have m1: "mentry s1 1 = (T_DIR, 1, [])" using mentry_nth [OF r1] A(3) by simp
  obtain s2 where B: "iappend 1 ?d1 s1 = Ok s2" "mfs s2" "mimage s2 = [(0, 0, []), (T_DIR, 1, ?d1)]" "freeinode s2 = freeinode s1"
    using iappend_spec [OF A(2) r1 m1, of ?d1] A(3) by (auto simp: nblk_def cost_def)
  have r2: "1 < freeinode s2" using r1 B(4) by simp
  have m2: "mentry s2 1 = (T_DIR, 1, ?d1)" using mentry_nth [OF r2] B(3) by simp
  obtain s3 where C: "iappend 1 ?d2 s2 = Ok s3" "mfs s3" "mimage s3 = [(0, 0, []), (T_DIR, 1, ?d1 @ ?d2)] @ []"
    using iappend_spec [OF B(2) r2 m2, of ?d2] B(3) by (auto simp: nblk_def cost_def)
  obtain s4 where D: "rfold (mk_file 1) (map opened files) s3 = Ok s4" "mfs s4"
    "mimage s4 = [(0, 0, []), (T_DIR, 1, root_bytes (map fst files))] @ file_entries files"
    using mk_files_spec [OF C(2,3), of files] n f room by (auto simp: root_bytes_def nblk_def cost_def)
  have "mkfs (map opened files) = rbind (rinode 1 s4) (\<lambda>din. rbind (winode 1 (din\<lparr>i_size := (i_size din div of_nat BSIZE + 1) * of_nat BSIZE\<rparr>) s4)
      (\<lambda>s. mk_balloc (unat (freeblock s)) s))"
    using A(1) B(1) C(1) D(1) by (simp add: mkfs_def blank_def [symmetric] Let_def ROOTINO_def)
  then show ?thesis using D(2,3) by blast
qed

lemma take_mcontents: "k \<le> n \<Longrightarrow> take k (mcontents s din n) = mcontents s din k"
  by (simp add: mcontents_def take_map)

lemma mcontents_padded:
  assumes "padded s din k" "k \<le> 512 * nblk k"
  shows "mcontents s din (512 * nblk k) = mcontents s din k @ replicate (512 * nblk k - k) 0"
proof (rule nth_equalityI)
  fix i assume "i < length (mcontents s din (512 * nblk k))"
  then show "mcontents s din (512 * nblk k) ! i = (mcontents s din k @ replicate (512 * nblk k - k) 0) ! i"
    using assms by (cases "i < k") (auto simp: mcontents_def nth_append padded_def)
qed (use assms(2) in \<open>simp add: mcontents_def\<close>)

text \<open>Writing the inode of the root directory with its rounded size.\<close>

lemma winode_root:
  assumes s: "mfs s" and i: "1 < freeinode s" "mentry s 1 = (T_DIR, 1, r)"
  defines "N \<equiv> (length r div 512 + 1) * 512"
  shows "\<exists>u. rbind (rinode 1 s) (\<lambda>din. winode 1 (din\<lparr>i_size := (i_size din div of_nat BSIZE + 1) * of_nat BSIZE\<rparr>) s) = Ok u \<and>
    mok u \<and> freeblock u = freeblock s \<and> freeinode u = freeinode s \<and> img u 1 = sb_bytes \<and> (\<forall>b\<ge>59. img u b = img s b) \<and>
    (\<forall>j. j \<noteq> 1 \<longrightarrow> mdin u j = mdin s j) \<and> mdin u 1 = (mdin s 1)\<lparr>i_size := of_nat N\<rparr>"
proof -
  let ?d = "(mdin s 1)\<lparr>i_size := of_nat N\<rparr>"
  note S = mfsD [OF s]
  have k: "length r = msize s 1" using i(2) by (auto simp: mentry_def)
  have "length r \<le> 140 * 512" using S(4) [OF i(1)] k by simp
  then have kb: "length r div 512 \<le> 140" using div_le_mono [of "length r" "140 * 512" 512] by simp
  have uN: "unat ((i_size (mdin s 1) div of_nat BSIZE + 1) * of_nat BSIZE) = N"
  proof -
    have q: "unat (i_size (mdin s 1) div 512) = length r div 512" by (simp add: unat_div k msize_def)
    have "unat (i_size (mdin s 1) div 512 + 1) = length r div 512 + 1" using q kb by (subst unat_add_u32) simp_all
    then show ?thesis using kb unfolding N_def BSIZE_def by (subst unat_mult_lem [THEN iffD1]) simp_all
  qed
  have N: "(i_size (mdin s 1) div of_nat BSIZE + 1) * of_nat BSIZE = of_nat N" unfolding uN [symmetric] by simp
  have d: "din0\<lparr>i_type := i_type ?d, i_major := i_major ?d, i_minor := i_minor ?d, i_nlink := i_nlink ?d,
      i_size := i_size ?d, i_addrs := i_addrs ?d\<rparr> = ?d" by (simp add: mdin_def get_dinode_def din0_def)
  have "length (i_addrs ?d) = 13" using S(5) [OF i(1)] by (simp add: fmap_def)
  then obtain u where "winode 1 ?d s = Ok u" "mok u" "freeblock u = freeblock s" "freeinode u = freeinode s" "img u 1 = img s 1"
    "\<forall>b\<ge>59. img u b = img s b" "mdin u 1 = ?d" "\<forall>j. j \<noteq> 1 \<longrightarrow> mdin u j = mdin s j"
    using winode_spec [OF S(1) S(7) [OF i(1)], of ?d] unfolding d by blast
  then show ?thesis using rinode_spec [OF S(1) S(7) [OF i(1)]] S(10) N by auto
qed

definition finished :: "mkst \<Rightarrow> u8 list \<Rightarrow> mkst \<Rightarrow> bool" where
  "finished s r t \<longleftrightarrow> img t 1 = sb_bytes \<and> freeblock t = freeblock s \<and>
     (\<forall>j<freeinode s. mheld (length r) t j = mused s j) \<and> (\<forall>j<freeinode s. j \<noteq> 1 \<longrightarrow> mentry t j = mentry s j) \<and>
     i_type (mdin t 1) = T_DIR \<and> i_nlink (mdin t 1) = 1 \<and> take (length r) (mfile t 1) = r \<and>
     (length r mod 512 \<noteq> 0 \<longrightarrow> mfile t 1 = r @ replicate (512 - length r mod 512) 0) \<and>
     (length r mod 512 = 0 \<longrightarrow> msize t 1 = length r + 512) \<and>
     (length r mod 512 = 0 \<and> length r div 512 < 12 \<longrightarrow> maddr t (mdin t 1) (length r div 512) = 0) \<and>
     (\<forall>b<4096. bit (img t 58 ! (b div 8)) (b mod 8) \<longleftrightarrow> b < unat (freeblock t))"

lemma length_mcontents [simp]: "length (mcontents s din k) = k"
  by (simp add: mcontents_def)

lemma rounded_root:
  assumes f: "fmap s d (nblk k)" "\<And>b. b \<in> mblocks s d (nblk k) \<Longrightarrow> img t b = img s b" "freeblock s \<le> freeblock t" "padded s d k"
    and k: "k \<le> 140 * 512" and t: "mdin t 1 = d\<lparr>i_size := of_nat ((k div 512 + 1) * 512)\<rparr>"
  shows "msize t 1 = (k div 512 + 1) * 512" "mblocks t (mdin t 1) (nblk k) = mblocks s d (nblk k)"
    "take k (mfile t 1) = mcontents s d k" "k mod 512 \<noteq> 0 \<Longrightarrow> mfile t 1 = mcontents s d k @ replicate (512 - k mod 512) 0"
    "k mod 512 = 0 \<Longrightarrow> k div 512 < 12 \<Longrightarrow> maddr t (mdin t 1) (k div 512) = 0"
proof -
  note F = mblocks_frame [OF f(1-3)]
  have "k div 512 \<le> 140" using k div_le_mono [of k "140 * 512" 512] by simp
  then have "(k div 512 + 1) * 512 < 4294967296" by simp
  then show m: "msize t 1 = (k div 512 + 1) * 512" using unat_of_nat_u32 [of "(k div 512 + 1) * 512"] unfolding msize_def t by simp
  show "mblocks t (mdin t 1) (nblk k) = mblocks s d (nblk k)" using F(2) by (simp add: t size_irrelevant)
  have mf: "mfile t 1 = mcontents t d ((k div 512 + 1) * 512)" unfolding mfile_def m unfolding t size_irrelevant ..
  have c: "mcontents t d k = mcontents s d k" using F(3) by simp
  have "k \<le> (k div 512 + 1) * 512" using dividend_less_times_div [of 512 k] by simp
  then show "take k (mfile t 1) = mcontents s d k" unfolding mf using c by (simp add: take_mcontents)
  show "mfile t 1 = mcontents s d k @ replicate (512 - k mod 512) 0" if "k mod 512 \<noteq> 0"
  proof -
    have n: "(k div 512 + 1) * 512 = 512 * nblk k" using nblk_div(2) [OF that] by simp
    have "512 * nblk k - k = 512 - k mod 512" using block_rest [of k] n by simp
    then show ?thesis unfolding mf n using mcontents_padded [of t d k] F(4) [of k] f(4) c \<open>k \<le> (k div 512 + 1) * 512\<close> n by simp
  qed
  show "maddr t (mdin t 1) (k div 512) = 0" if "k mod 512 = 0" "k div 512 < 12"
    using f(1) nblk_div(1) [of k] that unfolding t size_irrelevant by (simp add: fmap_def maddr_def)
qed

text \<open>The bitmap block is neither a data block nor a block of inodes.\<close>

lemma bitmap_frame:
  assumes "\<And>b. b \<noteq> 58 \<Longrightarrow> img t b = img u b"
  shows "59 \<le> b \<Longrightarrow> img t b = img u b" "j < 200 \<Longrightarrow> mdin t j = mdin u j"
proof -
  show "img t b = img u b" if "59 \<le> b" using that by (intro assms) (auto simp: word_le_nat_alt)
  show "mdin t j = mdin u j" if j: "j < 200"
  proof -
    have "unat j < 200" using j by (simp add: word_less_nat_alt)
    then have "unat j div 8 < 25" by (intro less_mult_imp_div_less) simp
    then have "IBLOCK j mksb \<noteq> 58" using iblock_mksb(1) [OF j] by auto
    then show ?thesis using assms by (simp add: mdin_def)
  qed
qed

lemma mkfs_finish:
  assumes s: "mfs s" and i: "1 < freeinode s" "mentry s 1 = (T_DIR, 1, r)"
  shows "\<exists>t. rbind (rinode 1 s) (\<lambda>din. rbind (winode 1 (din\<lparr>i_size := (i_size din div of_nat BSIZE + 1) * of_nat BSIZE\<rparr>) s)
      (\<lambda>s. mk_balloc (unat (freeblock s)) s)) = Ok t \<and> finished s r t"
proof -
  let ?k = "length r" and ?d = "mdin s 1"
  let ?N = "(?k div 512 + 1) * 512"
  note S = mfsD [OF s]
  obtain u where U: "rbind (rinode 1 s) (\<lambda>din. winode 1 (din\<lparr>i_size := (i_size din div of_nat BSIZE + 1) * of_nat BSIZE\<rparr>) s) = Ok u"
    "mok u" "freeblock u = freeblock s" "freeinode u = freeinode s" "img u 1 = sb_bytes" "\<forall>b\<ge>59. img u b = img s b"
    "\<forall>j. j \<noteq> 1 \<longrightarrow> mdin u j = mdin s j" "mdin u 1 = ?d\<lparr>i_size := of_nat ?N\<rparr>" using winode_root [OF assms] by blast
  obtain t where T: "mk_balloc (unat (freeblock u)) u = Ok t" "freeblock t = freeblock s" "freeinode t = freeinode s"
    "\<And>b. b \<noteq> 58 \<Longrightarrow> img t b = img u b" "\<forall>b<4096. bit (img t 58 ! (b div 8)) (b mod 8) \<longleftrightarrow> b < unat (freeblock t)"
    using mk_balloc_spec [OF U(2)] U(3,4) by auto
  have dat: "img t b = img s b" if "59 \<le> b" for b using bitmap_frame(1) [OF T(4) that] U(6) that by simp
  have din: "mdin t j = mdin u j" if "j < freeinode s" for j using bitmap_frame(2) [OF T(4) S(7) [OF that]] .
  have fr: "\<forall>b\<in>mused s j. img t b = img s b" if "j < freeinode s" for j using S(8) [OF that] dat by (auto simp: in_data_def)
  have O: "mentry t j = mentry s j" "mheld ?k t j = mused s j" if j: "j < freeinode s" "j \<noteq> 1" for j
  proof -
    have e: "mdin t j = mdin s j" using din [OF j(1)] U(7) j(2) by simp
    note F = other_file [OF S(5) [OF j(1)] e _ fr [OF j(1)]]
    show "mentry t j = mentry s j" "mheld ?k t j = mused s j" using F T(2) j(2) by (simp_all add: mheld_def mused_def)
  qed
  have d: "mdin t 1 = ?d\<lparr>i_size := of_nat ?N\<rparr>" using din [OF i(1)] U(8) by simp
  have k: "msize s 1 = ?k" "mcontents s ?d ?k = r" "i_type ?d = T_DIR" "i_nlink ?d = 1" using i(2) by (auto simp: mentry_def mfile_def)
  note R = rounded_root [of s ?d ?k t, OF S(5) [OF i(1), unfolded k(1)] _ _ S(9) [OF i(1), unfolded k(1)] S(4) [OF i(1), unfolded k(1)] d]
  have im: "b \<in> mblocks s ?d (nblk ?k) \<Longrightarrow> img t b = img s b" for b using fr [OF i(1)] by (simp add: mused_def k(1))
  have fb: "freeblock s \<le> freeblock t" using T(2) by simp
  have "mheld ?k t 1 = mused s 1" using R(2) [OF im fb] by (simp add: mheld_def mused_def k(1))
  then have "\<forall>j<freeinode s. mheld ?k t j = mused s j" using O(2) by (metis)
  moreover have "img t 1 = sb_bytes" using T(4) [of 1] U(5) by simp
  moreover have "i_type (mdin t 1) = T_DIR" "i_nlink (mdin t 1) = 1" using k(3,4) by (simp_all add: d)
  ultimately have "finished s r t" using T(2,5) O(1) R(1) [OF im fb] R(3-5) [OF im fb] unfolding finished_def k(2) by auto
  moreover have "rbind (rinode 1 s) (\<lambda>din. rbind (winode 1 (din\<lparr>i_size := (i_size din div of_nat BSIZE + 1) * of_nat BSIZE\<rparr>) s)
      (\<lambda>s. mk_balloc (unat (freeblock s)) s)) = Ok t" using U(1) T(1) by (auto simp: rbind_Ok_iff)
  ultimately show ?thesis by blast
qed

text \<open>What \<open>readsb\<close> of the kernel finds in the first block.\<close>

lemma image_sb: "sb_of sb_bytes = mksb"
  by (simp add: sb_of_def sb_bytes_def BSIZE_def get32_put32_same get32_put32_diff)

lemma root_bytes_length: "length (root_bytes as) = 16 * (2 + length as)"
  by (simp add: root_bytes_def)

text \<open>C8. \<open>mkfs\<close> makes the file system it is asked for. If the names have no slash, no file is longer than 140 blocks, there are
  inodes and blocks enough, then it succeeds; the kernel reads the super block that \<open>mkfs\<close> laid out the disk by; the
  \<open>k\<close>th file of the command line is inode \<open>k + 2\<close>, a file with one link and exactly the bytes read; inode 1
  is a directory whose bytes are the entries of the root, padded with zeros up to the end of the block; when the entries
  end on a block boundary, the size counts one more block that is not allocated, its address being 0;
  no block belongs to two files; and the bitmap marks the blocks below \<open>freeblock\<close>, among which are those of all files.\<close>

theorem mkfs_correct:
  assumes "length files \<le> 198" "\<forall>(a, cs)\<in>set files. 47 \<notin> set a \<and> length (concat cs) \<le> 140 * 512"
    "taken ((T_DIR, 1, root_bytes (map fst files)) # file_entries files) \<le> 940"
  shows "\<exists>t. mkfs (map opened files) = Ok t \<and> sb_of (img t 1) = mksb \<and>
    (\<forall>k<length files. mentry t (of_nat (2 + k)) = (T_FILE, 1, concat (snd (files ! k)))) \<and>
    i_type (mdin t 1) = T_DIR \<and> i_nlink (mdin t 1) = 1 \<and>
    (let r = root_bytes (map fst files); n = 2 + length files
     in take (length r) (mfile t 1) = r \<and>
        (length r mod 512 \<noteq> 0 \<longrightarrow> mfile t 1 = r @ replicate (512 - length r mod 512) 0) \<and>
        (length r mod 512 = 0 \<longrightarrow> msize t 1 = length r + 512 \<and> maddr t (mdin t 1) (length r div 512) = 0) \<and>
        (\<forall>i<n. mheld (length r) t (of_nat i) \<subseteq> {59..<freeblock t}) \<and>
        (\<forall>i<n. \<forall>j<n. i \<noteq> j \<longrightarrow> mheld (length r) t (of_nat i) \<inter> mheld (length r) t (of_nat j) = {})) \<and>
    (\<forall>b<4096. bit (img t 58 ! (b div 8)) (b mod 8) \<longleftrightarrow> b < unat (freeblock t))"
proof -
  let ?r = "root_bytes (map fst files)" and ?n = "2 + length files"
  obtain s where s: "mkfs (map opened files) = rbind (rinode 1 s) (\<lambda>din. rbind (winode 1 (din\<lparr>i_size := (i_size din div of_nat BSIZE + 1) * of_nat BSIZE\<rparr>) s)
      (\<lambda>s. mk_balloc (unat (freeblock s)) s))" "mfs s" "mimage s = [(0, 0, []), (T_DIR, 1, ?r)] @ file_entries files"
    using mkfs_files [OF assms] by blast
  note S = mfsD [OF s(2)]
  have n: "unat (freeinode s) = ?n" using arg_cong [OF s(3), of length] by (simp add: file_entries_def)
  have u: "unat (of_nat i :: u32) = i" "(of_nat i :: u32) < freeinode s" if "i < ?n" for i
    using that assms(1) n by (simp_all add: word_less_nat_alt)
  have i1: "1 < freeinode s" "mentry s 1 = (T_DIR, 1, ?r)" using u(2) [of 1] mentry_nth [of 1 s] s(3) by simp_all
  obtain t where t: "mkfs (map opened files) = Ok t" "finished s ?r t" using mkfs_finish [OF s(2) i1] s(1) by auto
  have F: "\<And>i. i < ?n \<Longrightarrow> mheld (length ?r) t (of_nat i) = mused s (of_nat i)" using t(2) u(2) by (simp add: finished_def)
  have "mentry t (of_nat (2 + k)) = (T_FILE, 1, concat (snd (files ! k)))" if "k < length files" for k
  proof -
    have "unat (of_nat (2 + k) :: u32) \<noteq> unat (1 :: u32)" using u(1) [of "2 + k"] that by (simp del: of_nat_add)
    then have "(of_nat (2 + k) :: u32) \<noteq> 1" by metis
    then have "mentry t (of_nat (2 + k)) = mentry s (of_nat (2 + k))" using t(2) u(2) [of "2 + k"] that by (simp add: finished_def)
    also have "\<dots> = mimage s ! (2 + k)" using that n by simp
    finally show ?thesis using s(3) that by (simp add: file_entries_def split: prod.splits)
  qed
  moreover have "mused s (of_nat i) \<subseteq> {59..<freeblock t}" if "i < ?n" for i
    using S(8) [OF u(2) [OF that]] t(2) by (auto simp: in_data_def finished_def)
  moreover have "mused s (of_nat i) \<inter> mused s (of_nat j) = {}" if "i < ?n" "j < ?n" "i \<noteq> j" for i j
    using S(6) [OF u(2) u(2)] that u(1) by metis
  moreover have "length ?r div 512 < 12" using assms(1) by (intro less_mult_imp_div_less) (simp add: root_bytes_length)
  ultimately show ?thesis using t F unfolding finished_def Let_def by (intro exI [of _ t]) (simp add: image_sb)
qed

theorem mkfs_correct_witness:
  "\<exists>t. mkfs [(bytes ''_cat'', Some [[1, 2], [3]])] = Ok t \<and> sb_of (img t 1) = mksb \<and> mentry t 2 = (T_FILE, 1, [1, 2, 3]) \<and>
     mfile t 1 = image_dirent 1 (bytes ''.'') @ image_dirent 1 (bytes ''..'') @ image_dirent 2 (bytes ''cat'') @ replicate 464 0"
proof -
  let ?f = "[(bytes ''_cat'', [[1, 2], [3 :: u8]])]"
  have b: "bytes ''_cat'' = 95 # bytes ''cat''" "47 \<notin> set (bytes ''_cat'')" by code_simp+
  have e: "root_bytes (map fst ?f) = image_dirent 1 (bytes ''.'') @ image_dirent 1 (bytes ''..'') @ image_dirent 2 (bytes ''cat'')"
    by (simp add: root_bytes_def entry_name_def b(1))
  have "\<forall>(a, cs)\<in>set ?f. 47 \<notin> set a \<and> length (concat cs) \<le> 140 * 512" using b(2) by simp
  moreover have "taken ((T_DIR, 1, root_bytes (map fst ?f)) # file_entries ?f) \<le> 940" unfolding e by (simp add: file_entries_def nblk_def cost_def)
  ultimately show ?thesis using mkfs_correct [of ?f] unfolding e Let_def by (auto simp: opened_def)
qed

end
