(* ===== verification/Grep.thy ===== *)
theory Grep
  imports Ulib
begin

text \<open>
  grep.c: the regular expression matcher and the loop that reads, splits and prints lines.
  A descriptor is the list of the chunks that successive reads find available; a read
  takes at most what it asks for, and an empty chunk is the end of the input.
\<close>

section \<open>The matcher\<close>

function (sequential) matchhere :: "u8 list \<Rightarrow> u8 list \<Rightarrow> bool"
  and matchstar :: "u8 \<Rightarrow> u8 list \<Rightarrow> u8 list \<Rightarrow> bool" where
  "matchhere re tx =
     (if hd0 re = 0 then True
      else if hd0 (tl re) = chr CHR ''*'' then matchstar (hd0 re) (tl (tl re)) tx
      else if hd0 re = chr CHR ''$'' \<and> hd0 (tl re) = 0 then hd0 tx = 0
      else if hd0 tx \<noteq> 0 \<and> (hd0 re = chr CHR ''.'' \<or> hd0 re = hd0 tx) then matchhere (tl re) (tl tx)
      else False)"
| "matchstar c re tx =
     (if matchhere re tx then True
      else if hd0 tx \<noteq> 0 \<and> (hd0 tx = c \<or> c = chr CHR ''.'') then matchstar c re (tl tx)
      else False)"
  by pat_completeness auto
termination
  by (relation "measure (\<lambda>x. case x of Inl (re, tx) \<Rightarrow> 2 * length re + length tx
        | Inr (c, re, tx) \<Rightarrow> 2 * length re + length tx + 1)")
    (auto simp: hd0_def split: list.splits)

declare matchhere.simps [simp del] matchstar.simps [simp del]

fun match_from :: "u8 list \<Rightarrow> u8 list \<Rightarrow> bool" where
  "match_from re [] = matchhere re []"
| "match_from re (c # tx) = (if matchhere re (c # tx) then True else if c \<noteq> 0 then match_from re tx else False)"

definition match :: "u8 list \<Rightarrow> u8 list \<Rightarrow> bool" where
  "match re tx =
     (if hd0 re = chr CHR ''^'' then matchhere (tl re) tx else match_from re tx)"

section \<open>Lines\<close>

definition uread :: "nat \<Rightarrow> u8 list list \<Rightarrow> u8 list \<times> u8 list list" where
  "uread lim chunks =
     (case chunks of [] \<Rightarrow> ([], [])
      | c # cs \<Rightarrow> if length c \<le> lim then (c, cs) else (take lim c, drop lim c # cs))"

text \<open>The inner loop: what is written, and the pointer \<open>p\<close> at its end.\<close>

function grep_lines :: "u8 list \<Rightarrow> u8 list \<Rightarrow> u8 list \<times> u8 list" where
  "grep_lines pattern p =
     (case strchr p 10 of
        None \<Rightarrow> ([], p)
      | Some q \<Rightarrow>
          let line = take (length p - length q) p;
              (out, p') = grep_lines pattern (tl q)
          in ((if match pattern line then line @ [10] else []) @ out, p'))"
  by pat_completeness auto
termination
  by (relation "measure (length \<circ> snd)") (auto dest!: strchr_SomeD)

declare grep_lines.simps [simp del]

lemma uread_le: "uread lim chunks = (d, cs) \<Longrightarrow> d \<noteq> [] \<Longrightarrow> length (concat cs) < length (concat chunks)"
  by (auto simp: uread_def split: list.splits if_splits)

definition GREPBUF :: nat where "GREPBUF = 1024"

function grep_loop :: "u8 list \<Rightarrow> u8 list \<Rightarrow> u8 list list \<Rightarrow> u8 list" where
  "grep_loop pattern b chunks =
     (case uread (GREPBUF - length b - 1) chunks of
        (d, cs) \<Rightarrow>
          if d = [] then []
          else let b = b @ d; (out, p) = grep_lines pattern b
               in out @ grep_loop pattern (if length p = length b then [] else p) cs)"
  by pat_completeness auto
termination
  by (relation "measure (\<lambda>(pattern, b, chunks). length (concat chunks))") (use uread_le in force)+

declare grep_loop.simps [simp del]

definition grep :: "u8 list \<Rightarrow> u8 list list \<Rightarrow> u8 list" where
  "grep pattern chunks = grep_loop pattern [] chunks"

text \<open>\<open>main\<close>: what is written to each descriptor, in order.\<close>

fun grep_files :: "(u8 list \<Rightarrow> u8 list list option) \<Rightarrow> u8 list \<Rightarrow> u8 list list \<Rightarrow> (nat \<times> u8 list) list" where
  "grep_files open_call pattern [] = []"
| "grep_files open_call pattern (f # fs) =
     (case open_call f of
        None \<Rightarrow> [(1, uformat (bytes ''grep: cannot open %s'' @ [10]) False (\<lambda>_. (1, f)) 0)]
      | Some chunks \<Rightarrow> (1, grep pattern chunks) # grep_files open_call pattern fs)"

definition grep_main :: "(u8 list \<Rightarrow> u8 list list option) \<Rightarrow> u8 list list \<Rightarrow> u8 list list \<Rightarrow> (nat \<times> u8 list) list" where
  "grep_main open_call stdin argv =
     (if length argv \<le> 1 then [(2, bytes ''usage: grep pattern [file ...]'' @ [10])]
      else if length argv \<le> 2 then [(1, grep (argv ! 1) stdin)]
      else grep_files open_call (argv ! 1) (drop 2 argv))"

section \<open>What the expressions mean\<close>

datatype item = Star u8 | One u8 | End

function parse :: "u8 list \<Rightarrow> item list" where
  "parse [] = []"
| "parse (c # re) =
     (if hd0 re = chr CHR ''*'' then Star c # parse (tl re)
      else if c = chr CHR ''$'' \<and> re = [] then [End]
      else One c # parse re)"
  by pat_completeness auto
termination
  by (relation "measure length") auto

definition accepts :: "u8 \<Rightarrow> u8 \<Rightarrow> bool" where
  "accepts c x \<longleftrightarrow> c = chr CHR ''.'' \<or> c = x"

primrec item_lang :: "item \<Rightarrow> u8 list set" where
  "item_lang (Star c) = {w. \<forall>x\<in>set w. accepts c x}"
| "item_lang (One c) = {[x] | x. accepts c x}"
| "item_lang End = {[]}"

primrec lang :: "item list \<Rightarrow> u8 list set" where
  "lang [] = {[]}"
| "lang (i # is) = {u @ v | u v. u \<in> item_lang i \<and> v \<in> lang is}"

definition matches_at :: "item list \<Rightarrow> u8 list \<Rightarrow> bool" where
  "matches_at is tx \<longleftrightarrow> (\<exists>w rest. tx = w @ rest \<and> w \<in> lang is \<and> (End \<in> set is \<longrightarrow> rest = []))"

lemma matches_at_Nil [simp]: "matches_at [] tx"
  by (simp add: matches_at_def)

lemma matches_at_End [simp]: "matches_at [End] tx \<longleftrightarrow> tx = []"
  by (auto simp: matches_at_def)

lemma matches_at_One: "matches_at (One c # is) tx \<longleftrightarrow> (\<exists>x t. tx = x # t \<and> accepts c x \<and> matches_at is t)"
proof
  assume "matches_at (One c # is) tx"
  then obtain w rest where w: "tx = w @ rest" "w \<in> lang (One c # is)" "End \<in> set (One c # is) \<longrightarrow> rest = []"
    unfolding matches_at_def by blast
  moreover from w(2) obtain x v where "w = x # v" "accepts c x" "v \<in> lang is" by auto
  ultimately have "tx = (x # v) @ rest" "accepts c x" "v \<in> lang is" "End \<in> set is \<longrightarrow> rest = []" by simp_all
  then show "\<exists>x t. tx = x # t \<and> accepts c x \<and> matches_at is t"
    by (intro exI [of _ x] exI [of _ "v @ rest"]) (auto simp: matches_at_def)
next
  assume "\<exists>x t. tx = x # t \<and> accepts c x \<and> matches_at is t"
  then obtain x w rest where t: "tx = x # w @ rest" "accepts c x" "w \<in> lang is" "End \<in> set is \<longrightarrow> rest = []"
    by (auto simp: matches_at_def)
  have "[x] @ w \<in> lang (One c # is)" using t(2,3) unfolding lang.simps item_lang.simps by blast
  moreover have "tx = ([x] @ w) @ rest" using t(1) by simp
  moreover have "End \<in> set (One c # is) \<longrightarrow> rest = []" using t(4) by simp
  ultimately show "matches_at (One c # is) tx" unfolding matches_at_def by blast
qed

lemma matches_at_Star:
  "matches_at (Star c # is) tx \<longleftrightarrow> (\<exists>u t. tx = u @ t \<and> (\<forall>x\<in>set u. accepts c x) \<and> matches_at is t)"
proof
  assume "matches_at (Star c # is) tx"
  then obtain w rest where w: "tx = w @ rest" "w \<in> lang (Star c # is)" "End \<in> set (Star c # is) \<longrightarrow> rest = []"
    unfolding matches_at_def by blast
  moreover from w(2) obtain u v where "w = u @ v" "\<forall>x\<in>set u. accepts c x" "v \<in> lang is" by auto
  ultimately have "tx = (u @ v) @ rest" "\<forall>x\<in>set u. accepts c x" "v \<in> lang is" "End \<in> set is \<longrightarrow> rest = []" by simp_all
  then show "\<exists>u t. tx = u @ t \<and> (\<forall>x\<in>set u. accepts c x) \<and> matches_at is t"
    by (intro exI [of _ u] exI [of _ "v @ rest"]) (auto simp: matches_at_def)
next
  assume "\<exists>u t. tx = u @ t \<and> (\<forall>x\<in>set u. accepts c x) \<and> matches_at is t"
  then obtain u w rest where t: "tx = u @ w @ rest" "\<forall>x\<in>set u. accepts c x" "w \<in> lang is" "End \<in> set is \<longrightarrow> rest = []"
    by (auto simp: matches_at_def)
  have "u @ w \<in> lang (Star c # is)" using t(2,3) by auto
  moreover have "tx = (u @ w) @ rest" using t(1) by simp
  moreover have "End \<in> set (Star c # is) \<longrightarrow> rest = []" using t(4) by simp
  ultimately show "matches_at (Star c # is) tx" unfolding matches_at_def by blast
qed

lemma matches_at_Star_step:
  "matches_at (Star c # is) tx \<longleftrightarrow> matches_at is tx \<or>
     (\<exists>x t. tx = x # t \<and> accepts c x \<and> matches_at (Star c # is) t)"
proof
  assume "matches_at (Star c # is) tx"
  then obtain u t where t: "tx = u @ t" "\<forall>x\<in>set u. accepts c x" "matches_at is t" unfolding matches_at_Star by blast
  then show "matches_at is tx \<or> (\<exists>x t. tx = x # t \<and> accepts c x \<and> matches_at (Star c # is) t)"
    unfolding matches_at_Star by (cases u) auto
next
  assume "matches_at is tx \<or> (\<exists>x t. tx = x # t \<and> accepts c x \<and> matches_at (Star c # is) t)"
  then show "matches_at (Star c # is) tx"
  proof
    assume "matches_at is tx"
    then show ?thesis unfolding matches_at_Star by (intro exI [of _ "[]"] exI [of _ tx]) simp
  next
    assume "\<exists>x t. tx = x # t \<and> accepts c x \<and> matches_at (Star c # is) t"
    then obtain x u v where "tx = (x # u) @ v" "\<forall>y\<in>set (x # u). accepts c y" "matches_at is v"
      unfolding matches_at_Star by auto
    then show ?thesis unfolding matches_at_Star by blast
  qed
qed

lemma hd0_0_iff: "0 \<notin> set xs \<Longrightarrow> hd0 xs = 0 \<longleftrightarrow> xs = []"
  by (cases xs) auto

lemma tl_no0: "0 \<notin> set xs \<Longrightarrow> 0 \<notin> set (tl xs)"
  by (cases xs) auto

lemma matchhere_iff:
  "0 \<notin> set re \<Longrightarrow> 0 \<notin> set tx \<Longrightarrow> matchhere re tx \<longleftrightarrow> matches_at (parse re) tx"
  "0 \<notin> set re \<Longrightarrow> 0 \<notin> set tx \<Longrightarrow> matchstar c re tx \<longleftrightarrow> matches_at (Star c # parse re) tx"
proof (induction re tx and c re tx rule: matchhere_matchstar.induct)
  case (1 re tx)
  show ?case
  proof (cases re)
    case Nil
    then show ?thesis by (simp add: matchhere.simps)
  next
    case (Cons a r)
    have r: "0 \<notin> set r" "a \<noteq> 0" using "1.prems"(1) Cons by auto
    note t = tl_no0 [OF r(1)] tl_no0 [OF "1.prems"(2)]
    consider "hd0 r = chr CHR ''*''" | "hd0 r \<noteq> chr CHR ''*''" "a = chr CHR ''$''" "r = []"
      | "hd0 r \<noteq> chr CHR ''*''" "\<not> (a = chr CHR ''$'' \<and> r = [])" by blast
    then show ?thesis
    proof cases
      case 1
      then show ?thesis using "1.IH"(1) Cons r t "1.prems"(2) by (simp add: matchhere.simps [of "a # r"])
    next
      case 2
      then show ?thesis using Cons r hd0_0_iff [OF "1.prems"(2)] by (simp add: matchhere.simps [of "[36]"])
    next
      case 3
      have e: "matchhere re tx = (tx \<noteq> [] \<and> accepts a (hd0 tx) \<and> matches_at (parse r) (tl tx))"
        using 3 "1.IH"(2) Cons r t hd0_0_iff [OF r(1)] hd0_0_iff [OF "1.prems"(2)]
        by (auto simp: matchhere.simps [of "a # r"] accepts_def)
      show ?thesis unfolding e using 3 Cons by (cases tx) (auto simp: matches_at_One)
    qed
  qed
next
  case (2 c re tx)
  note t = tl_no0 [OF "2.prems"(2)]
  have e: "matchstar c re tx = (matches_at (parse re) tx \<or>
      tx \<noteq> [] \<and> accepts c (hd0 tx) \<and> matches_at (Star c # parse re) (tl tx))"
    using "2.IH" "2.prems" t hd0_0_iff [OF "2.prems"(2)]
    by (auto simp: matchstar.simps [of c re tx] accepts_def)
  show ?case unfolding e matches_at_Star_step [of c _ tx] by (cases tx) auto
qed

lemma match_from_iff:
  "0 \<notin> set re \<Longrightarrow> 0 \<notin> set tx \<Longrightarrow> match_from re tx \<longleftrightarrow> (\<exists>pre t. tx = pre @ t \<and> matches_at (parse re) t)"
proof (induction tx)
  case Nil
  then show ?case using matchhere_iff(1) [of re "[]"] by simp
next
  case (Cons c tx)
  have "(\<exists>pre t. c # tx = pre @ t \<and> matches_at (parse re) t) \<longleftrightarrow>
    matches_at (parse re) (c # tx) \<or> (\<exists>pre t. tx = pre @ t \<and> matches_at (parse re) t)"
    by (auto simp: Cons_eq_append_conv)
  then show ?case using Cons matchhere_iff(1) [of re "c # tx"] by auto
qed

section \<open>Splitting the input into lines\<close>

definition unlines :: "u8 list list \<Rightarrow> u8 list" where
  "unlines ls = concat (map (\<lambda>l. l @ [10]) ls)"

definition is_line :: "u8 list \<Rightarrow> bool" where
  "is_line l \<longleftrightarrow> 10 \<notin> set l \<and> 0 \<notin> set l"

lemma unlines_simps [simp]: "unlines [] = []" "unlines (l # ls) = l @ 10 # unlines ls" "unlines (ls @ ms) = unlines ls @ unlines ms"
  by (simp_all add: unlines_def)

lemma strchr_line: "is_line l \<Longrightarrow> strchr (l @ 10 # rest) 10 = Some (10 # rest)"
  by (induction l) (auto simp: is_line_def)

lemma strchr_no_line: "is_line l \<Longrightarrow> strchr l 10 = None"
  by (induction l) (auto simp: is_line_def)

lemma grep_lines_unlines:
  "(\<forall>l\<in>set ls. is_line l) \<Longrightarrow> is_line rest \<Longrightarrow>
    grep_lines pat (unlines ls @ rest) = (unlines (filter (match pat) ls), rest)"
proof (induction ls)
  case Nil
  then show ?case by (simp add: grep_lines.simps [of pat rest] strchr_no_line)
next
  case (Cons l ls)
  then show ?case
    by (simp add: grep_lines.simps [of pat "l @ 10 # unlines ls @ rest"] strchr_line)
qed

lemma unlines_split:
  "x @ y = unlines ls \<Longrightarrow> \<forall>l\<in>set ls. is_line l \<Longrightarrow>
   \<exists>ls1 ls2 p. ls = ls1 @ ls2 \<and> x = unlines ls1 @ p \<and> is_line p \<and> p @ y = unlines ls2 \<and> (p \<noteq> [] \<longrightarrow> (\<exists>l\<in>set ls. length p \<le> length l))"
proof (induction ls arbitrary: x)
  case Nil
  then show ?case by (simp add: is_line_def)
next
  case (Cons l ls)
  show ?case
  proof (cases "length x \<le> length l")
    case True
    have "x = take (length x) (l @ 10 # unlines ls)" using Cons.prems(1) by (metis append_eq_conv_conj unlines_simps(2))
    then have "x = take (length x) l" using True by simp
    then have "is_line x" using Cons.prems(2) by (metis in_set_takeD is_line_def list.set_intros(1))
    then show ?thesis using Cons.prems(1) True by (intro exI [of _ "[]"] exI [of _ "l # ls"] exI [of _ x]) auto
  next
    case False
    then obtain us where us: "x = l @ us" "us @ y = 10 # unlines ls" "us \<noteq> []"
      using Cons.prems(1) by (auto simp: append_eq_append_conv2)
    then obtain x' where x: "x = l @ 10 # x'" "x' @ y = unlines ls" by (cases us) auto
    obtain ls1 ls2 p where "ls = ls1 @ ls2" "x' = unlines ls1 @ p" "is_line p" "p @ y = unlines ls2"
      "p \<noteq> [] \<longrightarrow> (\<exists>l\<in>set ls. length p \<le> length l)"
      using Cons.IH [OF x(2)] Cons.prems(2) by (metis list.set_intros(2))
    then show ?thesis using x(1) by (intro exI [of _ "l # ls1"] exI [of _ ls2] exI [of _ p]) auto
  qed
qed

lemma grep_loop_lines:
  assumes "p @ concat chunks = unlines ls" "\<forall>l\<in>set ls. is_line l \<and> length l \<le> 511" "is_line p" "length p \<le> 511"
    "\<forall>d\<in>set chunks. 10 \<in> set d \<and> length d \<le> 512"
  shows "grep_loop pat p chunks = unlines (filter (match pat) ls)"
  using assms
proof (induction chunks arbitrary: p ls)
  case Nil
  have "10 \<in> set (unlines ls)" if "ls \<noteq> []" using that by (cases ls) auto
  then have "ls = []" using Nil(1,3) by (auto simp: is_line_def)
  then show ?case by (simp add: grep_loop.simps uread_def)
next
  case (Cons d chunks)
  have d: "10 \<in> set d" "length d \<le> 512" using Cons.prems(5) by simp_all
  have pd: "(p @ d) @ concat chunks = unlines ls" using Cons.prems(1) by simp
  obtain ls1 ls2 q where q: "ls = ls1 @ ls2" "p @ d = unlines ls1 @ q" "is_line q" "q @ concat chunks = unlines ls2"
    "q \<noteq> [] \<longrightarrow> (\<exists>l\<in>set ls. length q \<le> length l)"
    using unlines_split [OF pd] Cons.prems(2) by blast
  have rd: "uread (GREPBUF - Suc (length p)) (d # chunks) = (d, chunks)"
    using d(2) Cons.prems(4) by (simp add: uread_def GREPBUF_def)
  have lq: "length q \<le> 511" using q(5) Cons.prems(2) by (cases "q = []") auto
  have "length q \<noteq> length (p @ d)"
  proof
    assume "length q = length (p @ d)"
    then have "q = p @ d" using arg_cong [OF q(2), of length] q(2) by simp
    then show False using q(3) d(1) by (auto simp: is_line_def)
  qed
  moreover have "d \<noteq> []" using d(1) by auto
  moreover have "grep_lines pat (p @ d) = (unlines (filter (match pat) ls1), q)"
    unfolding q(2) using grep_lines_unlines q(1,3) Cons.prems(2) by auto
  moreover have "grep_loop pat q chunks = unlines (filter (match pat) ls2)"
    using Cons.IH [OF q(4) _ q(3) lq] Cons.prems(2,5) q(1) by simp
  ultimately show ?case
    by (subst grep_loop.simps) (simp add: rd q(1))
qed

section \<open>Properties\<close>

text \<open>
  C25. The matcher decides its regular expressions: with \<open>parse\<close> giving the items of the
  pattern (a character or \<open>.\<close>, either with \<open>*\<close>, and a final \<open>$\<close>) and \<open>lang\<close> the strings
  they denote, \<open>match\<close> accepts a text exactly when some substring of it is denoted, at the
  beginning when the pattern starts with \<open>^\<close>, and at the end when it ends with \<open>$\<close>.
\<close>

theorem match_iff:
  assumes "0 \<notin> set re" "0 \<notin> set tx"
  shows "match re tx \<longleftrightarrow>
    (if hd0 re = chr CHR ''^'' then matches_at (parse (tl re)) tx
     else \<exists>pre t. tx = pre @ t \<and> matches_at (parse re) t)"
  using matchhere_iff(1) [OF tl_no0 [OF assms(1)] assms(2)] match_from_iff [OF assms] by (simp add: match_def)

theorem match_iff_witness:
  "match (bytes ''a.*d'') (bytes ''xabcd'') \<and> \<not> match (bytes ''^b'') (bytes ''abc'')"
proof -
  have "match (bytes ''a.*d'') (bytes ''xabcd'') \<longleftrightarrow> (\<exists>pre t. bytes ''xabcd'' = pre @ t \<and> matches_at (parse (bytes ''a.*d'')) t)"
    using match_iff [of "bytes ''a.*d''" "bytes ''xabcd''"] by (simp add: bytes_def)
  moreover have "matches_at (parse (bytes ''a.*d'')) (bytes ''abcd'')"
    by (simp add: bytes_def matches_at_One accepts_def matches_at_Star)
      (rule exI [of _ "[98, 99]"], simp add: matches_at_One accepts_def)
  moreover have "bytes ''xabcd'' = [120] @ bytes ''abcd''" by (simp add: bytes_def)
  moreover have "\<not> match (bytes ''^b'') (bytes ''abc'')"
    using match_iff [of "bytes ''^b''" "bytes ''abc''"] by (simp add: bytes_def matches_at_One accepts_def)
  ultimately show ?thesis by blast
qed



text \<open>
  A read that ends inside a line loses it: when the buffer holds no end of line,
  \<open>if(p == buf) m = 0\<close> throws away what was read, so the beginning of a line that arrives
  in two pieces (from a pipe, say) is never matched.
\<close>

theorem grep_drops_partial_line:
  assumes "is_line d" "d \<noteq> []" "length d < GREPBUF"
  shows "grep pattern (d # chunks) = grep pattern chunks"
proof -
  have "uread (GREPBUF - Suc 0) (d # chunks) = (d, chunks)" using assms(3) by (simp add: uread_def)
  moreover have "grep_lines pattern d = ([], d)" using grep_lines_unlines [of "[]" d] assms(1) by simp
  ultimately show ?thesis
    using assms(2) unfolding grep_def by (subst grep_loop.simps) simp
qed

theorem grep_drops_partial_line_witness:
  "match (bytes ''a'') (bytes ''ab'') \<and> grep (bytes ''a'') [bytes ''a'', bytes ''b'' @ [10]] = []"
proof -
  have "grep (bytes ''a'') [bytes ''a'', bytes ''b'' @ [10]] = grep (bytes ''a'') [bytes ''b'' @ [10]]"
    by (rule grep_drops_partial_line) (simp_all add: is_line_def bytes_def GREPBUF_def)
  moreover have "grep (bytes ''a'') [bytes ''b'' @ [10]] = []"
    by (simp add: grep_def grep_loop.simps uread_def GREPBUF_def grep_lines.simps match_def bytes_def matchhere.simps)
  moreover have "match (bytes ''a'') (bytes ''ab'')" by (simp add: match_def bytes_def matchhere.simps)
  ultimately show ?thesis by simp
qed

end
