(* ===== verification/Uprogs.thy ===== *)
theory Uprogs
  imports Grep Fs
begin

text \<open>
  Small user programs: wc.c, cat.c, echo.c, rm.c, mkdir.c, kill.c, ln.c and ls.c. A descriptor is the list of
  what successive reads find, \<open>None\<close> being a read that fails; the system calls a program makes are its
  parameters, on a state of the system where they change it. A program is what it writes to each
  descriptor, in order.
\<close>

section \<open>Reading\<close>

type_synonym uinput = "u8 list option list"

type_synonym uout = "(nat \<times> u8 list) list"

definition uread_opt :: "nat \<Rightarrow> uinput \<Rightarrow> u8 list option \<times> uinput" where
  "uread_opt lim ins =
     (case ins of [] \<Rightarrow> (Some [], [])
      | None # cs \<Rightarrow> (None, cs)
      | Some c # cs \<Rightarrow> if length c \<le> lim then (Some c, cs) else (Some (take lim c), Some (drop lim c) # cs))"

definition uinput_size :: "uinput \<Rightarrow> nat" where
  "uinput_size ins = sum_list (map (\<lambda>x. case x of None \<Rightarrow> 0 | Some c \<Rightarrow> length c) ins)"

lemma uread_opt_less: "uread_opt lim ins = (Some d, cs) \<Longrightarrow> d \<noteq> [] \<Longrightarrow> uinput_size cs < uinput_size ins"
  by (auto simp: uread_opt_def uinput_size_def split: list.splits option.splits if_splits)

definition say :: "nat \<Rightarrow> string \<Rightarrow> carg list \<Rightarrow> nat \<times> u8 list" where
  "say fd fmt args = (fd, uformat (bytes fmt @ [10]) False (va args) 0)"

section \<open>wc\<close>

type_synonym wcst = "cint \<times> cint \<times> cint \<times> bool"

definition wc_step :: "u8 \<Rightarrow> wcst \<Rightarrow> wcst" where
  "wc_step b st =
     (let (l, w, c, inword) = st;
          c = c + 1;
          l = (if b = 10 then l + 1 else l)
      in if strchr [32, 13, 9, 10, 11] b \<noteq> None then (l, w, c, False)
         else if \<not> inword then (l, w + 1, c, True)
         else (l, w, c, inword))"

text \<open>The counts, or \<open>None\<close> after a read error.\<close>

function wc_loop :: "uinput \<Rightarrow> wcst \<Rightarrow> wcst option" where
  "wc_loop ins st =
     (case uread_opt 512 ins of
        (None, cs) \<Rightarrow> None
      | (Some d, cs) \<Rightarrow> if d = [] then Some st else wc_loop cs (fold wc_step d st))"
  by pat_completeness auto
termination
  by (relation "measure (\<lambda>(ins, st). uinput_size ins)") (use uread_opt_less in force)+

declare wc_loop.simps [simp del]

text \<open>What is written, and whether the program has called \<open>exit\<close>.\<close>

definition wc :: "uinput \<Rightarrow> u8 list \<Rightarrow> uout \<times> bool" where
  "wc ins name =
     (case wc_loop ins (0, 0, 0, False) of
        None \<Rightarrow> ([say 1 ''wc: read error'' []], True)
      | Some (l, w, c, _) \<Rightarrow> ([say 1 ''%d %d %d %s'' [(l, []), (w, []), (c, []), (1, name)]], False))"

fun wc_files :: "(u8 list \<Rightarrow> uinput option) \<Rightarrow> u8 list list \<Rightarrow> uout" where
  "wc_files open_call [] = []"
| "wc_files open_call (f # fs) =
     (case open_call f of
        None \<Rightarrow> [say 1 ''wc: cannot open %s'' [(1, f)]]
      | Some ins \<Rightarrow> let (out, ex) = wc ins f in if ex then out else out @ wc_files open_call fs)"

definition wc_main :: "(u8 list \<Rightarrow> uinput option) \<Rightarrow> uinput \<Rightarrow> u8 list list \<Rightarrow> uout" where
  "wc_main open_call stdin argv = (if length argv \<le> 1 then fst (wc stdin []) else wc_files open_call (tl argv))"

section \<open>cat\<close>

text \<open>\<open>wr done d\<close> is what \<open>write\<close> of \<open>d\<close> returns after \<open>done\<close> has been written.\<close>

function cat_loop :: "(u8 list \<Rightarrow> u8 list \<Rightarrow> cint) \<Rightarrow> uinput \<Rightarrow> u8 list \<Rightarrow> uout \<times> bool" where
  "cat_loop wr ins out =
     (case uread_opt 512 ins of
        (None, cs) \<Rightarrow> ([(1, out), say 1 ''cat: read error'' []], True)
      | (Some d, cs) \<Rightarrow>
          if d = [] then ([(1, out)], False)
          else let n = wr out d; out = out @ take (nat (sint n)) d
               in if n \<noteq> of_nat (length d) then ([(1, out), say 1 ''cat: write error'' []], True)
                  else cat_loop wr cs out)"
  by pat_completeness auto
termination
  by (relation "measure (\<lambda>(wr, ins, out). uinput_size ins)") (use uread_opt_less in force)+

declare cat_loop.simps [simp del]

definition cat :: "(u8 list \<Rightarrow> u8 list \<Rightarrow> cint) \<Rightarrow> uinput \<Rightarrow> uout \<times> bool" where
  "cat wr ins = cat_loop wr ins []"

fun cat_files :: "(u8 list \<Rightarrow> uinput option) \<Rightarrow> (u8 list \<Rightarrow> u8 list \<Rightarrow> cint) \<Rightarrow> u8 list list \<Rightarrow> uout" where
  "cat_files open_call wr [] = []"
| "cat_files open_call wr (f # fs) =
     (case open_call f of
        None \<Rightarrow> [say 1 ''cat: cannot open %s'' [(1, f)]]
      | Some ins \<Rightarrow> let (out, ex) = cat wr ins in if ex then out else out @ cat_files open_call wr fs)"

definition cat_main :: "(u8 list \<Rightarrow> uinput option) \<Rightarrow> (u8 list \<Rightarrow> u8 list \<Rightarrow> cint) \<Rightarrow> uinput \<Rightarrow> u8 list list \<Rightarrow> uout" where
  "cat_main open_call wr stdin argv = (if length argv \<le> 1 then fst (cat wr stdin) else cat_files open_call wr (tl argv))"

section \<open>echo, rm, mkdir, kill and ln\<close>

fun echo_args :: "u8 list list \<Rightarrow> u8 list" where
  "echo_args [] = []"
| "echo_args (a # as) = uformat (bytes ''%s%s'') False (va [(1, a), (1, if as \<noteq> [] then [32] else [10])]) 0 @ echo_args as"

definition echo_main :: "u8 list list \<Rightarrow> uout" where
  "echo_main argv = [(1, echo_args (tl argv))]"

text \<open>The loop of rm.c and mkdir.c: it stops at the first call that fails.\<close>

fun each_until :: "(u8 list \<Rightarrow> 's \<Rightarrow> cint \<times> 's) \<Rightarrow> string \<Rightarrow> u8 list list \<Rightarrow> 's \<Rightarrow> uout \<times> 's" where
  "each_until call msg [] s = ([], s)"
| "each_until call msg (a # as) s =
     (let (r, s) = call a s in if r <s 0 then ([say 2 msg [(1, a)]], s) else each_until call msg as s)"

definition rm_main :: "(u8 list \<Rightarrow> 's \<Rightarrow> cint \<times> 's) \<Rightarrow> u8 list list \<Rightarrow> 's \<Rightarrow> uout \<times> 's" where
  "rm_main unlink_call argv s =
     (if length argv < 2 then ([say 2 ''Usage: rm files...'' []], s) else each_until unlink_call ''rm: %s failed to delete'' (tl argv) s)"

definition mkdir_main :: "(u8 list \<Rightarrow> 's \<Rightarrow> cint \<times> 's) \<Rightarrow> u8 list list \<Rightarrow> 's \<Rightarrow> uout \<times> 's" where
  "mkdir_main mkdir_call argv s =
     (if length argv < 2 then ([say 2 ''Usage: mkdir files...'' []], s) else each_until mkdir_call ''mkdir: %s failed to create'' (tl argv) s)"

definition kill_main :: "(cint \<Rightarrow> 's \<Rightarrow> cint \<times> 's) \<Rightarrow> u8 list list \<Rightarrow> 's \<Rightarrow> uout \<times> 's" where
  "kill_main kill_call argv s =
     (if length argv < 2 then ([say 2 ''usage: kill pid...'' []], s) else ([], fold (\<lambda>a s. snd (kill_call (atoi a) s)) (tl argv) s))"

definition ln_main :: "(u8 list \<Rightarrow> u8 list \<Rightarrow> 's \<Rightarrow> cint \<times> 's) \<Rightarrow> u8 list list \<Rightarrow> 's \<Rightarrow> uout \<times> 's" where
  "ln_main link_call argv s =
     (if length argv \<noteq> 3 then ([say 2 ''Usage: ln old new'' []], s)
      else let (r, s) = link_call (argv ! 1) (argv ! 2) s
           in (if r <s 0 then [say 2 ''link %s %s: failed'' [(1, argv ! 1), (1, argv ! 2)]] else [], s))"

section \<open>ls\<close>

text \<open>The index after the last slash before \<open>i\<close>.\<close>

fun fmt_scan :: "u8 list \<Rightarrow> nat \<Rightarrow> nat" where
  "fmt_scan path 0 = 0"
| "fmt_scan path (Suc i) = (if path ! i = chr CHR ''/'' then Suc i else fmt_scan path i)"

definition fmtname :: "u8 list \<Rightarrow> u8 list" where
  "fmtname path =
     (let p = drop (fmt_scan path (length path)) path
      in if length p \<ge> DIRSIZ then p else p @ replicate (DIRSIZ - length p) 32)"

definition ls_line :: "u8 list \<Rightarrow> stat \<Rightarrow> nat \<times> u8 list" where
  "ls_line path st = say 1 ''%s %d %d %d'' [(1, fmtname path), (scast (st_type st), []), (st_ino st, []), (st_size st, [])]"

text \<open>The loop over the entries of an open directory, whose bytes are \<open>d\<close>.\<close>

function ls_entries :: "(u8 list \<Rightarrow> stat option) \<Rightarrow> u8 list \<Rightarrow> u8 list \<Rightarrow> uout" where
  "ls_entries stat_call path d =
     (if length d < dirent_size then []
      else let buf = path @ [chr CHR ''/''] @ cstr (de_name d)
           in (if de_inum d = 0 then []
               else case stat_call buf of
                      None \<Rightarrow> [say 1 ''ls: cannot stat %s'' [(1, buf)]]
                    | Some st \<Rightarrow> [ls_line buf st]) @ ls_entries stat_call path (drop dirent_size d))"
  by pat_completeness auto
termination
  by (relation "measure (\<lambda>(stat_call, path, d). length d)") (simp_all add: dirent_size_def)

declare ls_entries.simps [simp del]

text \<open>\<open>open\<close> gives what \<open>fstat\<close> finds and what \<open>read\<close> returns.\<close>

definition ls :: "(u8 list \<Rightarrow> (stat option \<times> u8 list) option) \<Rightarrow> (u8 list \<Rightarrow> stat option) \<Rightarrow> u8 list \<Rightarrow> uout" where
  "ls open_call stat_call path =
     (case open_call path of
        None \<Rightarrow> [say 2 ''ls: cannot open %s'' [(1, path)]]
      | Some (None, d) \<Rightarrow> [say 2 ''ls: cannot stat %s'' [(1, path)]]
      | Some (Some st, d) \<Rightarrow>
          if st_type st = T_FILE then [ls_line path st]
          else if st_type st = T_DIR
          then (if length path + 1 + DIRSIZ + 1 > 512 then [say 1 ''ls: path too long'' []]
                else ls_entries stat_call path d)
          else [])"

definition ls_main :: "(u8 list \<Rightarrow> (stat option \<times> u8 list) option) \<Rightarrow> (u8 list \<Rightarrow> stat option) \<Rightarrow> u8 list list \<Rightarrow> uout" where
  "ls_main open_call stat_call argv =
     (if length argv < 2 then ls open_call stat_call (bytes ''.'') else concat (map (ls open_call stat_call) (tl argv)))"

section \<open>Lemmas\<close>

text \<open>The pieces of a text between its white space; the words are those that are not empty.\<close>

definition white :: "u8 \<Rightarrow> bool" where
  "white b \<longleftrightarrow> b \<in> {32, 13, 9, 10, 11}"

fun pieces :: "u8 list \<Rightarrow> u8 list list" where
  "pieces [] = [[]]"
| "pieces (b # bs) = (if white b then [] # pieces bs else (b # hd (pieces bs)) # tl (pieces bs))"

definition nwords :: "u8 list \<Rightarrow> nat" where
  "nwords d = length (filter (\<lambda>w. w \<noteq> []) (pieces d))"

lemma pieces_ne [simp]: "pieces d \<noteq> []"
  by (cases d) simp_all

lemma wc_step_eq: "wc_step b (l, w, c, i) = (if b = 10 then l + 1 else l, if white b \<or> i then w else w + 1, c + 1, \<not> white b)"
  by (auto simp: wc_step_def white_def Let_def)

lemma nwords_Cons: "nwords (b # bs) = (if white b then nwords bs else nwords bs + (if hd (pieces bs) = [] then 1 else 0))"
  by (cases "pieces bs") (simp_all add: nwords_def)

lemma wc_fold:
  "\<exists>i'. fold wc_step d (l, w, c, i) =
     (l + of_nat (count_list d 10), w + of_nat (nwords d - (if i \<and> hd (pieces d) \<noteq> [] then 1 else 0)), c + of_nat (length d), i')"
proof (induction d arbitrary: l w c i)
  case Nil
  then show ?case by (simp add: nwords_def)
next
  case (Cons b d)
  have pos: "0 < nwords d" if "hd (pieces d) \<noteq> []" using that by (cases "pieces d") (simp_all add: nwords_def)
  show ?case
  proof (cases "white b")
    case True
    then show ?thesis using Cons.IH [of "if b = 10 then l + 1 else l" w "c + 1" False]
      by (auto simp: wc_step_eq nwords_Cons add.assoc)
  next
    case False
    then have "b \<noteq> 10" by (auto simp: white_def)
    then show ?thesis using Cons.IH [of l "if i then w else w + 1" "c + 1" True] False pos
      by (auto simp: wc_step_eq nwords_Cons add.assoc of_nat_diff)
  qed
qed

lemma uread_opt_some:
  assumes "\<forall>x\<in>set ins. \<exists>d. x = Some d \<and> d \<noteq> []" "ins \<noteq> []"
  shows "\<exists>d cs. uread_opt 512 ins = (Some d, cs) \<and> d \<noteq> [] \<and> (\<forall>x\<in>set cs. \<exists>d. x = Some d \<and> d \<noteq> []) \<and>
    concat (map the ins) = d @ concat (map the cs)"
  using assms by (cases ins) (auto simp: uread_opt_def)

lemma wc_loop_all:
  assumes "\<forall>x\<in>set ins. \<exists>d. x = Some d \<and> d \<noteq> []"
  shows "wc_loop ins st = Some (fold wc_step (concat (map the ins)) st)"
  using assms
proof (induction ins st rule: wc_loop.induct)
  case (1 ins st)
  show ?case
  proof (cases "ins = []")
    case True
    then show ?thesis by (simp add: wc_loop.simps uread_opt_def)
  next
    case False
    then obtain d cs where d: "uread_opt 512 ins = (Some d, cs)" "d \<noteq> []" "\<forall>x\<in>set cs. \<exists>d. x = Some d \<and> d \<noteq> []"
      "concat (map the ins) = d @ concat (map the cs)" using uread_opt_some [OF 1(2)] by blast
    then show ?thesis using 1(1) [OF d(1) [symmetric] refl] by (subst wc_loop.simps) simp
  qed
qed

text \<open>However the input arrives, \<open>wc\<close> prints the numbers of ends of line, words and bytes of the whole text.\<close>

lemma wc_counts:
  assumes "\<forall>x\<in>set ins. \<exists>d. x = Some d \<and> d \<noteq> []"
  defines "d \<equiv> concat (map the ins)"
  shows "wc ins name =
    ([say 1 ''%d %d %d %s'' [(of_nat (count_list d 10), []), (of_nat (nwords d), []), (of_nat (length d), []), (1, name)]], False)"
  using wc_loop_all [OF assms(1)] wc_fold [of d 0 0 0 False] unfolding d_def [symmetric] by (auto simp: wc_def)

lemma cat_copies:
  assumes "\<forall>x\<in>set ins. \<exists>d. x = Some d \<and> d \<noteq> []"
  shows "cat_loop (\<lambda>_ d. of_nat (length d)) ins out = ([(1, out @ concat (map the ins))], False)"
  using assms
proof (induction "uinput_size ins" arbitrary: ins out rule: less_induct)
  case less
  show ?case
  proof (cases "ins = []")
    case True
    then show ?thesis by (simp add: cat_loop.simps uread_opt_def)
  next
    case False
    then obtain d cs where d: "uread_opt 512 ins = (Some d, cs)" "d \<noteq> []" "\<forall>x\<in>set cs. \<exists>d. x = Some d \<and> d \<noteq> []"
      "concat (map the ins) = d @ concat (map the cs)" using uread_opt_some [OF less.prems] by blast
    have "length d \<le> 512" using d(1) by (auto simp: uread_opt_def split: list.splits option.splits if_splits)
    then have "take (nat (sint (of_nat (length d) :: cint))) d = d" using sint_of_int_cint [of "int (length d)"] by simp
    then show ?thesis using less.hyps [OF uread_opt_less [OF d(1,2)] d(3)] d by (subst cat_loop.simps) (simp add: Let_def)
  qed
qed

text \<open>A name shorter than a directory entry allows is padded to its width.\<close>

lemma length_fmtname: "DIRSIZ \<le> length (fmtname path)"
  by (simp add: fmtname_def Let_def)

lemma fmt_scan_no_slash: "fmt_scan path i \<le> i \<and> (\<forall>j. fmt_scan path i \<le> j \<and> j < i \<longrightarrow> path ! j \<noteq> 47)"
  by (induction i) (auto simp: less_Suc_eq)

lemma fmtname_last_element:
  "\<exists>p. fmtname path = p @ replicate (DIRSIZ - length p) 32 \<and> 47 \<notin> set p \<and> (\<exists>q. path = q @ p)"
proof -
  let ?k = "fmt_scan path (length path)"
  have "47 \<notin> set (drop ?k path)" using fmt_scan_no_slash [of path "length path"] by (auto simp: in_set_conv_nth)
  moreover have "path = take ?k path @ drop ?k path" by simp
  ultimately show ?thesis by (intro exI [of _ "drop ?k path"]) (auto simp: fmtname_def Let_def intro: exI [of _ "take ?k path"])
qed

end
