(* ===== verification/Spec2Isabelle.thy ===== *)
theory Spec2Isabelle
  imports Scheduler Trap Sh Umalloc Ide Mkfs Uprogs
begin

text \<open>
  A verification library for the xv6 operating system with stride and lottery scheduling: the kernel,
  the program that makes its disk image, and the user programs, all under src/.

  \<^bold>\<open>The program and its theories.\<close> The kernel is a stack of layers, and so is the library. Each layer adds
  its fields to the state record of the layer below (\<open>kern\<close>, \<open>kmem\<close>, \<open>kproc\<close>, \<open>kslp\<close>, \<open>kbio\<close>, \<open>klog\<close>,
  \<open>kfs\<close>, \<open>kpipe\<close>, \<open>kfile\<close>, \<open>kinput\<close>, \<open>ksys\<close>), so an operation of a lower layer is called unchanged on the
  states of all layers above it. An operation of the C code is a function from states to outcomes
  \<open>'a res\<close>: \<open>Ok\<close> with the result and the new state, \<open>Panic\<close> with the message of the call of
  \<open>panic\<close> (or of the fault the hardware raises), \<open>Blocked\<close> when the caller spins or sleeps and is not woken.
  Integers of C are words of their width, \<open>cint\<close> for the signed ones; pointers into fixed tables are
  indices, other pointers are addresses in the byte memory of \<open>kern\<close>.

  \<^item> Prelude: outcomes, scan loops over tables, words, the shared collections of lemmas.
  \<^item> Spinlock (spinlock.c, spinlock.h), Console (output half of console.c, uartputc), Strings (string.c on the
    byte memory), Kalloc (kalloc.c, page arithmetic of mmu.h and memlayout.h), Traps (traps.h), Fcntl (fcntl.h),
    Layout (little-endian fields of on-disk structures).
  \<^item> Proc (proc.h and the core of proc.c: allocproc, sleep, wakeup, kill, yield, sched, set_tickets), Scheduler
    (the four scheduler loops of proc.c), Life (userinit, fork, exit, wait, growproc, forkret of proc.c),
    Vm (vm.c), Exec (exec.c, elf.h).
  \<^item> Sleeplock (sleeplock.c), Bio (bio.c, buf.h, memide.c), Log (log.c, readsb of fs.c), Fs (fs.c, fs.h, stat.h, the
    inode of file.h), Pipe (pipe.c), File (file.c, pipealloc).
  \<^item> Input (input half of console.c, kbd.c, kbd.h, uartgetc), Syscall (argument fetching of syscall.c, sysproc.c),
    Sysfile (sysfile.c), Trap (dispatch of syscall.c, syscall.h, trap.c).
  \<^item> Mach (ports of x86.h, picirq.c, ioapic.c, lapic.c, timer.c, uartinit, mp.c, mp.h), Ide (ide.c). What these do to
    a device is a log of port and register accesses; what a device answers is the parameter \<open>hw\<close>.
  \<^item> Mkfs (mkfs.c): the disk image as a sequence of blocks.
  \<^item> Ulib (ulib.c, printf.c), Umalloc (umalloc.c), Grep (grep.c), Sh (sh.c), Uprogs (wc.c, cat.c, echo.c, rm.c,
    mkdir.c, kill.c, ln.c, ls.c).

  \<^bold>\<open>What the theorems show.\<close>
  \<^item> Schedulers: a turn of the stride scheduler dispatches the first runnable process of least pass; over any number
    of turns the CPU time of two processes, weighted by their strides, stays within a bound; the two
    stride schedulers agree where passes are not negative; the round robin loop runs each process once; which processes a
    lottery turn runs; zero strides and negative passes defeat the policy.
  \<^item> Locks and sleeping: mutual exclusion of spin locks in every reachable state of any number of CPUs; no wakeup is lost
    between sleep and wakeup; exclusion of sleep locks.
  \<^item> Memory: the page allocator (locale \<open>page_alloc\<close>, interpreted on kalloc and kfree) and its initialisation;
    mappages refines the update of a map from pages to entries; the user allocator hands out disjoint
    blocks and takes them back (locale \<open>heap_source\<close> for sbrk, interpreted on \<open>usbrk\<close>).
  \<^item> Storage: the buffer cache is coherent (locale \<open>block_cache\<close>, interpreted on bread, bwrite and brelse) and recycles the
    least recently used buffer; a commit is atomic under a crash at any disk write, and recovery can itself be
    interrupted; balloc, writei followed by readi, iupdate and path elements behave as the file system
    promises; the queue of the IDE driver is first in, first out; mkfs makes the image it is asked for, with the
    layout the kernel reads.
  \<^item> Processes and calls: allocproc, kill and set_tickets on every branch; a pipe is a bounded queue under any
    interleaving of reads and writes.
  \<^item> User level: the shell parser terminates on every line and returns well-formed commands, pipelines are wired correctly;
    grep's matcher decides its expressions and prints exactly the matching lines; printed numbers read back; wc
    counts the text however the reads cut it; cat copies its input; ls prints the last path element.

  \<^bold>\<open>Loops, bounds and parameters.\<close> Loops that the code bounds are structural recursion or have a termination proof. A loop
  that sleeps takes a number \<open>fuel\<close> of sleeps and a function \<open>resume\<close>, what the rest of the machine does while the process
  sleeps; \<open>Blocked\<close> is the result when the fuel is used up, and theorems that a call returns say so with a fuel that is enough
  (none, where the call does not have to wait). A loop that polls a device takes a bound \<open>polls\<close>. The parameter \<open>run\<close> of the
  schedulers is what a dispatched process does until it switches back, in place of the assembly of swtch. System
  calls made by user programs are parameters of those programs.

  \<^bold>\<open>Not modelled.\<close> The assembly files and the boot loader (bootmain.c, bootasm.S, entry.S, swtch.S, trapasm.S, vectors, and
  main.c, which calls the initialisers and starts the other CPUs), since they run below the state the records
  describe; seginit, tvinit and idtinit, which only load segment and interrupt descriptors; the acknowledgement of
  interrupts in trap, whose effect is on the APIC alone; the call stack that a lock records for debugging. Kernel
  code runs as one thread at a time between the points where it gives up the CPU, except in Spinlock, where CPUs interleave.
  The programs init.c, zombie.c, forktest.c, stressfs.c, test.c, test1.c, test2.c and usertests.c are fixed sequences of
  system calls and compute nothing of their own.
\<close>

end
